(* ===== verification/Prelude.thy ===== *)
theory Prelude
  imports Complex_Main "HOL-Library.AList" "HOL-Library.Sublist" "HOL-Library.Word"
begin

text \<open>
  Shared ground of the development: Python values, raised exceptions as the left side of a sum,
  dictionaries as association lists in insertion order, the string and integer operations of the
  standard library that the package calls, and big-endian byte encodings.

  Conventions. A Python \<open>float\<close> is a \<open>rat\<close>: every finite float is one, comparisons are
  exact, and the only float operation modelled is the addition of a time-to-live, whose rounding is
  left out. A Python \<open>str\<close> is a \<open>char list\<close>: its UTF-8 bytes, on which substring tests
  agree with Python's. \<open>int\<close> is unbounded in both. \<open>OutsideModel\<close> is not an exception of
  the code: it marks a value that breaks the code's own type annotation (a key that is not a
  \<open>str\<close>, a port that is not an \<open>int\<close>), where Python would go on duck-typed.
\<close>

named_theorems dict_simps \<open>lookups and keys of updated dictionaries\<close>
named_theorems wf_intros \<open>operations that keep a well-formedness invariant\<close>

section \<open>Values, exceptions, results\<close>

datatype pyerr = KeyError | TypeError | ValueError | AttributeError | OverflowError | EOFError
  | IncompleteReadError | BlockingIOError | OSError | UnpicklingError | AssertionError | OutsideModel

type_synonym 'a res = "pyerr + 'a"

definition res_bind :: "'a res \<Rightarrow> ('a \<Rightarrow> 'b res) \<Rightarrow> 'b res" where
  "res_bind r f = (case r of Inl e \<Rightarrow> Inl e | Inr x \<Rightarrow> f x)"

lemma res_bind_simps [simp]:
  "res_bind (Inl e) f = Inl e"
  "res_bind (Inr x) f = f x"
  by (simp_all add: res_bind_def)

lemma res_bind_Inr_iff: "res_bind r f = Inr y \<longleftrightarrow> (\<exists>x. r = Inr x \<and> f x = Inr y)"
  by (cases r) auto

lemma res_bind_assoc: "res_bind (res_bind r f) g = res_bind r (\<lambda>x. res_bind (f x) g)"
  by (cases r) auto

datatype pyval = PNone | PBool bool | PInt int | PFloat rat | PStr string
  | PList "pyval list" | PDict "(string \<times> pyval) list" | PObj nat

type_synonym 'v pydict = "(string \<times> 'v) list"

text \<open>\<open>d[k]\<close> and \<open>d.get(k, default)\<close> on a value that should be a dictionary.\<close>

fun py_getitem :: "pyval \<Rightarrow> string \<Rightarrow> pyval res" where
  "py_getitem (PDict d) k = (case map_of d k of None \<Rightarrow> Inl KeyError | Some v \<Rightarrow> Inr v)"
| "py_getitem _ k = Inl TypeError"

fun py_dict_get :: "pyval \<Rightarrow> string \<Rightarrow> pyval \<Rightarrow> pyval res" where
  "py_dict_get (PDict d) k dflt = Inr (case map_of d k of None \<Rightarrow> dflt | Some v \<Rightarrow> v)"
| "py_dict_get _ k dflt = Inl AttributeError"

text \<open>Reading a value at its annotated type: \<open>str\<close>, \<open>int\<close>, \<open>int | None\<close>, \<open>float | None\<close>.\<close>

fun as_str :: "pyval \<Rightarrow> string res" where
  "as_str (PStr s) = Inr s"
| "as_str _ = Inl OutsideModel"

fun as_int :: "pyval \<Rightarrow> int res" where
  "as_int (PInt i) = Inr i"
| "as_int _ = Inl OutsideModel"

fun as_opt_int :: "pyval \<Rightarrow> int option res" where
  "as_opt_int PNone = Inr None"
| "as_opt_int (PInt i) = Inr (Some i)"
| "as_opt_int _ = Inl OutsideModel"

fun as_opt_float :: "pyval \<Rightarrow> rat option res" where
  "as_opt_float PNone = Inr None"
| "as_opt_float (PInt i) = Inr (Some (of_int i))"
| "as_opt_float (PFloat r) = Inr (Some r)"
| "as_opt_float _ = Inl OutsideModel"

fun as_bool :: "pyval \<Rightarrow> bool res" where
  "as_bool (PBool b) = Inr b"
| "as_bool _ = Inl OutsideModel"

section \<open>Dictionaries\<close>

text \<open>
  \<open>AList.update\<close> keeps the position of an existing key and appends a new one, which is
  Python's insertion order; \<open>AList.delete\<close> removes the key. A Python dictionary has no
  duplicate key: \<open>wf_dict\<close>.
\<close>

definition wf_dict :: "('k \<times> 'v) list \<Rightarrow> bool" where
  "wf_dict d \<longleftrightarrow> distinct (map fst d)"

text \<open>\<open>del d[k]\<close> raises \<open>KeyError\<close> on a missing key; \<open>del_keys\<close> is the loop over a list of keys.\<close>

definition dict_del :: "'k \<Rightarrow> ('k \<times> 'v) list \<Rightarrow> ('k \<times> 'v) list res" where
  "dict_del k d = (if map_of d k = None then Inl KeyError else Inr (AList.delete k d))"

fun del_keys :: "'k list \<Rightarrow> ('k \<times> 'v) list \<Rightarrow> ('k \<times> 'v) list res" where
  "del_keys [] d = Inr d"
| "del_keys (k # ks) d = res_bind (dict_del k d) (del_keys ks)"

lemma map_of_update [dict_simps]: "map_of (AList.update k v d) k' = (if k' = k then Some v else map_of d k')"
  by (simp add: update_conv')

lemma map_of_delete [dict_simps]: "map_of (AList.delete k d) k' = (if k' = k then None else map_of d k')"
  by (simp add: delete_conv')

lemma keys_delete: "fst ` set (AList.delete k d) = fst ` set d - {k}"
  by (metis delete_keys list.set_map set_removeAll)

lemma keys_update: "fst ` set (AList.update k v d) = insert k (fst ` set d)"
  by (simp add: dom_update)

lemma wf_dict_Nil [wf_intros, simp]: "wf_dict []"
  by (simp add: wf_dict_def)

lemma wf_dict_update [wf_intros, simp]: "wf_dict d \<Longrightarrow> wf_dict (AList.update k v d)"
  by (simp add: wf_dict_def distinct_update)

lemma wf_dict_delete [wf_intros, simp]: "wf_dict d \<Longrightarrow> wf_dict (AList.delete k d)"
  by (simp add: wf_dict_def distinct_delete)

lemma wf_dict_filter [wf_intros, simp]: "wf_dict d \<Longrightarrow> wf_dict (filter P d)"
  by (simp add: wf_dict_def distinct_map_filter)

lemma wf_dict_lookup: "wf_dict d \<Longrightarrow> (k, v) \<in> set d \<longleftrightarrow> map_of d k = Some v"
  by (auto simp: wf_dict_def dest: map_of_SomeD)

lemma map_of_filter_dict:
  "wf_dict d \<Longrightarrow> map_of (filter P d) k =
     (case map_of d k of None \<Rightarrow> None | Some v \<Rightarrow> if P (k, v) then Some v else None)"
proof (induction d)
  case (Cons p d)
  obtain k' v' where p: "p = (k', v')" by (cases p)
  have "map_of d k' = None"
    using Cons.prems p by (simp add: wf_dict_def map_of_eq_None_iff)
  then show ?case
    using Cons p by (auto simp: wf_dict_def split: option.splits)
qed simp

text \<open>
  Deleting a list of distinct keys that are present never raises and is the filter of the
  other keys: the loops \<open>for k in doomed: del self._data[k]\<close> of the stores.
\<close>

lemma del_keys_filter:
  assumes "distinct ks" and "set ks \<subseteq> fst ` set d"
  shows "del_keys ks d = Inr (filter (\<lambda>(k, _). k \<notin> set ks) d)"
  using assms
proof (induction ks arbitrary: d)
  case Nil
  show ?case by (simp add: case_prod_beta)
next
  case (Cons k ks)
  have k: "map_of d k \<noteq> None"
    using Cons.prems by (simp add: map_of_eq_None_iff)
  have "set ks \<subseteq> fst ` set (AList.delete k d)"
    using Cons.prems by (auto simp: keys_delete)
  then have "del_keys ks (AList.delete k d) = Inr (filter (\<lambda>(k', _). k' \<notin> set ks) (AList.delete k d))"
    using Cons by simp
  then show ?case
    using k by (auto simp: dict_del_def AList.delete_eq case_prod_beta intro!: filter_cong)
qed

lemma del_keys_doomed:
  assumes "wf_dict d"
  shows "del_keys (map fst (filter P d)) d = Inr (filter (\<lambda>e. \<not> P e) d)"
proof -
  have "distinct (map fst (filter P d))"
    using assms by (simp add: wf_dict_def distinct_map_filter)
  moreover have "set (map fst (filter P d)) \<subseteq> fst ` set d" by auto
  ultimately have "del_keys (map fst (filter P d)) d =
      Inr (filter (\<lambda>(k, _). k \<notin> set (map fst (filter P d))) d)"
    by (rule del_keys_filter)
  moreover have "filter (\<lambda>(k, _). k \<notin> set (map fst (filter P d))) d = filter (\<lambda>e. \<not> P e) d"
    using assms by (auto intro!: filter_cong simp: wf_dict_def image_iff)
      (metis eq_key_imp_eq_value)+
  ultimately show ?thesis by simp
qed

end
