(* ===== verification/Py_Text.thy ===== *)
theory Py_Text
  imports Prelude
begin

text \<open>
  The string, integer and byte operations of Python's standard library that the package calls:
  \<open>str(int)\<close>, \<open>int(str)\<close>, \<open>rsplit(sep, 1)\<close>, \<open>rstrip(chars)\<close>, slices \<open>xs[:n]\<close>,
  \<open>int.to_bytes(n, "big")\<close> and \<open>int.from_bytes(bs, "big")\<close>. CPython's limit of 4300
  digits for \<open>int(str)\<close> is left out.
\<close>

named_theorems text_simps \<open>strings the package builds and takes apart\<close>

section \<open>Decimal numbers\<close>

definition digit_char :: "nat \<Rightarrow> char" where
  "digit_char n = char_of (48 + n)"

definition is_digit :: "char \<Rightarrow> bool" where
  "is_digit c \<longleftrightarrow> 48 \<le> (of_char c :: nat) \<and> (of_char c :: nat) \<le> 57"

definition digit_val :: "char \<Rightarrow> nat" where
  "digit_val c = of_char c - 48"

fun nat_str :: "nat \<Rightarrow> string" where
  "nat_str n = (if n < 10 then [digit_char n] else nat_str (n div 10) @ [digit_char (n mod 10)])"

declare nat_str.simps [simp del]

definition py_str_int :: "int \<Rightarrow> string" where
  "py_str_int i = (if i < 0 then CHR ''-'' # nat_str (nat (- i)) else nat_str (nat i))"

text \<open>
  \<open>int(s)\<close>: ASCII blanks around the literal, one optional sign, then digits in which single
  underscores may separate two digits; anything else raises \<open>ValueError\<close>.
\<close>

definition is_blank :: "char \<Rightarrow> bool" where
  "is_blank c \<longleftrightarrow> of_char c = (32 :: nat) \<or> 9 \<le> (of_char c :: nat) \<and> (of_char c :: nat) \<le> 13"

definition py_strip :: "string \<Rightarrow> string" where
  "py_strip s = rev (dropWhile is_blank (rev (dropWhile is_blank s)))"

fun int_digits :: "nat \<Rightarrow> string \<Rightarrow> nat option" where
  "int_digits acc [] = Some acc"
| "int_digits acc (c # cs) =
     (if is_digit c then int_digits (acc * 10 + digit_val c) cs
      else if c = CHR ''_'' \<and> cs \<noteq> [] \<and> is_digit (hd cs) then int_digits acc cs
      else None)"

definition int_literal :: "string \<Rightarrow> nat res" where
  "int_literal s =
     (if s \<noteq> [] \<and> is_digit (hd s)
      then (case int_digits 0 s of None \<Rightarrow> Inl ValueError | Some n \<Rightarrow> Inr n)
      else Inl ValueError)"

definition py_int :: "string \<Rightarrow> int res" where
  "py_int s =
     (case py_strip s of
        [] \<Rightarrow> Inl ValueError
      | c # cs \<Rightarrow>
          if c = CHR ''-'' then res_bind (int_literal cs) (\<lambda>n. Inr (- int n))
          else if c = CHR ''+'' then res_bind (int_literal cs) (\<lambda>n. Inr (int n))
          else res_bind (int_literal (c # cs)) (\<lambda>n. Inr (int n)))"

lemma of_char_digit: "n < 10 \<Longrightarrow> of_char (digit_char n) = (48 + n :: nat)"
  by (simp add: digit_char_def)

lemma is_digit_digit_char [simp]: "n < 10 \<Longrightarrow> is_digit (digit_char n)"
  by (simp add: is_digit_def of_char_digit)

lemma digit_val_digit_char [simp]: "n < 10 \<Longrightarrow> digit_val (digit_char n) = n"
  by (simp add: digit_val_def of_char_digit)

lemma nat_str_digits: "c \<in> set (nat_str n) \<Longrightarrow> is_digit c"
proof (induction n rule: nat_str.induct)
  case (1 n)
  show ?case
  proof (cases "n < 10")
    case True
    with "1.prems" show ?thesis by (simp add: nat_str.simps [of n])
  next
    case False
    with 1 show ?thesis by (auto simp: nat_str.simps [of n])
  qed
qed

lemma nat_str_nonempty [simp]: "nat_str n \<noteq> []"
  by (subst nat_str.simps) simp

lemma int_digits_append:
  "\<forall>c \<in> set xs. is_digit c \<Longrightarrow>
   int_digits acc (xs @ ys) = (case int_digits acc xs of None \<Rightarrow> None | Some n \<Rightarrow> int_digits n ys)"
  by (induction xs arbitrary: acc) auto

lemma int_digits_nat_str: "int_digits 0 (nat_str n) = Some n"
proof (induction n rule: nat_str.induct)
  case (1 n)
  show ?case
  proof (cases "n < 10")
    case True
    then show ?thesis by (simp add: nat_str.simps [of n])
  next
    case False
    then have "int_digits 0 (nat_str (n div 10)) = Some (n div 10)" using 1 by simp
    with False show ?thesis
      by (simp add: nat_str.simps [of n] int_digits_append nat_str_digits)
  qed
qed

lemma is_digit_not_blank: "is_digit c \<Longrightarrow> \<not> is_blank c"
  by (auto simp: is_digit_def is_blank_def)

lemma is_digit_cases: "is_digit c \<Longrightarrow> c \<noteq> CHR ''-'' \<and> c \<noteq> CHR ''+'' \<and> c \<noteq> CHR '':'' \<and> c \<noteq> CHR ''.''"
  by (auto simp: is_digit_def)

lemma int_literal_nat_str: "int_literal (nat_str n) = Inr n"
  using nat_str_digits [OF hd_in_set [OF nat_str_nonempty]]
  by (simp add: int_literal_def int_digits_nat_str)

lemma py_strip_no_blank: "\<forall>c \<in> set s. \<not> is_blank c \<Longrightarrow> py_strip s = s"
proof -
  have d: "dropWhile is_blank xs = xs" if "\<forall>c \<in> set xs. \<not> is_blank c" for xs
    using that by (cases xs) auto
  assume "\<forall>c \<in> set s. \<not> is_blank c"
  then show ?thesis by (simp add: py_strip_def d)
qed

lemma py_str_int_no_blank: "c \<in> set (py_str_int i) \<Longrightarrow> \<not> is_blank c"
  by (auto simp: py_str_int_def is_blank_def dest!: nat_str_digits is_digit_not_blank split: if_splits)

lemma py_str_int_no_colon: "CHR '':'' \<notin> set (py_str_int i)"
  by (auto simp: py_str_int_def dest!: nat_str_digits is_digit_cases)

lemma py_int_str [text_simps]: "py_int (py_str_int i) = Inr i"
proof (cases "i < 0")
  case True
  then show ?thesis
    by (simp add: py_int_def py_strip_no_blank py_str_int_no_blank)
       (simp add: py_str_int_def int_literal_nat_str)
next
  case False
  obtain c cs where s: "nat_str (nat i) = c # cs" by (cases "nat_str (nat i)") auto
  then have "is_digit c" by (metis list.set_intros(1) nat_str_digits)
  then have "c \<noteq> CHR ''-''" "c \<noteq> CHR ''+''" using is_digit_cases by auto
  moreover have "py_str_int i = c # cs" using False s by (simp add: py_str_int_def)
  moreover have "int_literal (c # cs) = Inr (nat i)" using s int_literal_nat_str by metis
  moreover have "py_strip (py_str_int i) = py_str_int i"
    by (simp add: py_strip_no_blank py_str_int_no_blank)
  ultimately show ?thesis
    using False by (simp add: py_int_def)
qed

lemma py_str_int_inj [simp]: "py_str_int i = py_str_int j \<longleftrightarrow> i = j"
  by (metis py_int_str sum.inject(2))

section \<open>Splitting and slicing\<close>

text \<open>\<open>s.rsplit(sep, 1)\<close>: one split at the last separator, or the whole string alone.\<close>

definition rsplit1 :: "char \<Rightarrow> string \<Rightarrow> string list" where
  "rsplit1 sep s =
     (if sep \<in> set s
      then (let after = takeWhile (\<lambda>c. c \<noteq> sep) (rev s)
            in [rev (drop (Suc (length after)) (rev s)), rev after])
      else [s])"

lemma rsplit1_split [text_simps]: "sep \<notin> set b \<Longrightarrow> rsplit1 sep (a @ sep # b) = [a, b]"
proof -
  assume b: "sep \<notin> set b"
  have "takeWhile (\<lambda>c. c \<noteq> sep) (rev b @ sep # rev a) = rev b"
    using b by (subst takeWhile_append2) (auto simp: takeWhile_tail)
  then show ?thesis by (simp add: rsplit1_def)
qed

lemma rsplit1_none: "sep \<notin> set s \<Longrightarrow> rsplit1 sep s = [s]"
  by (simp add: rsplit1_def)

definition rstrip_char :: "char \<Rightarrow> string \<Rightarrow> string" where
  "rstrip_char c s = rev (dropWhile (\<lambda>x. x = c) (rev s))"

lemma rstrip_char_last: "rstrip_char c s = [] \<or> last (rstrip_char c s) \<noteq> c"
  using hd_dropWhile [of "\<lambda>x. x = c" "rev s"]
  by (auto simp: rstrip_char_def last_rev dropWhile_eq_Nil_conv)

lemma rstrip_char_decomp: "\<exists>k. s = rstrip_char c s @ replicate k c"
proof -
  have "takeWhile (\<lambda>x. x = c) (rev s) = replicate (length (takeWhile (\<lambda>x. x = c) (rev s))) c"
    by (rule replicate_eqI) (auto dest: set_takeWhileD)
  then have "rev s = replicate (length (takeWhile (\<lambda>x. x = c) (rev s))) c @ dropWhile (\<lambda>x. x = c) (rev s)"
    by (metis takeWhile_dropWhile_id)
  then have "s = rstrip_char c s @ replicate (length (takeWhile (\<lambda>x. x = c) (rev s))) c"
    unfolding rstrip_char_def by (metis rev_append rev_replicate rev_rev_ident)
  then show ?thesis by blast
qed

text \<open>\<open>xs[:n]\<close>: a negative bound counts from the end.\<close>

definition py_take :: "int \<Rightarrow> 'a list \<Rightarrow> 'a list" where
  "py_take n xs = (if 0 \<le> n then take (nat n) xs else take (length xs - nat (- n)) xs)"

lemma py_take_prefix: "prefix (py_take n xs) xs"
  by (simp add: py_take_def take_is_prefix)

lemma py_take_of_nat [simp]: "py_take (int k) xs = take k xs"
  by (simp add: py_take_def)

section \<open>Big-endian byte strings\<close>

type_synonym byte = "8 word"

fun be_bytes :: "nat \<Rightarrow> nat \<Rightarrow> byte list" where
  "be_bytes 0 n = []"
| "be_bytes (Suc k) n = be_bytes k (n div 256) @ [word_of_nat (n mod 256)]"

definition to_bytes_big :: "nat \<Rightarrow> nat \<Rightarrow> byte list res" where
  "to_bytes_big k n = (if n < 256 ^ k then Inr (be_bytes k n) else Inl OverflowError)"

definition from_bytes_big :: "byte list \<Rightarrow> nat" where
  "from_bytes_big bs = foldl (\<lambda>a b. a * 256 + unat b) 0 bs"

lemma length_be_bytes [simp]: "length (be_bytes k n) = k"
  by (induction k n rule: be_bytes.induct) auto

lemma from_bytes_big_Nil [simp]: "from_bytes_big [] = 0"
  by (simp add: from_bytes_big_def)

lemma from_bytes_big_snoc [simp]: "from_bytes_big (bs @ [b]) = from_bytes_big bs * 256 + unat b"
  by (simp add: from_bytes_big_def)

lemma from_be_bytes [text_simps]: "n < 256 ^ k \<Longrightarrow> from_bytes_big (be_bytes k n) = n"
proof (induction k n rule: be_bytes.induct)
  case (2 k n)
  then have "n div 256 < 256 ^ k" by (simp add: div_less_iff_less_mult)
  with 2 show ?case by (simp add: unat_of_nat)
qed simp

lemma from_bytes_big_bound: "from_bytes_big bs < 256 ^ length bs"
proof (induction bs rule: rev_induct)
  case (snoc b bs)
  have "unat b < 256" using unsigned_less [of b] by simp
  with snoc show ?case by simp
qed simp

lemma be_from_bytes: "be_bytes (length bs) (from_bytes_big bs) = bs"
proof (induction bs rule: rev_induct)
  case (snoc b bs)
  have "unat b < 256" using unsigned_less [of b] by simp
  with snoc show ?case by simp
qed simp

end
