(* ===== verification/Dls_Types.thy ===== *)
theory Dls_Types
  imports Py_Text "HOL-Library.List_Lexorder" "HOL-Library.Char_ord"
begin

text \<open>
  \<open>dlstorage/types.py\<close>: the message types, the identity of a node and the message that
  travels on the wire, with their dictionary and address forms.
\<close>

section \<open>MessageType\<close>

datatype MessageType = PING | PONG | PEER_LIST | PEER_ANNOUNCE | PEER_LEAVE
  | GET | SET | DELETE | OK | NOT_FOUND | ERROR

fun mt_value :: "MessageType \<Rightarrow> string" where
  "mt_value PING = ''ping''"
| "mt_value PONG = ''pong''"
| "mt_value PEER_LIST = ''peer_list''"
| "mt_value PEER_ANNOUNCE = ''peer_announce''"
| "mt_value PEER_LEAVE = ''peer_leave''"
| "mt_value GET = ''get''"
| "mt_value SET = ''set''"
| "mt_value DELETE = ''delete''"
| "mt_value OK = ''ok''"
| "mt_value NOT_FOUND = ''not_found''"
| "mt_value ERROR = ''error''"

definition all_message_types :: "MessageType list" where
  "all_message_types = [PING, PONG, PEER_LIST, PEER_ANNOUNCE, PEER_LEAVE,
     GET, SET, DELETE, OK, NOT_FOUND, ERROR]"

text \<open>\<open>MessageType(x)\<close>: the member whose value equals \<open>x\<close>, else \<open>ValueError\<close>.\<close>

definition mt_of_value :: "pyval \<Rightarrow> MessageType res" where
  "mt_of_value x =
     (case filter (\<lambda>t. PStr (mt_value t) = x) all_message_types of
        [] \<Rightarrow> Inl ValueError
      | t # _ \<Rightarrow> Inr t)"

definition is_gossip :: "MessageType \<Rightarrow> bool" where
  "is_gossip t \<longleftrightarrow> t \<in> {PING, PONG, PEER_LIST, PEER_ANNOUNCE, PEER_LEAVE}"

lemma mt_of_value_value [text_simps]: "mt_of_value (PStr (mt_value t)) = Inr t"
  by (cases t) (simp_all add: mt_of_value_def all_message_types_def)

lemma mt_of_value_Inr_iff: "mt_of_value x = Inr t \<longleftrightarrow> x = PStr (mt_value t)"
proof
  assume "mt_of_value x = Inr t"
  then obtain ts where "filter (\<lambda>t. PStr (mt_value t) = x) all_message_types = t # ts"
    by (auto simp: mt_of_value_def split: list.splits)
  then have "t \<in> set (filter (\<lambda>t. PStr (mt_value t) = x) all_message_types)" by simp
  then show "x = PStr (mt_value t)" by simp
qed (simp add: mt_of_value_value)

section \<open>NodeInfo\<close>

record NodeInfo =
  host :: string
  port :: int

definition node_address :: "NodeInfo \<Rightarrow> string" where
  "node_address n = host n @ '':'' @ py_str_int (port n)"

text \<open>\<open>__eq__\<close> compares addresses; \<open>__hash__\<close> hashes them.\<close>

definition node_eq :: "NodeInfo \<Rightarrow> NodeInfo \<Rightarrow> bool" where
  "node_eq a b \<longleftrightarrow> node_address a = node_address b"

definition node_to_dict :: "NodeInfo \<Rightarrow> pyval" where
  "node_to_dict n = PDict [(''host'', PStr (host n)), (''port'', PInt (port n))]"

text \<open>
  \<open>from_dict\<close> takes any values for host and port; a host that is not a string or a port that is not an integer
  leaves the model, whose \<open>NodeInfo\<close> has none such. The result \<open>OutsideModel\<close> marks the place; the code goes on with
  the ill-typed member.
\<close>

definition node_from_dict :: "pyval \<Rightarrow> NodeInfo res" where
  "node_from_dict d =
     res_bind (res_bind (py_getitem d ''host'') as_str) (\<lambda>h.
     res_bind (res_bind (py_getitem d ''port'') as_int) (\<lambda>p.
     Inr \<lparr>host = h, port = p\<rparr>))"

definition node_from_address :: "string \<Rightarrow> NodeInfo res" where
  "node_from_address address =
     (case rsplit1 (CHR '':'') address of
        [h, p] \<Rightarrow> res_bind (py_int p) (\<lambda>p. Inr \<lparr>host = h, port = p\<rparr>)
      | _ \<Rightarrow> Inl ValueError)"

lemma node_from_address_address [text_simps]: "node_from_address (node_address n) = Inr n"
  by (simp add: node_from_address_def node_address_def py_int_str
        rsplit1_split [OF py_str_int_no_colon])

lemma node_address_inj: "node_address a = node_address b \<longleftrightarrow> a = b"
  by (metis node_from_address_address sum.inject(2))

lemma node_eq_iff [simp]: "node_eq a b \<longleftrightarrow> a = b"
  by (simp add: node_eq_def node_address_inj)

lemma node_from_dict_to_dict [text_simps]: "node_from_dict (node_to_dict n) = Inr n"
  by (simp add: node_from_dict_def node_to_dict_def)

lemma node_from_address_no_colon: "CHR '':'' \<notin> set s \<Longrightarrow> node_from_address s = Inl ValueError"
  by (simp add: node_from_address_def rsplit1_none)

text \<open>Nodes are ordered by address: a canonical order for printing a set of members.\<close>

instantiation NodeInfo_ext :: (linorder) linorder
begin

definition less_eq_NodeInfo_ext :: "'a NodeInfo_scheme \<Rightarrow> 'a NodeInfo_scheme \<Rightarrow> bool" where
  "less_eq_NodeInfo_ext x y \<longleftrightarrow>
     node_address (NodeInfo.truncate x) < node_address (NodeInfo.truncate y)
     \<or> node_address (NodeInfo.truncate x) = node_address (NodeInfo.truncate y)
       \<and> NodeInfo.more x \<le> NodeInfo.more y"

definition less_NodeInfo_ext :: "'a NodeInfo_scheme \<Rightarrow> 'a NodeInfo_scheme \<Rightarrow> bool" where
  "less_NodeInfo_ext x y \<longleftrightarrow> x \<le> y \<and> \<not> y \<le> x"

instance
proof
  fix x y z :: "'a NodeInfo_scheme"
  show "x < y \<longleftrightarrow> x \<le> y \<and> \<not> y \<le> x" by (rule less_NodeInfo_ext_def)
  show "x \<le> x" by (simp add: less_eq_NodeInfo_ext_def)
  show "x \<le> z" if "x \<le> y" "y \<le> z"
    using that by (auto simp: less_eq_NodeInfo_ext_def)
  show "x = y" if "x \<le> y" "y \<le> x"
    using that
    by (cases x; cases y) (auto simp: less_eq_NodeInfo_ext_def node_address_inj NodeInfo.truncate_def)
  show "x \<le> y \<or> y \<le> x"
    by (auto simp: less_eq_NodeInfo_ext_def)
qed

end

section \<open>Message\<close>

record Message =
  mtype :: MessageType
  payload :: pyval

definition message_to_dict :: "Message \<Rightarrow> pyval" where
  "message_to_dict m = PDict [(''type'', PStr (mt_value (mtype m))), (''payload'', payload m)]"

definition message_from_dict :: "pyval \<Rightarrow> Message res" where
  "message_from_dict d =
     res_bind (res_bind (py_getitem d ''type'') mt_of_value) (\<lambda>t.
     res_bind (py_dict_get d ''payload'' PNone) (\<lambda>p.
     Inr \<lparr>mtype = t, payload = p\<rparr>))"

abbreviation message :: "MessageType \<Rightarrow> pyval \<Rightarrow> Message" where
  "message t p \<equiv> \<lparr>mtype = t, payload = p\<rparr>"

text \<open>
  An address printed by \<open>NodeInfo.address\<close> parses back to the same node with
  \<open>NodeInfo.from_address\<close>, whatever the host text is (IPv6 hosts with colons included, since
  the split is at the last colon), two nodes are equal in the code's sense exactly when their
  hosts and ports agree, and the dictionary form that travels in gossip payloads round-trips too.
\<close>

theorem node_info_roundtrip:
  "node_from_address (node_address n) = Inr n
   \<and> node_from_dict (node_to_dict n) = Inr n
   \<and> (node_eq n m \<longleftrightarrow> host n = host m \<and> port n = port m)"
  by (cases n; cases m) (simp add: node_from_address_address node_from_dict_to_dict)

text \<open>
  \<open>Message.from_dict\<close> inverts \<open>Message.to_dict\<close> for every message, and a dictionary whose
  type field is not the value of one of the eleven message types is rejected with
  \<open>ValueError\<close>; a dictionary without a type field raises \<open>KeyError\<close>.
\<close>

theorem message_dict_roundtrip:
  "message_from_dict (message_to_dict m) = Inr m
   \<and> message_from_dict (PDict []) = Inl KeyError
   \<and> ((\<exists>t. x = PStr (mt_value t)) \<or> message_from_dict (PDict [(''type'', x)]) = Inl ValueError)"
proof -
  have "mt_of_value x = Inl ValueError" if "\<nexists>t. x = PStr (mt_value t)"
    using that by (simp add: mt_of_value_def filter_empty_conv eq_commute)
  then show ?thesis
    by (cases m; cases "\<exists>t. x = PStr (mt_value t)")
       (auto simp: message_from_dict_def message_to_dict_def mt_of_value_value)
qed

end
