(* ===== verification/Store_Interface.thy ===== *)
theory Store_Interface
  imports Dls_Types
begin

text \<open>
  \<open>dlstorage/store/interface.py\<close>: what the protocol \<open>Store\<close> promises its callers. The
  locale states the laws over a view, the keys and values a listing at time \<open>now\<close> shows;
  \<open>Local_Store\<close> and \<open>Lww_Store\<close> discharge them for the two stores of the package. The
  three tests on an expiry time are shared by both stores.
\<close>

section \<open>Expiry times\<close>

text \<open>
  \<open>time.monotonic() + ttl if ttl is not None else None\<close>; the test of the listings
  (\<open>exp is None or exp > now\<close>), of the reads (\<open>expires_at is not None and now > expires_at\<close>)
  and of the purge (\<open>exp is not None and exp <= now\<close>).
\<close>

definition expiry :: "rat \<Rightarrow> rat option \<Rightarrow> rat option" where
  "expiry now ttl = (case ttl of None \<Rightarrow> None | Some t \<Rightarrow> Some (now + t))"

definition listed :: "rat \<Rightarrow> rat option \<Rightarrow> bool" where
  "listed now e = (case e of None \<Rightarrow> True | Some x \<Rightarrow> x > now)"

definition overdue :: "rat \<Rightarrow> rat option \<Rightarrow> bool" where
  "overdue now e = (case e of None \<Rightarrow> False | Some x \<Rightarrow> now > x)"

definition purgeable :: "rat \<Rightarrow> rat option \<Rightarrow> bool" where
  "purgeable now e = (case e of None \<Rightarrow> False | Some x \<Rightarrow> x \<le> now)"

lemma purgeable_iff: "purgeable now e \<longleftrightarrow> \<not> listed now e"
  by (auto simp: purgeable_def listed_def split: option.splits)

lemma listed_not_overdue: "listed now e \<Longrightarrow> \<not> overdue now e"
  by (auto simp: overdue_def listed_def split: option.splits)

lemma overdue_mono: "overdue now e \<Longrightarrow> now \<le> now' \<Longrightarrow> overdue now' e"
  by (auto simp: overdue_def split: option.splits)

lemma listed_antimono: "listed now' e \<Longrightarrow> now \<le> now' \<Longrightarrow> listed now e"
  by (auto simp: listed_def split: option.splits)

lemma overdue_iff: "overdue now e \<longleftrightarrow> \<not> listed now e \<and> e \<noteq> Some now"
  by (auto simp: overdue_def listed_def split: option.splits)

lemma expiry_None [simp]: "expiry now None = None"
  by (simp add: expiry_def)

lemma listed_None [simp]: "listed now None"
  by (simp add: listed_def)

lemma overdue_None [simp]: "\<not> overdue now None"
  by (simp add: overdue_def)

section \<open>The contract of Store\<close>

locale kv_store =
  fixes invar :: "'s \<Rightarrow> bool"
    and view :: "rat \<Rightarrow> 's \<Rightarrow> string \<Rightarrow> pyval option"
    and getf :: "rat \<Rightarrow> string \<Rightarrow> 's \<Rightarrow> pyval \<times> 's"
    and setf :: "rat \<Rightarrow> int \<Rightarrow> string \<Rightarrow> pyval \<Rightarrow> rat option \<Rightarrow> int option \<Rightarrow> 's \<Rightarrow> bool \<times> 's"
    and delf :: "int \<Rightarrow> string \<Rightarrow> int option \<Rightarrow> 's \<Rightarrow> bool \<times> 's"
    and keysf :: "rat \<Rightarrow> 's \<Rightarrow> string list"
    and scanf :: "rat \<Rightarrow> string \<Rightarrow> 's \<Rightarrow> (string \<times> pyval) list"
    and scan_keysf :: "rat \<Rightarrow> string \<Rightarrow> 's \<Rightarrow> string list"
    and flush_allf :: "'s \<Rightarrow> 's"
    and flush_keysf :: "string \<Rightarrow> 's \<Rightarrow> (nat \<times> 's) res"
    and purgef :: "rat \<Rightarrow> 's \<Rightarrow> (nat \<times> 's) res"
  assumes get_view: "invar s \<Longrightarrow> view now s k = Some v \<Longrightarrow> fst (getf now k s) = v"
    and get_frame: "invar s \<Longrightarrow> now \<le> now' \<Longrightarrow> view now' (snd (getf now k s)) k' = view now' s k'"
    and get_invar: "invar s \<Longrightarrow> invar (snd (getf now k s))"
    and set_view: "invar s \<Longrightarrow> setf now wall k v ttl kw s = (True, s') \<Longrightarrow>
      view now' s' k' = (if k' = k then if listed now' (expiry now ttl) then Some v else None
                         else view now' s k')"
    and set_rejected: "setf now wall k v ttl kw s = (False, s') \<Longrightarrow> s' = s"
    and set_invar: "invar s \<Longrightarrow> invar (snd (setf now wall k v ttl kw s))"
    and del_frame: "invar s \<Longrightarrow> k' \<noteq> k \<Longrightarrow> view now (snd (delf wall k kw s)) k' = view now s k'"
    and del_view: "invar s \<Longrightarrow> view now (snd (delf wall k kw s)) k \<in> {None, view now s k}"
    and del_invar: "invar s \<Longrightarrow> invar (snd (delf wall k kw s))"
    and keys_view: "invar s \<Longrightarrow> set (keysf now s) = {k. view now s k \<noteq> None}"
    and keys_distinct: "invar s \<Longrightarrow> distinct (keysf now s)"
    and scan_view: "invar s \<Longrightarrow> set (scanf now p s) = {(k, v). view now s k = Some v \<and> sublist p k}"
    and scan_keys_scan: "map fst (scanf now p s) = scan_keysf now p s"
    and scan_keys_keys: "scan_keysf now p s = filter (sublist p) (keysf now s)"
    and flush_all_view: "view now (flush_allf s) k = None"
    and flush_all_invar: "invar (flush_allf s)"
    and flush_keys_ok: "invar s \<Longrightarrow> \<exists>n s'. flush_keysf p s = Inr (n, s')"
    and flush_keys_view: "invar s \<Longrightarrow> flush_keysf p s = Inr (n, s') \<Longrightarrow>
      view now s' k = (if sublist p k then None else view now s k)"
    and flush_keys_invar: "invar s \<Longrightarrow> flush_keysf p s = Inr (n, s') \<Longrightarrow> invar s'"
    and purge_ok: "invar s \<Longrightarrow> \<exists>n s'. purgef now s = Inr (n, s')"
    and purge_view: "invar s \<Longrightarrow> purgef now s = Inr (n, s') \<Longrightarrow> now \<le> now' \<Longrightarrow>
      view now' s' k = view now' s k"
    and purge_invar: "invar s \<Longrightarrow> purgef now s = Inr (n, s') \<Longrightarrow> invar s'"
begin

lemma len_card: "invar s \<Longrightarrow> length (keysf now s) = card {k. view now s k \<noteq> None}"
  by (metis keys_distinct keys_view distinct_card)

lemma scan_all_keys: "map fst (scanf now [] s) = keysf now s"
  by (simp add: scan_keys_scan scan_keys_keys)

lemma set_then_get:
  assumes "invar s" and "setf now wall k v ttl kw s = (True, s')" and "listed now' (expiry now ttl)"
  shows "fst (getf now' k s') = v \<and> k \<in> set (keysf now' s')"
proof -
  have "invar s'" using set_invar [OF assms(1), of now wall k v ttl kw] assms(2) by simp
  moreover have "view now' s' k = Some v" using set_view [OF assms(1,2)] assms(3) by simp
  ultimately show ?thesis by (simp add: get_view keys_view)
qed

lemma set_keys_frame:
  assumes "invar s" and "setf now wall k v ttl kw s = (b, s')" and "k' \<noteq> k"
  shows "k' \<in> set (keysf now' s') \<longleftrightarrow> k' \<in> set (keysf now' s)"
proof (cases b)
  case True
  moreover have "invar s'" using set_invar [OF assms(1), of now wall k v ttl kw] assms(2) by simp
  ultimately show ?thesis
    using assms set_view [OF assms(1), of now wall k v ttl kw s' now' k'] by (simp add: keys_view)
next
  case False
  then show ?thesis using set_rejected assms(2) by metis
qed

lemma flush_keys_scan:
  assumes "invar s" and "flush_keysf p s = Inr (n, s')"
  shows "scan_keysf now p s' = [] \<and> set (keysf now s') = {k \<in> set (keysf now s). \<not> sublist p k}"
proof -
  have "invar s'" using assms by (rule flush_keys_invar)
  then have "set (keysf now s') = {k \<in> set (keysf now s). \<not> sublist p k}"
    using assms by (auto simp: keys_view flush_keys_view split: if_splits)
  then show ?thesis by (simp add: scan_keys_keys filter_empty_conv)
qed

lemma purge_scan:
  assumes "invar s" and "purgef now s = Inr (n, s')" and "now \<le> now'"
  shows "set (scanf now' p s') = set (scanf now' p s)"
  using assms purge_invar [OF assms(1,2)] by (simp add: scan_view purge_view)

end

section \<open>The contract of VersionedStore\<close>

text \<open>What \<open>get_versioned\<close> returns: \<open>(value, ts_ns, is_tombstone)\<close>.\<close>

type_synonym versioned = "pyval \<times> int \<times> bool"

text \<open>
  A write without a timestamp takes the wall clock's.
  \<open>version now s k\<close> is what a read of \<open>k\<close> at \<open>now\<close> answers, \<open>stamp s k\<close> the timestamp
  the store holds for \<open>k\<close>; a write or delete carrying timestamp \<open>ts\<close> takes effect exactly
  when no newer timestamp is stored.
\<close>

definition write_ts :: "int \<Rightarrow> int option \<Rightarrow> int" where
  "write_ts wall kw = (case kw of None \<Rightarrow> wall | Some t \<Rightarrow> t)"

lemma write_ts_Some [simp]: "write_ts wall (Some t) = t"
  by (simp add: write_ts_def)

definition supersedes :: "int option \<Rightarrow> int \<Rightarrow> bool" where
  "supersedes stored ts = (case stored of None \<Rightarrow> True | Some old \<Rightarrow> old \<le> ts)"

locale versioned_store =
  kv_store invar view getf setf delf keysf scanf scan_keysf flush_allf flush_keysf purgef
  for invar :: "'s \<Rightarrow> bool"
    and view :: "rat \<Rightarrow> 's \<Rightarrow> string \<Rightarrow> pyval option"
    and getf :: "rat \<Rightarrow> string \<Rightarrow> 's \<Rightarrow> pyval \<times> 's"
    and setf :: "rat \<Rightarrow> int \<Rightarrow> string \<Rightarrow> pyval \<Rightarrow> rat option \<Rightarrow> int option \<Rightarrow> 's \<Rightarrow> bool \<times> 's"
    and delf :: "int \<Rightarrow> string \<Rightarrow> int option \<Rightarrow> 's \<Rightarrow> bool \<times> 's"
    and keysf :: "rat \<Rightarrow> 's \<Rightarrow> string list"
    and scanf :: "rat \<Rightarrow> string \<Rightarrow> 's \<Rightarrow> (string \<times> pyval) list"
    and scan_keysf :: "rat \<Rightarrow> string \<Rightarrow> 's \<Rightarrow> string list"
    and flush_allf :: "'s \<Rightarrow> 's"
    and flush_keysf :: "string \<Rightarrow> 's \<Rightarrow> (nat \<times> 's) res"
    and purgef :: "rat \<Rightarrow> 's \<Rightarrow> (nat \<times> 's) res" +
  fixes version :: "rat \<Rightarrow> 's \<Rightarrow> string \<Rightarrow> versioned option"
    and stamp :: "'s \<Rightarrow> string \<Rightarrow> int option"
    and getv :: "rat \<Rightarrow> string \<Rightarrow> 's \<Rightarrow> versioned option \<times> 's"
  assumes getv_version: "fst (getv now k s) = version now s k"
    and getv_frame: "now \<le> now' \<Longrightarrow> version now' (snd (getv now k s)) k' = version now' s k'"
    and getv_stamp: "stamp (snd (getv now k s)) k' \<in> {None, stamp s k'}"
    and getv_invar: "invar s \<Longrightarrow> invar (snd (getv now k s))"
    and get_version: "fst (getf now k s) =
      (case version now s k of None \<Rightarrow> PNone | Some (v, _, d) \<Rightarrow> if d then PNone else v)"
    and set_accepts: "fst (setf now wall k v ttl kw s) \<longleftrightarrow> supersedes (stamp s k) (write_ts wall kw)"
    and set_version: "setf now wall k v ttl kw s = (True, s') \<Longrightarrow> version now' s' k' =
      (if k' = k then if overdue now' (expiry now ttl) then None else Some (v, write_ts wall kw, False)
       else version now' s k')"
    and del_version: "version now (snd (delf wall k kw s)) k' =
      (if k' = k \<and> supersedes (stamp s k) (write_ts wall kw) then Some (PNone, write_ts wall kw, True) else version now s k')"
    and del_lived: "version now s k = Some (v, t, d) \<Longrightarrow> fst (delf wall k kw s) = (\<not> d)"
    and version_stamp: "version now s k = Some (v, t, d) \<Longrightarrow> stamp s k = Some t"
    and version_tombstone: "version now s k = Some (v, t, True) \<Longrightarrow> v = PNone"
begin

lemma set_version_cases:
  "version now' (snd (setf now wall k v ttl kw s)) k' =
     (if k' = k \<and> supersedes (stamp s k) (write_ts wall kw)
      then if overdue now' (expiry now ttl) then None else Some (v, write_ts wall kw, False)
      else version now' s k')"
proof (cases "fst (setf now wall k v ttl kw s)")
  case True
  then have "setf now wall k v ttl kw s = (True, snd (setf now wall k v ttl kw s))"
    by (metis prod.collapse)
  from set_version [OF this, of now' k'] show ?thesis using True set_accepts by auto
next
  case False
  then have "setf now wall k v ttl kw s = (False, snd (setf now wall k v ttl kw s))"
    by (metis prod.collapse)
  from set_rejected [OF this] show ?thesis using False set_accepts by simp
qed

end

end
