(* ===== verification/Local_Store.thy ===== *)
theory Local_Store
  imports Store_Interface
begin

text \<open>
  \<open>dlstorage/store/basic.py\<close>: \<open>LocalStore\<close>, a dictionary from keys to pairs of a value and
  an expiry time. Every method runs under the store's lock, so a method is one atomic function of
  the state; the readings of the monotonic clock are arguments.
\<close>

record LocalStore =
  ls_data :: "(pyval \<times> rat option) pydict"

definition ls_init :: LocalStore where
  "ls_init = \<lparr>ls_data = []\<rparr>"

definition ls_set :: "rat \<Rightarrow> string \<Rightarrow> pyval \<Rightarrow> rat option \<Rightarrow> LocalStore \<Rightarrow> bool \<times> LocalStore" where
  "ls_set now key v ttl s =
     (let expires_at = expiry now ttl
      in (True, s\<lparr>ls_data := AList.update key (v, expires_at) (ls_data s)\<rparr>))"

definition ls_get :: "rat \<Rightarrow> string \<Rightarrow> LocalStore \<Rightarrow> pyval \<times> LocalStore" where
  "ls_get now key s =
     (case map_of (ls_data s) key of
        None \<Rightarrow> (PNone, s)
      | Some (v, expires_at) \<Rightarrow>
          if overdue now expires_at
          then (PNone, s\<lparr>ls_data := AList.delete key (ls_data s)\<rparr>)
          else (v, s))"

definition ls_delete :: "string \<Rightarrow> LocalStore \<Rightarrow> bool \<times> LocalStore" where
  "ls_delete key s =
     (map_of (ls_data s) key \<noteq> None, s\<lparr>ls_data := AList.delete key (ls_data s)\<rparr>)"

definition ls_exists :: "rat \<Rightarrow> string \<Rightarrow> LocalStore \<Rightarrow> bool \<times> LocalStore" where
  "ls_exists now key s = (case ls_get now key s of (v, s') \<Rightarrow> (v \<noteq> PNone, s'))"

definition ls_keys :: "rat \<Rightarrow> LocalStore \<Rightarrow> string list" where
  "ls_keys now s = map fst (filter (\<lambda>(k, _, e). listed now e) (ls_data s))"

definition ls_scan :: "rat \<Rightarrow> string \<Rightarrow> LocalStore \<Rightarrow> (string \<times> pyval) list" where
  "ls_scan now pattern s =
     map (\<lambda>(k, v, _). (k, v)) (filter (\<lambda>(k, v, e). sublist pattern k \<and> listed now e) (ls_data s))"

definition ls_scan_keys :: "rat \<Rightarrow> string \<Rightarrow> LocalStore \<Rightarrow> string list" where
  "ls_scan_keys now pattern s =
     map fst (filter (\<lambda>(k, _, e). sublist pattern k \<and> listed now e) (ls_data s))"

definition ls_flush_all :: "LocalStore \<Rightarrow> LocalStore" where
  "ls_flush_all s = s\<lparr>ls_data := []\<rparr>"

definition ls_flush_keys :: "string \<Rightarrow> LocalStore \<Rightarrow> (nat \<times> LocalStore) res" where
  "ls_flush_keys pattern s =
     (let to_delete = map fst (filter (\<lambda>(k, _). sublist pattern k) (ls_data s))
      in res_bind (del_keys to_delete (ls_data s)) (\<lambda>d. Inr (length to_delete, s\<lparr>ls_data := d\<rparr>)))"

definition ls_clear :: "LocalStore \<Rightarrow> LocalStore" where
  "ls_clear s = s\<lparr>ls_data := []\<rparr>"

definition ls_purge_expired :: "rat \<Rightarrow> LocalStore \<Rightarrow> (nat \<times> LocalStore) res" where
  "ls_purge_expired now s =
     (let expired = map fst (filter (\<lambda>(k, _, e). purgeable now e) (ls_data s))
      in res_bind (del_keys expired (ls_data s)) (\<lambda>d. Inr (length expired, s\<lparr>ls_data := d\<rparr>)))"

definition ls_len :: "rat \<Rightarrow> LocalStore \<Rightarrow> nat" where
  "ls_len now s = length (ls_keys now s)"

section \<open>Well-formedness and the view\<close>

definition ls_wf :: "LocalStore \<Rightarrow> bool" where
  "ls_wf s \<longleftrightarrow> wf_dict (ls_data s)"

definition ls_view :: "rat \<Rightarrow> LocalStore \<Rightarrow> string \<Rightarrow> pyval option" where
  "ls_view now s k =
     (case map_of (ls_data s) k of
        None \<Rightarrow> None
      | Some (v, e) \<Rightarrow> if listed now e then Some v else None)"

lemmas ls_defs = ls_set_def ls_get_def ls_delete_def ls_flush_all_def ls_clear_def Let_def

lemma ls_flush_keys_eq:
  "ls_wf s \<Longrightarrow> ls_flush_keys p s =
     Inr (length (filter (\<lambda>(k, _). sublist p k) (ls_data s)),
          s\<lparr>ls_data := filter (\<lambda>e. \<not> (case e of (k, _) \<Rightarrow> sublist p k)) (ls_data s)\<rparr>)"
  by (simp add: ls_flush_keys_def ls_wf_def del_keys_doomed)

lemma ls_purge_eq:
  "ls_wf s \<Longrightarrow> ls_purge_expired now s =
     Inr (length (filter (\<lambda>(k, _, e). purgeable now e) (ls_data s)),
          s\<lparr>ls_data := filter (\<lambda>e. \<not> (case e of (k, _, x) \<Rightarrow> purgeable now x)) (ls_data s)\<rparr>)"
  by (simp add: ls_purge_expired_def ls_wf_def del_keys_doomed)

lemma ls_view_Some_iff:
  "ls_wf s \<Longrightarrow> ls_view now s k = Some v \<longleftrightarrow> (\<exists>e. (k, v, e) \<in> set (ls_data s) \<and> listed now e)"
  by (auto simp: ls_view_def ls_wf_def wf_dict_lookup split: option.splits)

lemma ls_keys_filter: "ls_scan_keys now p s = filter (sublist p) (ls_keys now s)"
  by (auto simp: ls_scan_keys_def ls_keys_def filter_map comp_def case_prod_beta
      intro!: arg_cong [where f = "map fst"] filter_cong)

lemma ls_keys_distinct: "ls_wf s \<Longrightarrow> distinct (ls_keys now s)"
  by (simp add: ls_keys_def ls_wf_def wf_dict_def distinct_map_filter)

lemma ls_keys_view: "ls_wf s \<Longrightarrow> k \<in> set (ls_keys now s) \<longleftrightarrow> ls_view now s k \<noteq> None"
  by (auto simp: ls_keys_def ls_view_Some_iff image_iff)

lemma ls_scan_view: "ls_wf s \<Longrightarrow> (k, v) \<in> set (ls_scan now p s) \<longleftrightarrow> ls_view now s k = Some v \<and> sublist p k"
  by (auto simp: ls_scan_def ls_view_Some_iff image_iff)

lemma ls_get_view: "ls_view now s k = Some v \<Longrightarrow> ls_get now k s = (v, s)"
  by (auto simp: ls_view_def ls_get_def listed_not_overdue split: option.splits if_splits)

lemma ls_get_frame: "now \<le> now' \<Longrightarrow> ls_view now' (snd (ls_get now k s)) k' = ls_view now' s k'"
  by (auto simp: ls_view_def ls_get_def dict_simps dest: overdue_mono listed_not_overdue
      split: option.splits)

lemma ls_set_view:
  "ls_view now' (snd (ls_set now k v ttl s)) k' =
     (if k' = k then if listed now' (expiry now ttl) then Some v else None else ls_view now' s k')"
  by (simp add: ls_view_def ls_set_def Let_def dict_simps)

lemma ls_delete_view: "ls_view now (snd (ls_delete k s)) k' = (if k' = k then None else ls_view now s k')"
  by (simp add: ls_view_def ls_delete_def dict_simps)

lemma ls_filter_view:
  "ls_wf s \<Longrightarrow> ls_view now (s\<lparr>ls_data := filter P (ls_data s)\<rparr>) k =
     (case map_of (ls_data s) k of None \<Rightarrow> None
      | Some (v, e) \<Rightarrow> if P (k, v, e) \<and> listed now e then Some v else None)"
  by (auto simp: ls_view_def ls_wf_def map_of_filter_dict split: option.splits)

lemma ls_wf_ops [wf_intros]:
  "ls_wf ls_init"
  "ls_wf s \<Longrightarrow> ls_wf (snd (ls_set now k v ttl s))"
  "ls_wf s \<Longrightarrow> ls_wf (snd (ls_get now k s))"
  "ls_wf s \<Longrightarrow> ls_wf (snd (ls_delete k s))"
  "ls_wf (ls_flush_all s)"
  "ls_wf s \<Longrightarrow> ls_wf (s\<lparr>ls_data := filter P (ls_data s)\<rparr>)"
  by (auto simp: ls_wf_def ls_init_def ls_defs split: option.splits)

text \<open>\<open>LocalStore.set\<close> takes and ignores further keyword arguments, a write timestamp among them.\<close>

interpretation ls: kv_store ls_wf ls_view ls_get "\<lambda>now wall k v ttl ts. ls_set now k v ttl"
  "\<lambda>wall k ts. ls_delete k" ls_keys ls_scan ls_scan_keys ls_flush_all ls_flush_keys ls_purge_expired
proof (unfold_locales, goal_cases)
  case (4 s now wall k v ttl ts s' now' k')
  then show ?case using ls_set_view [of now' now k v ttl s k'] by simp
next
  case (5 now wall k v ttl ts s s')
  then show ?case by (simp add: ls_set_def Let_def)
next
  case (13 now p s)
  show ?case by (simp add: ls_scan_def ls_scan_keys_def case_prod_beta comp_def)
next
  case (18 s p n s' now k)
  then show ?case
    by (clarsimp simp: ls_flush_keys_eq ls_filter_view) (simp add: ls_view_def split: option.splits)
next
  case (21 s now n s' now' k)
  then show ?case
    by (clarsimp simp: ls_purge_eq ls_filter_view)
       (auto simp: ls_view_def purgeable_iff dest: listed_antimono split: option.splits)
qed (auto simp: ls_get_view ls_get_frame ls_wf_ops ls_delete_view ls_keys_view ls_keys_distinct
    ls_scan_view ls_keys_filter ls_flush_keys_eq ls_purge_eq,
    simp_all add: ls_view_def ls_flush_all_def)

text \<open>
  The life of an entry of \<open>LocalStore\<close> written with a time-to-live: until its expiry time it is read
  and listed; at that very instant it is still read, though no listing shows it any more and a purge removes
  it; later it reads as \<open>None\<close>, the read drops it, and a purge without that read would have dropped it
  too. A write of one key changes nothing that is read or listed of another.
\<close>

theorem local_store_ttl:
  assumes "ls_wf s" and "s1 = snd (ls_set now k v (Some ttl) s)"
  shows "(now' < now + ttl \<longrightarrow> ls_get now' k s1 = (v, s1) \<and> k \<in> set (ls_keys now' s1))
    \<and> ls_get (now + ttl) k s1 = (v, s1) \<and> k \<notin> set (ls_keys (now + ttl) s1)
    \<and> (now + ttl \<le> now' \<longrightarrow> (\<exists>n s2. ls_purge_expired now' s1 = Inr (n, s2) \<and> map_of (ls_data s2) k = None))
    \<and> (now + ttl < now' \<longrightarrow> fst (ls_get now' k s1) = PNone \<and> map_of (ls_data (snd (ls_get now' k s1))) k = None)
    \<and> (k' \<noteq> k \<longrightarrow> fst (ls_get now' k' s1) = fst (ls_get now' k' s) \<and> (k' \<in> set (ls_keys now' s1) \<longleftrightarrow> k' \<in> set (ls_keys now' s)))"
proof -
  have wf: "ls_wf s1" using assms by (simp add: wf_intros)
  have entry: "map_of (ls_data s1) k = Some (v, Some (now + ttl))"
    using assms(2) by (simp add: ls_set_def Let_def dict_simps expiry_def)
  have others: "k' \<noteq> k \<Longrightarrow> map_of (ls_data s1) k' = map_of (ls_data s) k'"
    using assms(2) by (simp add: ls_set_def Let_def dict_simps)
  have purged: "\<exists>n s2. ls_purge_expired now' s1 = Inr (n, s2) \<and> map_of (ls_data s2) k = None"
    if "now + ttl \<le> now'"
    using wf entry that by (auto simp: ls_purge_eq map_of_filter_dict ls_wf_def purgeable_def)
  show ?thesis
    using entry others purged
    by (auto simp: ls_get_def overdue_def ls_keys_view [OF wf] ls_keys_view [OF assms(1)] ls_view_def
        listed_def dict_simps split: option.splits)
qed

lemma local_store_ttl_witness:
  "ls_get 2 ''a'' (snd (ls_set 0 ''a'' (PInt 7) (Some 2) ls_init)) =
     (PInt 7, snd (ls_set 0 ''a'' (PInt 7) (Some 2) ls_init))
   \<and> ''a'' \<notin> set (ls_keys 2 (snd (ls_set 0 ''a'' (PInt 7) (Some 2) ls_init)))"
  using local_store_ttl [OF ls_wf_ops(1) refl, where k = "''a''" and v = "PInt 7" and now = 0 and ttl = 2] by simp

end
