(* ===== verification/Lww_Store.thy ===== *)
theory Lww_Store
  imports Store_Interface
begin

text \<open>
  \<open>dlstorage/store/lww.py\<close>: \<open>LocalLWWStore\<close>, the store every node keeps. An entry is a value
  or a tombstone, an expiry time and the write timestamp. Readings of the monotonic clock
  (\<open>now\<close>) and of the wall clock (\<open>wall\<close>) are arguments; every method runs under the
  store's lock.
\<close>

section \<open>State and operations\<close>

text \<open>The sentinel object \<open>_TOMBSTONE\<close> is a constructor of its own: no user value equals it.\<close>

datatype slot = Tombstone | Value pyval

type_synonym lww_entry = "slot \<times> rat option \<times> int"

record LocalLWWStore =
  lww_data :: "lww_entry pydict"

definition lww_init :: LocalLWWStore where
  "lww_init = \<lparr>lww_data = []\<rparr>"

definition lww_set :: "rat \<Rightarrow> int \<Rightarrow> string \<Rightarrow> pyval \<Rightarrow> rat option \<Rightarrow> int option \<Rightarrow> LocalLWWStore
    \<Rightarrow> bool \<times> LocalLWWStore" where
  "lww_set now wall key v ttl ts_kw s =
     (let ts = write_ts wall ts_kw;
          expires_at = expiry now ttl;
          stored = s\<lparr>lww_data := AList.update key (Value v, expires_at, ts) (lww_data s)\<rparr>
      in case map_of (lww_data s) key of
           None \<Rightarrow> (True, stored)
         | Some (_, _, old) \<Rightarrow> if old > ts then (False, s) else (True, stored))"

definition lww_get_versioned :: "rat \<Rightarrow> string \<Rightarrow> LocalLWWStore \<Rightarrow> versioned option \<times> LocalLWWStore" where
  "lww_get_versioned now key s =
     (case map_of (lww_data s) key of
        None \<Rightarrow> (None, s)
      | Some (Tombstone, _, ts) \<Rightarrow> (Some (PNone, ts, True), s)
      | Some (Value v, expires_at, ts) \<Rightarrow>
          if overdue now expires_at
          then (None, s\<lparr>lww_data := AList.delete key (lww_data s)\<rparr>)
          else (Some (v, ts, False), s))"

definition lww_get :: "rat \<Rightarrow> string \<Rightarrow> LocalLWWStore \<Rightarrow> pyval \<times> LocalLWWStore" where
  "lww_get now key s =
     (case lww_get_versioned now key s of
        (None, s') \<Rightarrow> (PNone, s')
      | (Some (v, _, is_tombstone), s') \<Rightarrow> (if is_tombstone then PNone else v, s'))"

definition lww_delete :: "int \<Rightarrow> string \<Rightarrow> int option \<Rightarrow> LocalLWWStore \<Rightarrow> bool \<times> LocalLWWStore" where
  "lww_delete wall key ts_kw s =
     (let ts = write_ts wall ts_kw;
          existing = map_of (lww_data s) key;
          lived = (case existing of None \<Rightarrow> False | Some (c, _, _) \<Rightarrow> c \<noteq> Tombstone);
          supersedes = (case existing of None \<Rightarrow> True | Some (_, _, old) \<Rightarrow> old \<le> ts)
      in (lived,
          if supersedes then s\<lparr>lww_data := AList.update key (Tombstone, None, ts) (lww_data s)\<rparr>
          else s))"

definition lww_exists :: "rat \<Rightarrow> string \<Rightarrow> LocalLWWStore \<Rightarrow> bool \<times> LocalLWWStore" where
  "lww_exists now key s = (case lww_get now key s of (v, s') \<Rightarrow> (v \<noteq> PNone, s'))"

definition lww_keys :: "rat \<Rightarrow> LocalLWWStore \<Rightarrow> string list" where
  "lww_keys now s = map fst (filter (\<lambda>(k, c, e, _). c \<noteq> Tombstone \<and> listed now e) (lww_data s))"

fun slot_value :: "slot \<Rightarrow> pyval" where
  "slot_value (Value v) = v"
| "slot_value Tombstone = PNone"

definition lww_scan :: "rat \<Rightarrow> string \<Rightarrow> LocalLWWStore \<Rightarrow> (string \<times> pyval) list" where
  "lww_scan now pattern s =
     map (\<lambda>(k, c, _). (k, slot_value c))
       (filter (\<lambda>(k, c, e, _). c \<noteq> Tombstone \<and> sublist pattern k \<and> listed now e) (lww_data s))"

definition lww_scan_keys :: "rat \<Rightarrow> string \<Rightarrow> LocalLWWStore \<Rightarrow> string list" where
  "lww_scan_keys now pattern s =
     map fst (filter (\<lambda>(k, c, e, _). c \<noteq> Tombstone \<and> sublist pattern k \<and> listed now e) (lww_data s))"

definition lww_flush_all :: "LocalLWWStore \<Rightarrow> LocalLWWStore" where
  "lww_flush_all s = s\<lparr>lww_data := []\<rparr>"

definition lww_flush_keys :: "string \<Rightarrow> LocalLWWStore \<Rightarrow> (nat \<times> LocalLWWStore) res" where
  "lww_flush_keys pattern s =
     (let to_delete = map fst (filter (\<lambda>(k, _). sublist pattern k) (lww_data s))
      in res_bind (del_keys to_delete (lww_data s)) (\<lambda>d. Inr (length to_delete, s\<lparr>lww_data := d\<rparr>)))"

definition lww_clear :: "LocalLWWStore \<Rightarrow> LocalLWWStore" where
  "lww_clear s = s\<lparr>lww_data := []\<rparr>"

definition lww_purge_expired :: "rat \<Rightarrow> LocalLWWStore \<Rightarrow> (nat \<times> LocalLWWStore) res" where
  "lww_purge_expired now s =
     (let expired = map fst (filter (\<lambda>(k, c, e, _). c \<noteq> Tombstone \<and> purgeable now e) (lww_data s))
      in res_bind (del_keys expired (lww_data s)) (\<lambda>d. Inr (length expired, s\<lparr>lww_data := d\<rparr>)))"

definition lww_len :: "rat \<Rightarrow> LocalLWWStore \<Rightarrow> nat" where
  "lww_len now s = length (lww_keys now s)"

section \<open>Well-formedness, the view and the versions\<close>

text \<open>
  Beside the absence of duplicate keys, a tombstone never carries an expiry time.
\<close>

definition lww_wf :: "LocalLWWStore \<Rightarrow> bool" where
  "lww_wf s \<longleftrightarrow> wf_dict (lww_data s) \<and> (\<forall>k e t. map_of (lww_data s) k = Some (Tombstone, e, t) \<longrightarrow> e = None)"

definition lww_view :: "rat \<Rightarrow> LocalLWWStore \<Rightarrow> string \<Rightarrow> pyval option" where
  "lww_view now s k =
     (case map_of (lww_data s) k of
        Some (Value v, e, _) \<Rightarrow> if listed now e then Some v else None
      | _ \<Rightarrow> None)"

text \<open>The timestamp stored for a key, expired or not, and the version a read at \<open>now\<close> sees.\<close>

definition lww_stamp :: "LocalLWWStore \<Rightarrow> string \<Rightarrow> int option" where
  "lww_stamp s k = map_option (\<lambda>(_, _, t). t) (map_of (lww_data s) k)"

definition lww_version :: "rat \<Rightarrow> LocalLWWStore \<Rightarrow> string \<Rightarrow> versioned option" where
  "lww_version now s k =
     (case map_of (lww_data s) k of
        None \<Rightarrow> None
      | Some (Tombstone, _, t) \<Rightarrow> Some (PNone, t, True)
      | Some (Value v, e, t) \<Rightarrow> if overdue now e then None else Some (v, t, False))"

lemmas lww_splits = option.splits slot.splits prod.splits if_splits

lemma lww_get_versioned_result [simp]: "fst (lww_get_versioned now k s) = lww_version now s k"
  by (simp add: lww_get_versioned_def lww_version_def split: option.split slot.split prod.split)

lemma lww_get_result: "fst (lww_get now k s) =
    (case lww_version now s k of None \<Rightarrow> PNone | Some (v, _, tomb) \<Rightarrow> if tomb then PNone else v)"
  by (simp add: lww_get_def case_prod_beta flip: lww_get_versioned_result split: option.split)

lemma lww_get_state [simp]: "snd (lww_get now k s) = snd (lww_get_versioned now k s)"
  by (simp add: lww_get_def case_prod_beta split: option.split)

lemma lww_get_versioned_state:
  "snd (lww_get_versioned now k s) =
     (if \<exists>v e t. map_of (lww_data s) k = Some (Value v, e, t) \<and> overdue now e
      then s\<lparr>lww_data := AList.delete k (lww_data s)\<rparr> else s)"
  by (simp add: lww_get_versioned_def split: option.split slot.split prod.split)

lemma lww_view_version:
  "lww_view now s k = Some v \<Longrightarrow> \<exists>t. lww_version now s k = Some (v, t, False)"
  by (auto simp: lww_view_def lww_version_def listed_not_overdue split: lww_splits)

text \<open>Reading changes no version that a later read can see, only drops expired entries.\<close>

lemma lww_get_versioned_version:
  "now \<le> now' \<Longrightarrow> lww_version now' (snd (lww_get_versioned now k s)) k' = lww_version now' s k'"
  by (auto simp: lww_version_def lww_get_versioned_state dict_simps dest: overdue_mono
      split: option.split slot.split)

lemma lww_get_versioned_view:
  "now \<le> now' \<Longrightarrow> lww_view now' (snd (lww_get_versioned now k s)) k' = lww_view now' s k'"
  by (auto simp: lww_view_def lww_get_versioned_state dict_simps dest: overdue_mono listed_not_overdue
      split: option.split slot.split)

lemma lww_set_accepts_iff:
  "fst (lww_set now wall k v ttl ts s) \<longleftrightarrow>
     (case lww_stamp s k of None \<Rightarrow> True
      | Some old \<Rightarrow> old \<le> (write_ts wall ts))"
  by (auto simp: lww_set_def lww_stamp_def Let_def not_less split: option.split)

lemma lww_set_data:
  "lww_set now wall k v ttl ts s = (True, s') \<Longrightarrow>
   s' = s\<lparr>lww_data := AList.update k (Value v, expiry now ttl, write_ts wall ts)
            (lww_data s)\<rparr>"
  by (auto simp: lww_set_def Let_def split: option.splits if_splits)

lemma lww_set_rejected: "lww_set now wall k v ttl ts s = (False, s') \<Longrightarrow> s' = s"
  by (auto simp: lww_set_def Let_def split: option.splits if_splits)

lemma lww_set_view:
  "lww_set now wall k v ttl ts s = (True, s') \<Longrightarrow>
   lww_view now' s' k' = (if k' = k then if listed now' (expiry now ttl) then Some v else None
                          else lww_view now' s k')"
  by (drule lww_set_data) (simp add: lww_view_def dict_simps)

lemma lww_set_version:
  "lww_set now wall k v ttl ts s = (True, s') \<Longrightarrow>
   lww_version now' s' k' =
     (if k' = k then if overdue now' (expiry now ttl) then None
        else Some (v, write_ts wall ts, False)
      else lww_version now' s k')"
  by (drule lww_set_data) (simp add: lww_version_def dict_simps)

lemma lww_delete_lookup:
  "map_of (lww_data (snd (lww_delete wall k ts s))) k' =
     (let t = write_ts wall ts
      in if k' = k \<and> (case lww_stamp s k of None \<Rightarrow> True | Some old \<Rightarrow> old \<le> t)
         then Some (Tombstone, None, t) else map_of (lww_data s) k')"
  by (auto simp: lww_delete_def lww_stamp_def Let_def dict_simps split: option.splits)

lemma lww_delete_result:
  "fst (lww_delete wall k ts s) \<longleftrightarrow> (\<exists>v e t. map_of (lww_data s) k = Some (Value v, e, t))"
  by (auto simp: lww_delete_def Let_def split: option.splits slot.splits) (metis slot.exhaust)

lemma lww_wf_data: "lww_wf s \<Longrightarrow> wf_dict (lww_data s)"
  by (simp add: lww_wf_def)

lemma lww_wf_filter: "lww_wf s \<Longrightarrow> lww_wf (s\<lparr>lww_data := filter P (lww_data s)\<rparr>)"
  by (auto simp: lww_wf_def map_of_filter_dict split: option.splits if_splits)

lemma lww_wf_ops [wf_intros]:
  "lww_wf lww_init"
  "lww_wf s \<Longrightarrow> lww_wf (snd (lww_set now wall k v ttl ts s))"
  "lww_wf s \<Longrightarrow> lww_wf (snd (lww_get_versioned now k s))"
  "lww_wf s \<Longrightarrow> lww_wf (snd (lww_delete wall k ts s))"
  "lww_wf (lww_flush_all s)"
  by (auto simp: lww_wf_def lww_init_def lww_set_def lww_delete_def lww_flush_all_def Let_def dict_simps
      lww_get_versioned_state split: option.splits)

lemma lww_flush_keys_eq:
  "lww_wf s \<Longrightarrow> lww_flush_keys p s =
     Inr (length (filter (\<lambda>(k, _). sublist p k) (lww_data s)),
          s\<lparr>lww_data := filter (\<lambda>e. \<not> (case e of (k, _) \<Rightarrow> sublist p k)) (lww_data s)\<rparr>)"
  by (simp add: lww_flush_keys_def lww_wf_data del_keys_doomed)

lemma lww_purge_eq:
  "lww_wf s \<Longrightarrow> lww_purge_expired now s =
     Inr (length (filter (\<lambda>(k, c, e, _). c \<noteq> Tombstone \<and> purgeable now e) (lww_data s)),
          s\<lparr>lww_data := filter (\<lambda>e. \<not> (case e of (k, c, x, _) \<Rightarrow> c \<noteq> Tombstone \<and> purgeable now x)) (lww_data s)\<rparr>)"
  by (simp add: lww_purge_expired_def lww_wf_data del_keys_doomed)

lemma lww_filter_lookup:
  "lww_wf s \<Longrightarrow> map_of (filter P (lww_data s)) k =
     (case map_of (lww_data s) k of None \<Rightarrow> None | Some x \<Rightarrow> if P (k, x) then Some x else None)"
  by (simp add: lww_wf_data map_of_filter_dict split: option.split)

lemma lww_view_Some_iff:
  "lww_wf s \<Longrightarrow> lww_view now s k = Some v \<longleftrightarrow> (\<exists>e t. (k, Value v, e, t) \<in> set (lww_data s) \<and> listed now e)"
  by (auto simp: lww_view_def lww_wf_data wf_dict_lookup split: option.splits slot.splits)

lemma lww_keys_filter: "lww_scan_keys now p s = filter (sublist p) (lww_keys now s)"
  by (auto simp: lww_scan_keys_def lww_keys_def filter_map comp_def case_prod_beta
      intro!: arg_cong [where f = "map fst"] filter_cong)

lemma lww_keys_distinct: "lww_wf s \<Longrightarrow> distinct (lww_keys now s)"
  using lww_wf_data by (simp add: lww_keys_def wf_dict_def distinct_map_filter)

lemma not_Tombstone_iff: "c \<noteq> Tombstone \<longleftrightarrow> (\<exists>v. c = Value v)"
  by (cases c) auto

lemma lww_keys_view: "lww_wf s \<Longrightarrow> k \<in> set (lww_keys now s) \<longleftrightarrow> lww_view now s k \<noteq> None"
  by (auto simp: lww_keys_def lww_view_Some_iff image_iff not_Tombstone_iff)

lemma lww_scan_view:
  "lww_wf s \<Longrightarrow> (k, v) \<in> set (lww_scan now p s) \<longleftrightarrow> lww_view now s k = Some v \<and> sublist p k"
  by (force simp: lww_scan_def lww_view_Some_iff image_iff not_Tombstone_iff)

lemma lww_delete_view:
  "k' \<noteq> k \<Longrightarrow> lww_view now (snd (lww_delete wall k ts s)) k' = lww_view now s k'"
  "lww_view now (snd (lww_delete wall k ts s)) k \<in> {None, lww_view now s k}"
  by (simp_all add: lww_view_def lww_delete_lookup Let_def)

lemma lww_get_versioned_stamp: "lww_stamp (snd (lww_get_versioned now k s)) k' \<in> {None, lww_stamp s k'}"
  by (auto simp: lww_stamp_def lww_get_versioned_state dict_simps)

lemma lww_set_supersedes: "fst (lww_set now wall k v ttl ts s) \<longleftrightarrow> supersedes (lww_stamp s k) (write_ts wall ts)"
  by (simp add: lww_set_accepts_iff supersedes_def split: option.split)

lemma lww_delete_version:
  "lww_version now (snd (lww_delete wall k ts s)) k' =
     (if k' = k \<and> supersedes (lww_stamp s k) (write_ts wall ts) then Some (PNone, write_ts wall ts, True)
      else lww_version now s k')"
  by (simp add: lww_version_def lww_delete_lookup supersedes_def Let_def)

lemma lww_delete_lived: "lww_version now s k = Some (v, t, d) \<Longrightarrow> fst (lww_delete wall k ts s) = (\<not> d)"
  by (auto simp: lww_version_def lww_delete_result split: lww_splits)

lemma lww_version_stamp: "lww_version now s k = Some (v, t, d) \<Longrightarrow> lww_stamp s k = Some t"
  by (auto simp: lww_version_def lww_stamp_def split: lww_splits)

lemma lww_version_tombstone: "lww_version now s k = Some (v, t, True) \<Longrightarrow> v = PNone"
  by (auto simp: lww_version_def split: lww_splits)

interpretation lww: versioned_store lww_wf lww_view lww_get lww_set lww_delete
  lww_keys lww_scan lww_scan_keys lww_flush_all lww_flush_keys lww_purge_expired
  lww_version lww_stamp lww_get_versioned
proof (unfold_locales, goal_cases)
  case (1 s now k v)
  then show ?case by (auto simp: lww_get_result dest!: lww_view_version)
next
  case (4 s now wall k v ttl ts s' now' k')
  then show ?case using lww_set_view [of now wall k v ttl ts s s' now' k'] by simp
next
  case (8 s now wall k ts)
  show ?case by (rule lww_delete_view)
next
  case (15 now s k)
  show ?case by (simp add: lww_view_def lww_flush_all_def)
next
  case (13 now p s)
  show ?case by (simp add: lww_scan_def lww_scan_keys_def case_prod_beta comp_def)
next
  case (18 s p n s' now k)
  then show ?case
    by (clarsimp simp: lww_flush_keys_eq) (simp add: lww_view_def lww_filter_lookup split: option.splits)
next
  case (21 s now n s' now' k)
  then show ?case
    by (clarsimp simp: lww_purge_eq)
       (auto simp: lww_view_def lww_filter_lookup purgeable_iff dest: listed_antimono
         split: option.splits slot.splits)
qed (auto simp: lww_get_versioned_view lww_set_view lww_set_rejected lww_wf_ops lww_wf_filter
    lww_delete_view lww_keys_view lww_keys_distinct lww_scan_view lww_keys_filter
    lww_flush_keys_eq lww_purge_eq lww_get_versioned_version lww_get_result lww_set_supersedes
    lww_set_version lww_delete_version lww_delete_lived lww_version_stamp lww_version_tombstone
    lww_get_versioned_stamp [simplified])

end
