(* ===== verification/Store_Refinement.thy ===== *)
theory Store_Refinement
  imports Local_Store Lww_Store "HOL-Library.Multiset"
begin

text \<open>
  The store with timestamps as an implementation of the plain store: as long as the writes of
  \<open>LocalLWWStore\<close> are stamped in order, every method answers what \<open>LocalStore\<close> answers, with two exceptions.
  A listing has the same entries in another order, since a write over a tombstone keeps the tombstone's
  position in the dictionary; and \<open>flush_keys\<close> also counts the tombstones it removes. The
  abstraction forgets timestamps and tombstones.
\<close>

section \<open>Calls of the common interface\<close>

datatype store_call = CSet string pyval "rat option" | CGet string | CDelete string | CExists string
  | CKeys | CScan string | CScanKeys string | CLen | CFlushAll | CFlushKeys string | CClear | CPurge

datatype store_answer = ABool bool | AVal pyval | AKeys "string list" | APairs "(string \<times> pyval) list"
  | ANat nat | ANone | ARaise pyerr

definition counted :: "'s \<Rightarrow> (nat \<times> 's) res \<Rightarrow> store_answer \<times> 's" where
  "counted s r = (case r of Inl e \<Rightarrow> (ARaise e, s) | Inr (n, s') \<Rightarrow> (ANat n, s'))"

fun basic_call :: "rat \<Rightarrow> int \<Rightarrow> store_call \<Rightarrow> LocalStore \<Rightarrow> store_answer \<times> LocalStore" where
  "basic_call now wall (CSet k v ttl) s = map_prod ABool id (ls_set now k v ttl s)"
| "basic_call now wall (CGet k) s = map_prod AVal id (ls_get now k s)"
| "basic_call now wall (CDelete k) s = map_prod ABool id (ls_delete k s)"
| "basic_call now wall (CExists k) s = map_prod ABool id (ls_exists now k s)"
| "basic_call now wall CKeys s = (AKeys (ls_keys now s), s)"
| "basic_call now wall (CScan p) s = (APairs (ls_scan now p s), s)"
| "basic_call now wall (CScanKeys p) s = (AKeys (ls_scan_keys now p s), s)"
| "basic_call now wall CLen s = (ANat (ls_len now s), s)"
| "basic_call now wall CFlushAll s = (ANone, ls_flush_all s)"
| "basic_call now wall (CFlushKeys p) s = counted s (ls_flush_keys p s)"
| "basic_call now wall CClear s = (ANone, ls_clear s)"
| "basic_call now wall CPurge s = counted s (ls_purge_expired now s)"

fun lww_call :: "rat \<Rightarrow> int \<Rightarrow> store_call \<Rightarrow> LocalLWWStore \<Rightarrow> store_answer \<times> LocalLWWStore" where
  "lww_call now wall (CSet k v ttl) s = map_prod ABool id (lww_set now wall k v ttl None s)"
| "lww_call now wall (CGet k) s = map_prod AVal id (lww_get now k s)"
| "lww_call now wall (CDelete k) s = map_prod ABool id (lww_delete wall k None s)"
| "lww_call now wall (CExists k) s = map_prod ABool id (lww_exists now k s)"
| "lww_call now wall CKeys s = (AKeys (lww_keys now s), s)"
| "lww_call now wall (CScan p) s = (APairs (lww_scan now p s), s)"
| "lww_call now wall (CScanKeys p) s = (AKeys (lww_scan_keys now p s), s)"
| "lww_call now wall CLen s = (ANat (lww_len now s), s)"
| "lww_call now wall CFlushAll s = (ANone, lww_flush_all s)"
| "lww_call now wall (CFlushKeys p) s = counted s (lww_flush_keys p s)"
| "lww_call now wall CClear s = (ANone, lww_clear s)"
| "lww_call now wall CPurge s = counted s (lww_purge_expired now s)"

text \<open>A sequence of calls, each with its readings of the monotonic and of the wall clock.\<close>

fun run_calls :: "(rat \<Rightarrow> int \<Rightarrow> store_call \<Rightarrow> 's \<Rightarrow> 'r \<times> 's) \<Rightarrow> (rat \<times> int \<times> store_call) list \<Rightarrow> 's
    \<Rightarrow> 'r list \<times> 's" where
  "run_calls f [] s = ([], s)"
| "run_calls f ((now, wall, c) # cs) s =
     (case f now wall c s of (r, s1) \<Rightarrow> case run_calls f cs s1 of (rs, s2) \<Rightarrow> (r # rs, s2))"

section \<open>The abstraction\<close>

definition live_entry :: "LocalLWWStore \<Rightarrow> string \<Rightarrow> (pyval \<times> rat option) option" where
  "live_entry s k =
     (case map_of (lww_data s) k of Some (Value v, e, _) \<Rightarrow> Some (v, e) | _ \<Rightarrow> None)"

definition abstracts :: "LocalLWWStore \<Rightarrow> LocalStore \<Rightarrow> bool" where
  "abstracts s l \<longleftrightarrow> lww_wf s \<and> ls_wf l \<and> map_of (ls_data l) = live_entry s"

definition stamps_upto :: "LocalLWWStore \<Rightarrow> int \<Rightarrow> bool" where
  "stamps_upto s wall \<longleftrightarrow> (\<forall>k t. lww_stamp s k = Some t \<longrightarrow> t \<le> wall)"

lemma abstracts_init: "abstracts lww_init ls_init"
  by (simp add: abstracts_def lww_wf_ops ls_wf_ops) (simp add: live_entry_def lww_init_def ls_init_def fun_eq_iff)

lemma abstracts_lookup: "abstracts s l \<Longrightarrow> map_of (ls_data l) k = live_entry s k"
  by (simp add: abstracts_def)

lemma abstracts_wf: "abstracts s l \<Longrightarrow> lww_wf s" "abstracts s l \<Longrightarrow> ls_wf l"
  by (simp_all add: abstracts_def)

lemma abstracts_view: "abstracts s l \<Longrightarrow> ls_view now l = lww_view now s"
  by (auto simp: fun_eq_iff ls_view_def lww_view_def abstracts_lookup live_entry_def
      split: option.split slot.split)

lemma abstracts_keys: "abstracts s l \<Longrightarrow> set (ls_keys now l) = set (lww_keys now s)"
  by (auto simp: ls_keys_view lww_keys_view abstracts_wf abstracts_view)

lemma abstracts_scan: "abstracts s l \<Longrightarrow> set (ls_scan now p l) = set (lww_scan now p s)"
  by (auto simp: ls_scan_view lww_scan_view abstracts_wf abstracts_view)

lemma abstracts_len: "abstracts s l \<Longrightarrow> ls_len now l = lww_len now s"
  by (simp add: ls_len_def lww_len_def ls.len_card lww.len_card abstracts_wf abstracts_view)

lemma count_entries:
  assumes "wf_dict d"
  shows "length (filter P d) = card {k. \<exists>v. map_of d k = Some v \<and> P (k, v)}"
proof -
  have "distinct (map fst (filter P d))"
    using assms by (simp add: wf_dict_def distinct_map_filter)
  then have "length (filter P d) = card (set (map fst (filter P d)))"
    by (metis distinct_card length_map)
  also have "set (map fst (filter P d)) = {k. \<exists>v. map_of d k = Some v \<and> P (k, v)}"
    using assms by (force simp: wf_dict_lookup [symmetric])
  finally show ?thesis .
qed

text \<open>The live entries that a test of key and expiry time picks are as many in both stores.\<close>

lemma abstracts_count:
  assumes "abstracts s l"
  shows "length (filter (\<lambda>(k, _, e). P k e) (ls_data l)) =
    length (filter (\<lambda>(k, c, e, _). c \<noteq> Tombstone \<and> P k e) (lww_data s))"
proof -
  have "{k. \<exists>v. map_of (ls_data l) k = Some v \<and> (case (k, v) of (k, _, e) \<Rightarrow> P k e)} =
      {k. \<exists>v. map_of (lww_data s) k = Some v \<and> (case (k, v) of (k, c, e, _) \<Rightarrow> c \<noteq> Tombstone \<and> P k e)}"
  proof (rule Collect_cong)
    fix k
    show "(\<exists>v. map_of (ls_data l) k = Some v \<and> (case (k, v) of (k, _, e) \<Rightarrow> P k e)) \<longleftrightarrow>
      (\<exists>v. map_of (lww_data s) k = Some v \<and> (case (k, v) of (k, c, e, _) \<Rightarrow> c \<noteq> Tombstone \<and> P k e))"
      using abstracts_lookup [OF assms, of k]
      by (cases "map_of (lww_data s) k") (auto simp: live_entry_def split: slot.splits)
  qed
  then show ?thesis
    using assms by (simp add: count_entries lww_wf_data abstracts_wf ls_wf_def [symmetric])
qed

text \<open>The deleted keys a pattern matches.\<close>

definition tombstones :: "string \<Rightarrow> LocalLWWStore \<Rightarrow> nat" where
  "tombstones p s = length (filter (\<lambda>(k, c, _). c = Tombstone \<and> sublist p k) (lww_data s))"

lemma abstracts_flushed:
  assumes "abstracts s l"
  shows "length (filter (\<lambda>(k, _). sublist p k) (lww_data s)) =
    length (filter (\<lambda>(k, _). sublist p k) (ls_data l)) + tombstones p s"
proof -
  have "length (filter (\<lambda>(k, _). sublist p k) xs) =
      length (filter (\<lambda>(k, c, e, _). c \<noteq> Tombstone \<and> sublist p k) xs) + length (filter (\<lambda>(k, c, _). c = Tombstone \<and> sublist p k) xs)"
    for xs :: "lww_entry pydict"
    by (induction xs) auto
  moreover have "(\<lambda>(k, _). sublist p k) = (\<lambda>(k, _ :: pyval, _ :: rat option). sublist p k)" by auto
  ultimately show ?thesis using abstracts_count [OF assms, of "\<lambda>k e. sublist p k"] by (simp add: tombstones_def)
qed

lemma distinct_keys: "distinct (map fst xs) \<Longrightarrow> distinct xs"
  by (simp add: distinct_map)

text \<open>Listings are permutations of each other.\<close>

lemma abstracts_mset_keys: "abstracts s l \<Longrightarrow> mset (lww_keys now s) = mset (ls_keys now l)"
  using abstracts_keys [of s l now] abstracts_wf [of s l]
  by (simp add: set_eq_iff_mset_eq_distinct [symmetric] ls_keys_distinct lww_keys_distinct)

lemma abstracts_mset_scan:
  assumes "abstracts s l"
  shows "mset (lww_scan now p s) = mset (ls_scan now p l)"
proof -
  have "map fst (lww_scan now p s) = lww_scan_keys now p s" "map fst (ls_scan now p l) = ls_scan_keys now p l"
    by (simp_all add: lww_scan_def lww_scan_keys_def ls_scan_def ls_scan_keys_def comp_def case_prod_beta)
  then have "distinct (lww_scan now p s)" "distinct (ls_scan now p l)"
    using abstracts_wf [OF assms] by (auto intro!: distinct_keys simp: ls_keys_filter lww_keys_filter ls_keys_distinct lww_keys_distinct)
  then show ?thesis using abstracts_scan [OF assms, of now p] by (simp add: set_eq_iff_mset_eq_distinct [symmetric])
qed

section \<open>When two answers match\<close>

text \<open>
  \<open>a\<close> is the answer of the store with timestamps, in state \<open>s\<close>, and \<open>b\<close> that of the plain one.
\<close>

fun answers_match :: "LocalLWWStore \<Rightarrow> store_call \<Rightarrow> store_answer \<Rightarrow> store_answer \<Rightarrow> bool" where
  "answers_match s (CFlushKeys p) a b \<longleftrightarrow> (\<exists>n. b = ANat n \<and> a = ANat (n + tombstones p s))"
| "answers_match s CKeys a b \<longleftrightarrow> (\<exists>xs ys. a = AKeys xs \<and> b = AKeys ys \<and> mset xs = mset ys)"
| "answers_match s (CScanKeys p) a b \<longleftrightarrow> (\<exists>xs ys. a = AKeys xs \<and> b = AKeys ys \<and> mset xs = mset ys)"
| "answers_match s (CScan p) a b \<longleftrightarrow> (\<exists>xs ys. a = APairs xs \<and> b = APairs ys \<and> mset xs = mset ys)"
| "answers_match s c a b \<longleftrightarrow> a = b"

section \<open>Simulation\<close>

lemma set_simulates:
  assumes "abstracts s l" and "stamps_upto s wall"
  shows "fst (lww_set now wall k v ttl None s)"
    and "abstracts (snd (lww_set now wall k v ttl None s)) (snd (ls_set now k v ttl l))"
proof -
  show ok: "fst (lww_set now wall k v ttl None s)"
    using assms(2) by (auto simp: lww_set_accepts_iff stamps_upto_def write_ts_def split: option.split)
  then show "abstracts (snd (lww_set now wall k v ttl None s)) (snd (ls_set now k v ttl l))"
    using assms(1) lww_set_data [of now wall k v ttl None s "snd (lww_set now wall k v ttl None s)"]
    by (simp add: abstracts_def lww_wf_ops ls_wf_ops fun_eq_iff)
       (simp add: ls_set_def live_entry_def Let_def dict_simps prod_eq_iff)
qed

lemma get_simulates:
  assumes "abstracts s l"
  shows "fst (ls_get now k l) = fst (lww_get now k s)"
    and "abstracts (snd (lww_get now k s)) (snd (ls_get now k l))"
proof -
  show "fst (ls_get now k l) = fst (lww_get now k s)"
    using assms by (auto simp: lww_get_result lww_version_def ls_get_def abstracts_lookup live_entry_def
        split: option.splits slot.splits)
  show "abstracts (snd (lww_get now k s)) (snd (ls_get now k l))"
    using assms abstracts_lookup [OF assms, of k]
    by (auto simp: abstracts_def lww_wf_ops ls_wf_ops fun_eq_iff)
       (auto simp: ls_get_def live_entry_def lww_get_versioned_state dict_simps
          split: option.splits slot.splits)
qed

lemma delete_simulates:
  assumes "abstracts s l" and "stamps_upto s wall"
  shows "fst (ls_delete k l) = fst (lww_delete wall k None s)"
    and "abstracts (snd (lww_delete wall k None s)) (snd (ls_delete k l))"
proof -
  show "fst (ls_delete k l) = fst (lww_delete wall k None s)"
    using assms(1) by (auto simp: lww_delete_result ls_delete_def abstracts_lookup live_entry_def
        split: option.splits slot.splits)
  have "case lww_stamp s k of None \<Rightarrow> True | Some old \<Rightarrow> old \<le> wall"
    using assms(2) by (auto simp: stamps_upto_def split: option.split)
  then show "abstracts (snd (lww_delete wall k None s)) (snd (ls_delete k l))"
    using assms(1)
    by (simp add: abstracts_def lww_wf_ops ls_wf_ops fun_eq_iff)
       (simp add: ls_delete_def live_entry_def lww_delete_lookup write_ts_def Let_def dict_simps)
qed

lemma filter_simulates:
  assumes "abstracts s l"
    and "\<And>k v e t. map_of (lww_data s) k = Some (Value v, e, t) \<Longrightarrow> P (k, Value v, e, t) = Q (k, v, e)"
  shows "abstracts (s\<lparr>lww_data := filter P (lww_data s)\<rparr>) (l\<lparr>ls_data := filter Q (ls_data l)\<rparr>)"
  using assms abstracts_wf [OF assms(1)]
  by (auto simp: abstracts_def lww_wf_filter ls_wf_ops fun_eq_iff live_entry_def ls_wf_def
      map_of_filter_dict lww_filter_lookup split: option.split slot.split)

lemma call_simulates:
  assumes "abstracts s l" and "stamps_upto s wall"
  shows "answers_match s c (fst (lww_call now wall c s)) (fst (basic_call now wall c l))
    \<and> abstracts (snd (lww_call now wall c s)) (snd (basic_call now wall c l))"
proof (cases c)
  case (CSet k v ttl)
  then show ?thesis using set_simulates [OF assms, of now k v ttl] by (simp add: ls_set_def Let_def)
next
  case (CGet k)
  then show ?thesis using get_simulates [OF assms(1), of now k] by simp
next
  case (CDelete k)
  then show ?thesis using delete_simulates [OF assms, of k] by simp
next
  case (CExists k)
  then show ?thesis using get_simulates [OF assms(1), of now k]
    by (simp add: ls_exists_def lww_exists_def case_prod_beta)
next
  case (CScanKeys p)
  then show ?thesis
    using assms(1) abstracts_mset_keys [OF assms(1), of now] by (simp add: ls_keys_filter lww_keys_filter mset_filter)
next
  case (CFlushKeys p)
  then show ?thesis
    using filter_simulates [OF assms(1)] abstracts_wf [OF assms(1)] abstracts_flushed [OF assms(1), of p]
    by (simp add: ls_flush_keys_eq lww_flush_keys_eq counted_def)
next
  case CPurge
  then show ?thesis
    using filter_simulates [OF assms(1)] abstracts_wf [OF assms(1)] abstracts_count [OF assms(1), of "\<lambda>k. purgeable now"]
    by (simp add: ls_purge_eq lww_purge_eq counted_def)
qed (use assms(1) filter_simulates [OF assms(1), of "\<lambda>_. False" "\<lambda>_. False"] in
  \<open>simp_all add: abstracts_mset_keys abstracts_mset_scan abstracts_len lww_flush_all_def ls_flush_all_def lww_clear_def
    ls_clear_def\<close>)

lemma stamps_upto_call:
  assumes "abstracts s l" and "stamps_upto s wall" and "wall \<le> wall'"
  shows "stamps_upto (snd (lww_call now wall c s)) wall'"
proof -
  note wf = abstracts_wf(1) [OF assms(1)]
  have same: "stamps_upto s wall'" using assms(2,3) unfolding stamps_upto_def by (meson order_trans)
  have set: "stamps_upto (snd (lww_set now wall k v ttl None s)) wall'" for k v ttl
    using same assms(3) lww_set_data [of now wall k v ttl None s "snd (lww_set now wall k v ttl None s)"]
      set_simulates(1) [OF assms(1,2), of now k v ttl]
    by (auto simp: stamps_upto_def lww_stamp_def dict_simps write_ts_def prod_eq_iff split: if_splits)
  have get: "stamps_upto (snd (lww_get_versioned now k s)) wall'" for k
    using same by (auto simp: stamps_upto_def lww_stamp_def lww_get_versioned_state dict_simps
        split: if_splits)
  have delete: "stamps_upto (snd (lww_delete wall k None s)) wall'" for k
    using same assms(3) by (auto simp: stamps_upto_def lww_stamp_def lww_delete_lookup dict_simps write_ts_def
        Let_def split: if_splits)
  have filtered: "stamps_upto (s\<lparr>lww_data := filter P (lww_data s)\<rparr>) wall'" for P
    using same by (auto simp: stamps_upto_def lww_stamp_def lww_filter_lookup [OF wf]
        split: option.splits if_splits)
  show ?thesis
    by (cases c) (auto simp: set get delete filtered same lww_exists_def case_prod_beta lww_flush_keys_eq [OF wf]
        lww_purge_eq [OF wf] counted_def,
      auto simp: stamps_upto_def lww_stamp_def lww_flush_all_def lww_clear_def)
qed

lemma run_simulates:
  assumes "abstracts s l" and "sorted (map (\<lambda>(_, wall, _). wall) cs)"
    and "\<forall>(_, wall, _) \<in> set cs. stamps_upto s wall"
  shows "abstracts (snd (run_calls lww_call cs s)) (snd (run_calls basic_call cs l))
    \<and> (\<forall>wall. (\<forall>(_, w, _) \<in> set cs. w \<le> wall) \<longrightarrow> stamps_upto s wall \<longrightarrow> stamps_upto (snd (run_calls lww_call cs s)) wall)"
  using assms
proof (induction cs arbitrary: s l)
  case (Cons x cs)
  obtain now wall c where x: "x = (now, wall, c)" by (cases x)
  have upto: "stamps_upto s wall" using Cons.prems(3) x by simp
  have "\<forall>(_, wall', _) \<in> set cs. stamps_upto (snd (lww_call now wall c s)) wall'"
    using Cons.prems(2) x stamps_upto_call [OF Cons.prems(1) upto] by auto
  then show ?case
    using Cons.IH [of "snd (lww_call now wall c s)" "snd (basic_call now wall c l)"] Cons.prems(2) x
      call_simulates [OF Cons.prems(1) upto, of c now] stamps_upto_call [OF Cons.prems(1) upto]
    by (simp add: case_prod_beta)
qed simp

section \<open>Properties\<close>

text \<open>C16.
  The store with timestamps refines the plain store: over any sequence of method calls from the empty
  store, with time-to-lives, expiries, purges and flushes, whose wall-clock readings do not go backwards,
  each call of \<open>LocalLWWStore\<close> returns what that call of \<open>LocalStore\<close> returns, but for two
  things: a listing (\<open>keys\<close>, \<open>scan\<close>, \<open>scan_keys\<close>) may have another order, and \<open>flush_keys\<close> returns as
  many more as it finds tombstones that match. The live entries at the end are the same. Neither raises.
\<close>

theorem lww_refines_basic:
  assumes "sorted (map (\<lambda>(_, wall, _). wall) cs)"
  shows "(\<forall>cs1 now wall c cs2. cs = cs1 @ (now, wall, c) # cs2 \<longrightarrow>
      (let s = snd (run_calls lww_call cs1 lww_init); l = snd (run_calls basic_call cs1 ls_init)
       in answers_match s c (fst (lww_call now wall c s)) (fst (basic_call now wall c l))))
    \<and> live_entry (snd (run_calls lww_call cs lww_init)) = map_of (ls_data (snd (run_calls basic_call cs ls_init)))"
proof -
  have init: "\<forall>(_, wall, _) \<in> set cs. stamps_upto lww_init wall" for cs :: "(rat \<times> int \<times> store_call) list"
    by (auto simp: stamps_upto_def lww_stamp_def lww_init_def)
  have "answers_match (snd (run_calls lww_call cs1 lww_init)) c
      (fst (lww_call now wall c (snd (run_calls lww_call cs1 lww_init))))
      (fst (basic_call now wall c (snd (run_calls basic_call cs1 ls_init))))"
    if "cs = cs1 @ (now, wall, c) # cs2" for cs1 now wall c cs2
  proof -
    have "sorted (map (\<lambda>(_, wall, _). wall) cs1)" "\<forall>(_, w, _) \<in> set cs1. w \<le> wall"
      using assms that by (auto simp: sorted_append)
    moreover have "stamps_upto lww_init wall" by (simp add: stamps_upto_def lww_stamp_def lww_init_def)
    ultimately have "abstracts (snd (run_calls lww_call cs1 lww_init)) (snd (run_calls basic_call cs1 ls_init))"
      "stamps_upto (snd (run_calls lww_call cs1 lww_init)) wall"
      using run_simulates [OF abstracts_init _ init] by blast+
    then show ?thesis by (rule call_simulates [THEN conjunct1])
  qed
  moreover have "live_entry (snd (run_calls lww_call cs lww_init)) = map_of (ls_data (snd (run_calls basic_call cs ls_init)))"
    using run_simulates [OF abstracts_init assms init] by (simp add: abstracts_def)
  ultimately show ?thesis by (simp add: Let_def)
qed

text \<open>After a delete, \<open>flush_keys\<close> reports one key too many.\<close>

lemma lww_refines_basic_witness:
  "\<exists>s l. s = snd (run_calls lww_call [(0, 5, CSet ''a'' (PInt 1) (Some 2)), (1, 5, CGet ''a''), (2, 6, CDelete ''a'')] lww_init)
    \<and> l = snd (run_calls basic_call [(0, 5, CSet ''a'' (PInt 1) (Some 2)), (1, 5, CGet ''a''), (2, 6, CDelete ''a'')] ls_init)
    \<and> fst (basic_call 3 7 (CFlushKeys ''a'') l) = ANat 0 \<and> fst (lww_call 3 7 (CFlushKeys ''a'') s) = ANat 1"
proof -
  let ?cs = "[(0, 5, CSet ''a'' (PInt 1) (Some 2)), (1, 5, CGet ''a''), (2, 6, CDelete ''a'')]"
  let ?s = "snd (run_calls lww_call ?cs lww_init)" and ?l = "snd (run_calls basic_call ?cs ls_init)"
  have "?l = ls_init" "lww_data ?s = [(''a'', Tombstone, None, 6)]"
    by (simp_all add: ls_defs ls_init_def expiry_def overdue_def lww_set_def lww_get_def lww_get_versioned_def lww_delete_def
        lww_init_def write_ts_def)
  then have "fst (basic_call 3 7 (CFlushKeys ''a'') ?l) = ANat 0" "tombstones ''a'' ?s = 1"
    by (simp_all add: ls_flush_keys_def ls_init_def counted_def tombstones_def)
  moreover have "answers_match ?s (CFlushKeys ''a'') (fst (lww_call 3 7 (CFlushKeys ''a'') ?s)) (fst (basic_call 3 7 (CFlushKeys ''a'') ?l))"
    using lww_refines_basic [of "?cs @ [(3, 7, CFlushKeys ''a'')]", THEN conjunct1, rule_format, OF _ refl]
    by (simp add: Let_def del: run_calls.simps answers_match.simps basic_call.simps lww_call.simps)
  ultimately show ?thesis by auto
qed

end
