(* ===== verification/Lww_Convergence.thy ===== *)
theory Lww_Convergence
  imports Lww_Store
begin

text \<open>
  Convergence of replicas: the last-write-wins register each key of a \<open>LocalLWWStore\<close>
  holds, the delivery of writes and deletes in any order and with repetitions, and what expiry,
  purging and flushing do to the stored timestamps.
\<close>

section \<open>Updates that commute and are idempotent\<close>

locale commuting_updates =
  fixes app :: "'op \<Rightarrow> 's \<Rightarrow> 's"
    and compatible :: "'op \<Rightarrow> 'op \<Rightarrow> bool"
  assumes commute: "compatible x y \<Longrightarrow> app x (app y s) = app y (app x s)"
    and idem: "app x (app x s) = app x s"
begin

lemma convergence:
  assumes "set xs = set ys" and "\<forall>x \<in> set xs. \<forall>y \<in> set xs. compatible x y"
  shows "fold app xs s = fold app ys s"
proof -
  have "comp_fun_idem_on (set xs) app"
    using assms(2) by unfold_locales (auto simp: fun_eq_iff commute idem)
  then have "Finite_Set.fold app s (set zs) = fold app zs s" if "set zs \<subseteq> set xs" for zs
    using that by (rule comp_fun_idem_on.fold_set_fold)
  from this [of xs] this [of ys] assms(1) show ?thesis by simp
qed

lemma redelivery:
  assumes "\<forall>x \<in> set xs. \<forall>y \<in> set xs. compatible x y" and "set ys \<subseteq> set xs"
  shows "fold app ys (fold app xs s) = fold app xs s"
  using convergence [of "xs @ ys" xs s] assms by (auto simp: subset_iff)

end

section \<open>The register of a key\<close>

type_synonym register = "string \<Rightarrow> (int \<times> slot) option"

definition reg_put :: "string \<times> int \<times> slot \<Rightarrow> register \<Rightarrow> register" where
  "reg_put w r = (case w of (k, t, c) \<Rightarrow>
     (case r k of
        None \<Rightarrow> r(k \<mapsto> (t, c))
      | Some (old, _) \<Rightarrow> if old > t then r else r(k \<mapsto> (t, c))))"

definition unique_stamps :: "string \<times> int \<times> slot \<Rightarrow> string \<times> int \<times> slot \<Rightarrow> bool" where
  "unique_stamps w w' = (case (w, w') of ((k, t, c), (k', t', c')) \<Rightarrow> k = k' \<and> t = t' \<longrightarrow> c = c')"

interpretation reg: commuting_updates reg_put unique_stamps
proof
  fix w w' :: "string \<times> int \<times> slot" and r :: register
  obtain k t c k' t' c' where w: "w = (k, t, c)" "w' = (k', t', c')" by (cases w; cases w')
  assume "unique_stamps w w'"
  then show "reg_put w (reg_put w' r) = reg_put w' (reg_put w r)"
    by (auto simp: w reg_put_def unique_stamps_def fun_upd_twist split: option.splits)
next
  fix w :: "string \<times> int \<times> slot" and r :: register
  show "reg_put w (reg_put w r) = reg_put w r"
    by (cases w) (auto simp: reg_put_def split: option.splits)
qed

text \<open>The register keeps the greatest timestamp it has seen, and only values it was given.\<close>

lemma fold_reg_put_ge:
  assumes "fold reg_put ws r k = Some (t, c)"
  shows "(\<forall>t' c'. (k, t', c') \<in> set ws \<longrightarrow> t' \<le> t) \<and> (\<forall>t0 c0. r k = Some (t0, c0) \<longrightarrow> t0 \<le> t)
    \<and> ((k, t, c) \<in> set ws \<or> r k = Some (t, c))"
  using assms
proof (induction ws arbitrary: r)
  case (Cons w ws)
  obtain k' t' c' where w: "w = (k', t', c')" by (cases w)
  from Cons.prems have "fold reg_put ws (reg_put w r) k = Some (t, c)" by simp
  from Cons.IH [OF this] show ?case
    by (auto simp: w reg_put_def split: option.splits if_splits)
qed auto

lemma reg_put_Some: "r k \<noteq> None \<Longrightarrow> reg_put w r k \<noteq> None"
  by (cases w) (auto simp: reg_put_def split: option.splits)

lemma fold_reg_put_Some: "(k, t, c) \<in> set ws \<Longrightarrow> fold reg_put ws r k \<noteq> None"
proof -
  have keep: "fold reg_put ws r k \<noteq> None" if "r k \<noteq> None" for ws r
    using that by (induction ws arbitrary: r) (simp_all add: reg_put_Some del: not_None_eq)
  assume "(k, t, c) \<in> set ws"
  then obtain us vs where ws: "ws = us @ (k, t, c) # vs" by (auto dest: split_list)
  have "reg_put (k, t, c) (fold reg_put us r) k \<noteq> None"
    by (auto simp: reg_put_def split: option.splits)
  then show ?thesis using keep ws by (simp add: keep)
qed

section \<open>Delivering writes to a store\<close>

text \<open>A write as the dispatcher hands it to the store: it carries its timestamp.\<close>

datatype store_write = WSet string pyval "rat option" int | WDel string int

fun write_op :: "store_write \<Rightarrow> string \<times> int \<times> slot" where
  "write_op (WSet k v ttl ts) = (k, ts, Value v)"
| "write_op (WDel k ts) = (k, ts, Tombstone)"

text \<open>One delivery: the readings of the receiver's two clocks, and the write.\<close>

fun deliver :: "rat \<times> int \<times> store_write \<Rightarrow> LocalLWWStore \<Rightarrow> LocalLWWStore" where
  "deliver (now, wall, WSet k v ttl ts) s = snd (lww_set now wall k v ttl (Some ts) s)"
| "deliver (now, wall, WDel k ts) s = snd (lww_delete wall k (Some ts) s)"

definition written :: "(rat \<times> int \<times> store_write) list \<Rightarrow> (string \<times> int \<times> slot) list" where
  "written ds = map (\<lambda>(_, _, w). write_op w) ds"

definition lww_reg :: "LocalLWWStore \<Rightarrow> register" where
  "lww_reg s k = map_option (\<lambda>(c, _, t). (t, c)) (map_of (lww_data s) k)"

text \<open>The store refines the register: each delivery is one \<open>reg_put\<close> on the abstraction.\<close>

lemma lww_reg_set:
  "lww_reg (snd (lww_set now wall k v ttl ts s)) =
     reg_put (k, write_ts wall ts, Value v) (lww_reg s)"
  by (auto simp: lww_reg_def lww_set_def reg_put_def Let_def dict_simps fun_eq_iff split: option.splits)

lemma lww_reg_delete:
  "lww_reg (snd (lww_delete wall k ts s)) =
     reg_put (k, write_ts wall ts, Tombstone) (lww_reg s)"
  by (auto simp: lww_reg_def lww_delete_def reg_put_def Let_def dict_simps fun_eq_iff split: option.splits)

lemma lww_reg_deliver: "lww_reg (deliver d s) = reg_put (case d of (_, _, w) \<Rightarrow> write_op w) (lww_reg s)"
  by (cases "(d, s)" rule: deliver.cases) (simp_all add: lww_reg_set lww_reg_delete)

lemma lww_reg_fold: "lww_reg (fold deliver ds s) = fold reg_put (written ds) (lww_reg s)"
  by (induction ds arbitrary: s) (simp_all add: written_def lww_reg_deliver)

lemma lww_wf_deliver [wf_intros]: "lww_wf s \<Longrightarrow> lww_wf (deliver d s)"
  by (cases "(d, s)" rule: deliver.cases) (simp_all add: lww_wf_ops)

text \<open>Without a time-to-live the register determines every answer of the store.\<close>

definition no_expiry :: "LocalLWWStore \<Rightarrow> bool" where
  "no_expiry s \<longleftrightarrow> (\<forall>k c e t. map_of (lww_data s) k = Some (c, e, t) \<longrightarrow> e = None)"

fun has_ttl :: "store_write \<Rightarrow> bool" where
  "has_ttl (WSet k v ttl ts) = (ttl \<noteq> None)"
| "has_ttl (WDel k ts) = False"

lemma no_expiry_deliver: "no_expiry s \<Longrightarrow> \<not> has_ttl w \<Longrightarrow> no_expiry (deliver (now, wall, w) s)"
  by (cases w) (auto simp: no_expiry_def lww_set_def lww_delete_def Let_def dict_simps split: option.splits)

lemma no_expiry_fold:
  "no_expiry s \<Longrightarrow> \<forall>(_, _, w) \<in> set ds. \<not> has_ttl w \<Longrightarrow> no_expiry (fold deliver ds s)"
proof (induction ds arbitrary: s)
  case (Cons d ds)
  then show ?case by (cases d) (auto intro!: Cons.IH no_expiry_deliver)
qed simp

lemma lww_version_reg:
  "no_expiry s \<Longrightarrow> lww_version now s k =
     (case lww_reg s k of None \<Rightarrow> None
      | Some (t, Tombstone) \<Rightarrow> Some (PNone, t, True)
      | Some (t, Value v) \<Rightarrow> Some (v, t, False))"
proof -
  assume "no_expiry s"
  then have "e = None" if "map_of (lww_data s) k = Some (c, e, t)" for c e t
    using that by (auto simp: no_expiry_def)
  then show ?thesis
    by (auto simp: lww_version_def lww_reg_def split: option.splits slot.splits)
qed

section \<open>Timestamps over time\<close>

text \<open>A reader or the background purge leaves a tombstone alone.\<close>

lemma tombstone_get:
  "map_of (lww_data s) k = Some (Tombstone, e, t) \<Longrightarrow>
   map_of (lww_data (snd (lww_get_versioned now k' s))) k = Some (Tombstone, e, t)"
  by (auto simp: lww_get_versioned_state dict_simps)

lemma tombstone_purge:
  "lww_wf s \<Longrightarrow> lww_purge_expired now s = Inr (n, s') \<Longrightarrow> map_of (lww_data s) k = Some (Tombstone, e, t) \<Longrightarrow>
   map_of (lww_data s') k = Some (Tombstone, e, t)"
  by (auto simp: lww_purge_eq lww_filter_lookup)

text \<open>The housekeeping a store sees between two writes: reads and purges.\<close>

datatype upkeep = Read rat string | Purge rat

fun upkeep_step :: "upkeep \<Rightarrow> LocalLWWStore \<Rightarrow> LocalLWWStore" where
  "upkeep_step (Read now k) s = snd (lww_get_versioned now k s)"
| "upkeep_step (Purge now) s = (case lww_purge_expired now s of Inl _ \<Rightarrow> s | Inr (_, s') \<Rightarrow> s')"

lemma upkeep_keeps_tombstone:
  assumes "lww_wf s" and "map_of (lww_data s) k = Some (Tombstone, e, t)"
  shows "lww_wf (upkeep_step u s) \<and> map_of (lww_data (upkeep_step u s)) k = Some (Tombstone, e, t)"
  using assms
  by (cases u) (auto simp: lww_wf_ops tombstone_get lww_purge_eq lww_wf_filter lww_filter_lookup)

lemma upkeeps_keep_tombstone:
  "lww_wf s \<Longrightarrow> map_of (lww_data s) k = Some (Tombstone, e, t) \<Longrightarrow>
   lww_wf (fold upkeep_step us s) \<and> map_of (lww_data (fold upkeep_step us s)) k = Some (Tombstone, e, t)"
  by (induction us arbitrary: s) (auto dest: upkeep_keeps_tombstone)

section \<open>Reachable stores\<close>

text \<open>One call of a method of the store, with whatever clock readings.\<close>

inductive lww_step :: "LocalLWWStore \<Rightarrow> LocalLWWStore \<Rightarrow> bool" where
  step_set: "lww_step s (snd (lww_set now wall k v ttl ts s))"
| step_get: "lww_step s (snd (lww_get now k s))"
| step_get_versioned: "lww_step s (snd (lww_get_versioned now k s))"
| step_delete: "lww_step s (snd (lww_delete wall k ts s))"
| step_exists: "lww_step s (snd (lww_exists now k s))"
| step_flush_all: "lww_step s (lww_flush_all s)"
| step_clear: "lww_step s (lww_clear s)"
| step_flush_keys: "lww_flush_keys p s = Inr (n, s') \<Longrightarrow> lww_step s s'"
| step_purge: "lww_purge_expired now s = Inr (n, s') \<Longrightarrow> lww_step s s'"

inductive lww_reachable :: "LocalLWWStore \<Rightarrow> bool" where
  reach_init: "lww_reachable lww_init"
| reach_step: "lww_reachable s \<Longrightarrow> lww_step s s' \<Longrightarrow> lww_reachable s'"

lemma lww_step_wf: "lww_step s s' \<Longrightarrow> lww_wf s \<Longrightarrow> lww_wf s'"
  by (induction rule: lww_step.induct)
     (auto simp: lww_wf_ops lww_exists_def case_prod_beta lww_flush_keys_eq lww_purge_eq lww_wf_filter
        lww_clear_def lww_wf_ops(5) [unfolded lww_flush_all_def])

lemma lww_reachable_wf: "lww_reachable s \<Longrightarrow> lww_wf s"
  by (induction rule: lww_reachable.induct) (auto simp: lww_wf_ops dest: lww_step_wf)

section \<open>Properties\<close>

text \<open>C7.
  Replicas converge: two stores that agree on every key's value, tombstone and timestamp, and that
  are handed the same set of timestamped writes and deletes, each in its own order, at its own
  clock readings and with any repetitions, agree again afterwards, as long as no two different
  writes of one key carry the same timestamp.
\<close>

theorem lww_convergence:
  assumes "set (written xs) = set (written ys)"
    and "\<forall>w \<in> set (written xs). \<forall>w' \<in> set (written xs). unique_stamps w w'"
    and "lww_reg s = lww_reg s'"
  shows "lww_reg (fold deliver xs s) = lww_reg (fold deliver ys s')"
  using reg.convergence [OF assms(1,2)] assms(3) by (simp add: lww_reg_fold)

theorem lww_convergence_witness:
  "lww_reg (fold deliver [(0, 0, WSet ''k'' (PInt 1) None 5), (1, 0, WDel ''k'' 7)] lww_init) =
   lww_reg (fold deliver [(9, 3, WDel ''k'' 7), (9, 3, WSet ''k'' (PInt 1) (Some 4) 5),
                          (9, 4, WDel ''k'' 7)] lww_init)"
  by (rule lww_convergence) (auto simp: written_def unique_stamps_def)

text \<open>
  The uniqueness of timestamps is needed: a store accepts a write whose timestamp equals the
  stored one, so two replicas that receive two writes of one key with equal timestamps in
  opposite orders end with different values and keep them.
\<close>

theorem lww_tie_diverges:
  assumes "v \<noteq> w"
  shows "lww_reg (fold deliver [(0, 0, WSet k v None t), (0, 0, WSet k w None t)] lww_init) \<noteq>
         lww_reg (fold deliver [(0, 0, WSet k w None t), (0, 0, WSet k v None t)] lww_init)"
proof -
  have "lww_reg (fold deliver [(0, 0, WSet k v None t), (0, 0, WSet k w None t)] lww_init) k = Some (t, Value w)"
    and "lww_reg (fold deliver [(0, 0, WSet k w None t), (0, 0, WSet k v None t)] lww_init) k = Some (t, Value v)"
    by (simp_all add: lww_set_def lww_init_def lww_reg_def Let_def)
  with assms show ?thesis by (metis option.inject prod.inject slot.inject)
qed

theorem lww_tie_diverges_witness:
  "lww_reg (fold deliver [(0, 0, WSet ''k'' (PInt 1) None 5), (0, 0, WSet ''k'' (PInt 2) None 5)] lww_init) \<noteq>
   lww_reg (fold deliver [(0, 0, WSet ''k'' (PInt 2) None 5), (0, 0, WSet ''k'' (PInt 1) None 5)] lww_init)"
  by (rule lww_tie_diverges) simp

text \<open>
  The last write wins: when a store has been handed writes and deletes without a time-to-live, in
  any order, and \<open>v\<close> is the value of the write of \<open>k\<close> with the strictly greatest timestamp,
  reading \<open>k\<close> returns \<open>v\<close> with that timestamp, at any later time.
\<close>

theorem lww_last_write_wins:
  assumes "\<forall>(_, _, w) \<in> set ds. \<not> has_ttl w"
    and "(k, t, Value v) \<in> set (written ds)"
    and "\<forall>t' c'. (k, t', c') \<in> set (written ds) \<longrightarrow> t' < t \<or> c' = Value v \<and> t' = t"
  shows "fst (lww_get_versioned now k (fold deliver ds lww_init)) = Some (v, t, False)"
proof -
  have ne: "no_expiry (fold deliver ds lww_init)"
    using assms(1) by (intro no_expiry_fold) (auto simp: no_expiry_def lww_init_def)
  have init: "lww_reg lww_init k = None" by (simp add: lww_reg_def lww_init_def)
  have "fold reg_put (written ds) (lww_reg lww_init) k \<noteq> None"
    using assms(2) by (rule fold_reg_put_Some)
  then obtain t1 c1 where r: "fold reg_put (written ds) (lww_reg lww_init) k = Some (t1, c1)" by auto
  from fold_reg_put_ge [OF r] init assms(2) have "t \<le> t1" "(k, t1, c1) \<in> set (written ds)" by auto
  with assms(3) have "t1 = t" "c1 = Value v" by force+
  with r show ?thesis using ne by (simp add: lww_version_reg lww_reg_fold)
qed

theorem lww_last_write_wins_witness:
  "fst (lww_get_versioned 8 ''k'' (fold deliver
     [(0, 0, WSet ''k'' (PInt 2) None 9), (1, 0, WDel ''k'' 7), (2, 0, WSet ''k'' (PInt 1) None 5)] lww_init))
   = Some (PInt 2, 9, False)"
  by (rule lww_last_write_wins) (auto simp: written_def)

text \<open>C13.
  A delete cannot be undone by an older write: once a tombstone is stored at timestamp \<open>td\<close>,
  then after any reads and background purges, at any times, a write with an older timestamp is
  refused, leaves the store as it is, and the key still reads as deleted.
\<close>

theorem lww_no_resurrection:
  assumes "lww_wf s"
    and "case lww_stamp s k of None \<Rightarrow> True | Some old \<Rightarrow> old \<le> td"
    and "s' = fold upkeep_step us (snd (lww_delete wall k (Some td) s))"
    and "ts < td"
  shows "lww_set now wall' k v ttl (Some ts) s' = (False, s')
    \<and> fst (lww_get now k s') = PNone \<and> fst (lww_get_versioned now k s') = Some (PNone, td, True)"
proof -
  have "map_of (lww_data (snd (lww_delete wall k (Some td) s))) k = Some (Tombstone, None, td)"
    using assms(2) by (simp add: lww_delete_lookup)
  then have "map_of (lww_data s') k = Some (Tombstone, None, td)"
    using upkeeps_keep_tombstone [OF lww_wf_ops(4) [OF assms(1)]] assms(3) by blast
  then show ?thesis
    using assms(4) by (simp add: lww_set_def lww_get_result lww_version_def Let_def)
qed

theorem lww_no_resurrection_witness:
  "lww_set 9 0 ''k'' (PInt 3) None (Some 6)
     (fold upkeep_step [Read 2 ''k'', Purge 3]
       (snd (lww_delete 0 ''k'' (Some 7) \<lparr>lww_data = [(''k'', Value (PInt 1), Some 2, 5)]\<rparr>)))
   = (False, fold upkeep_step [Read 2 ''k'', Purge 3]
       (snd (lww_delete 0 ''k'' (Some 7) \<lparr>lww_data = [(''k'', Value (PInt 1), Some 2, 5)]\<rparr>)))"
  using lww_no_resurrection [where s = "\<lparr>lww_data = [(''k'', Value (PInt 1), Some 2, 5)]\<rparr>" and k = "''k''"
      and td = 7 and us = "[Read 2 ''k'', Purge 3]" and wall = 0 and ts = 6, OF _ _ refl]
  by (simp add: lww_wf_def wf_dict_def lww_stamp_def)

text \<open>
  Expiry undoes the ordering: a write older than an expired entry is refused while the entry is
  still stored, but once any reader has looked at the key the entry and its timestamp are gone
  and the same stale write is accepted, so the outcome depends on whether somebody read in between.
\<close>

theorem lww_expiry_forgets_stamp:
  assumes "map_of (lww_data s) k = Some (Value v, Some x, t)" and "x < now" and "ts < t"
  shows "lww_set now wall k w None (Some ts) s = (False, s)
    \<and> fst (lww_set now wall k w None (Some ts) (snd (lww_get now k s)))
    \<and> fst (lww_get now k (snd (lww_set now wall k w None (Some ts) (snd (lww_get now k s))))) = w"
  using assms
  by (auto simp: lww_set_def lww_get_versioned_state lww_get_result lww_version_def overdue_def
      Let_def dict_simps)

theorem lww_expiry_forgets_stamp_witness:
  "lww_set 9 0 ''k'' (PInt 3) None (Some 6) \<lparr>lww_data = [(''k'', Value (PInt 1), Some 2, 7)]\<rparr> =
     (False, \<lparr>lww_data = [(''k'', Value (PInt 1), Some 2, 7)]\<rparr>)"
  using lww_expiry_forgets_stamp [of "\<lparr>lww_data = [(''k'', Value (PInt 1), Some 2, 7)]\<rparr>" "''k''"
      "PInt 1" 2 7 9 6 0 "PInt 3"] by simp

text \<open>
  Tombstones do not persist until the node restarts: flushing by pattern or flushing everything
  removes them with the live keys, after which a write older than the delete is accepted.
\<close>

theorem lww_flush_drops_tombstones:
  assumes "lww_wf s" and "map_of (lww_data s) k = Some (Tombstone, None, t)" and "sublist p k" and "ts < t"
  shows "\<exists>n s'. lww_flush_keys p s = Inr (n, s') \<and> lww_stamp s' k = None
    \<and> fst (lww_set now wall k v ttl (Some ts) s')
    \<and> fst (lww_set now wall k v ttl (Some ts) (lww_flush_all s))
    \<and> \<not> fst (lww_set now wall k v ttl (Some ts) s)"
  using assms
  by (simp add: lww_flush_keys_eq lww_set_accepts_iff lww_stamp_def lww_filter_lookup lww_flush_all_def)

theorem lww_flush_drops_tombstones_witness:
  "\<exists>n s'. lww_flush_keys ''k'' \<lparr>lww_data = [(''k1'', Tombstone, None, 7)]\<rparr> = Inr (n, s') \<and>
     fst (lww_set 0 0 ''k1'' (PInt 1) None (Some 6) s')"
proof -
  have "lww_wf \<lparr>lww_data = [(''k1'', Tombstone, None, 7)]\<rparr>"
    by (simp add: lww_wf_def wf_dict_def)
  from lww_flush_drops_tombstones [OF this, of "''k1''" 7 "''k''" 6 0 0 "PInt 1" None]
  show ?thesis by auto
qed

text \<open>
  Whatever methods have been called on a store, in whatever order and at whatever clock readings:
  \<open>purge_expired\<close> and \<open>flush_keys\<close> raise no \<open>KeyError\<close>, a purge changes no later
  listing or scan, a flush by pattern leaves exactly the other keys, \<open>keys\<close> lists each live
  key once, \<open>len\<close> counts the live keys, and \<open>scan\<close> returns exactly the live keys that
  contain the pattern with the values \<open>get\<close> returns.
\<close>

theorem lww_reachable_listings:
  assumes "lww_reachable s"
  shows "(\<exists>n s'. lww_purge_expired now s = Inr (n, s') \<and>
            (\<forall>now' \<ge> now. \<forall>p. set (lww_scan now' p s') = set (lww_scan now' p s)))
    \<and> (\<exists>n s'. lww_flush_keys p s = Inr (n, s') \<and> set (lww_keys now s') = {k \<in> set (lww_keys now s). \<not> sublist p k})
    \<and> lww_len now s = card (set (lww_keys now s)) \<and> distinct (lww_keys now s)
    \<and> set (lww_scan now p s) = {(k, fst (lww_get now k s)) | k. k \<in> set (lww_keys now s) \<and> sublist p k}"
proof -
  have wf: "lww_wf s" using assms by (rule lww_reachable_wf)
  obtain n s1 where p: "lww_purge_expired now s = Inr (n, s1)" using lww.purge_ok [OF wf] by blast
  obtain m s2 where f: "lww_flush_keys p s = Inr (m, s2)" using lww.flush_keys_ok [OF wf] by blast
  have "set (lww_scan now p s) = {(k, fst (lww_get now k s)) | k. k \<in> set (lww_keys now s) \<and> sublist p k}"
    using wf by (auto simp: lww.scan_view lww.keys_view lww.get_view)
  then show ?thesis
    using p f lww.purge_scan [OF wf p] lww.flush_keys_scan [OF wf f] lww.keys_distinct [OF wf]
    by (simp add: lww_len_def distinct_card)
qed

theorem lww_reachable_listings_witness:
  "distinct (lww_keys 5 (snd (lww_set 0 0 ''k'' (PInt 1) None None lww_init)))"
  using lww_reachable_listings [OF reach_step [OF reach_init step_set [of lww_init 0 0 "''k''" "PInt 1" None None]], of 5 "''k''"]
  by blast

end
