(* ===== verification/Member_Set.thy ===== *)
theory Member_Set
  imports Dls_Types
begin

text \<open>
  The contract shared by the two containers of peers a node keeps, the ring and the known peers of
  \<open>GossipDiscovery\<close>: a set with insertion and removal, listed without repetition.
\<close>

locale member_set =
  fixes invar :: "'s \<Rightarrow> bool"
    and add :: "'a \<Rightarrow> 's \<Rightarrow> 's"
    and remove :: "'a \<Rightarrow> 's \<Rightarrow> 's"
    and members :: "'s \<Rightarrow> 'a list"
  assumes members_add: "invar s \<Longrightarrow> set (members (add x s)) = insert x (set (members s))"
    and members_remove: "invar s \<Longrightarrow> set (members (remove x s)) = set (members s) - {x}"
    and members_distinct: "invar s \<Longrightarrow> distinct (members s)"
    and invar_add: "invar s \<Longrightarrow> invar (add x s)"
    and invar_remove: "invar s \<Longrightarrow> invar (remove x s)"
    and add_member: "x \<in> set (members s) \<Longrightarrow> add x s = s"
begin

lemma fold_add: "invar s \<Longrightarrow> invar (fold add xs s) \<and> set (members (fold add xs s)) = set xs \<union> set (members s)"
  by (induction xs arbitrary: s) (auto simp: invar_add members_add)

lemma fold_add_known: "set xs \<subseteq> set (members s) \<Longrightarrow> fold add xs s = s"
  by (induction xs arbitrary: s) (auto simp: add_member)

lemma length_add: "invar s \<Longrightarrow> x \<notin> set (members s) \<Longrightarrow> length (members (add x s)) = Suc (length (members s))"
  by (metis List.finite_set card_insert_disjoint distinct_card invar_add members_add members_distinct)

end

end
