(* ===== verification/Rendezvous.thy ===== *)
theory Rendezvous
  imports Member_Set "HOL-Library.Multiset"
begin

text \<open>
  \<open>dlstorage/ring\<close>: the \<open>Ring\<close> protocol as a locale and \<open>RendezvousRing\<close>, highest random
  weight hashing. The Python set of the members is a list without repetition, in the order in which they came in;
  the order in which Python iterates the set is another, and it decides among equally scored nodes only (without
  ties two rings with the same members rank every key alike, \<open>ring_agreement\<close>). The digest
  of \<open>hashlib.sha256\<close> is the parameter \<open>sha\<close>; no property rests on more than what is
  assumed of it by name.
\<close>

section \<open>The contract of Ring\<close>

lemma set_take_removeAll: "set (take n xs) - {x} \<subseteq> set (take n (removeAll x xs))"
proof (induction xs arbitrary: n)
  case (Cons y xs)
  show ?case
  proof (cases n)
    case (Suc m)
    have "set (take m (removeAll x xs)) \<subseteq> set (take (Suc m) (removeAll x xs))"
      by (rule set_take_subset_set_take) simp
    then show ?thesis using Cons.IH [of m] Suc by auto
  qed simp
qed simp

lemma take_removeAll_notin: "x \<notin> set (take n xs) \<Longrightarrow> take n (removeAll x xs) = take n xs"
proof (induction xs arbitrary: n)
  case (Cons y xs)
  then show ?case by (cases n) auto
qed simp

text \<open>\<open>rank\<close> is the full preference list of a key; \<open>get_nodes\<close> takes a slice of it.\<close>

locale ring_contract =
  member_set invar add remove nodes
  for invar :: "'r \<Rightarrow> bool"
    and add :: "NodeInfo \<Rightarrow> 'r \<Rightarrow> 'r"
    and remove :: "NodeInfo \<Rightarrow> 'r \<Rightarrow> 'r"
    and nodes :: "'r \<Rightarrow> NodeInfo list" +
  fixes get_node :: "string \<Rightarrow> 'r \<Rightarrow> NodeInfo option"
    and get_nodes :: "string \<Rightarrow> int \<Rightarrow> 'r \<Rightarrow> NodeInfo list"
    and rank :: "string \<Rightarrow> 'r \<Rightarrow> NodeInfo list"
  assumes rank_mset: "mset (rank key r) = mset (nodes r)"
    and rank_remove: "rank key (remove x r) = removeAll x (rank key r)"
    and rank_add: "x \<notin> set (nodes r) \<Longrightarrow> removeAll x (rank key (add x r)) = rank key r"
    and get_nodes_rank: "get_nodes key n r = py_take n (rank key r)"
    and get_node_rank: "get_node key r = (case rank key r of [] \<Rightarrow> None | x # _ \<Rightarrow> Some x)"
begin

lemma rank_set: "set (rank key r) = set (nodes r)"
  by (metis rank_mset set_mset_mset)

lemma rank_distinct: "invar r \<Longrightarrow> distinct (rank key r)"
  by (metis rank_mset mset_eq_imp_distinct_iff members_distinct)

lemma get_nodes_members: "set (get_nodes key n r) \<subseteq> set (nodes r)"
  by (metis get_nodes_rank py_take_prefix rank_set set_mono_prefix)

lemma get_members_distinct: "invar r \<Longrightarrow> distinct (get_nodes key n r)"
  by (metis distinct_append get_nodes_rank prefix_def py_take_prefix rank_distinct)

lemma get_nodes_length: "0 \<le> n \<Longrightarrow> length (get_nodes key n r) = min (nat n) (length (nodes r))"
  by (simp add: get_nodes_rank py_take_def min.commute) (metis rank_mset size_mset)

lemma get_nodes_prefix: "0 \<le> m \<Longrightarrow> m \<le> n \<Longrightarrow> prefix (get_nodes key m r) (get_nodes key n r)"
  by (simp add: get_nodes_rank py_take_def)
     (metis min.absorb1 nat_mono take_is_prefix take_take)

lemma get_node_primary:
  "get_node key r = (if nodes r = [] then None else Some (hd (get_nodes key 1 r)))"
proof -
  have "rank key r = [] \<longleftrightarrow> nodes r = []" by (metis rank_mset mset_zero_iff)
  then show ?thesis
    by (cases "rank key r") (auto simp: get_node_rank get_nodes_rank py_take_def)
qed

lemma leave_keeps: "0 \<le> n \<Longrightarrow> set (get_nodes key n r) - {x} \<subseteq> set (get_nodes key n (remove x r))"
  using set_take_removeAll by (simp add: get_nodes_rank rank_remove py_take_def)

lemma leave_elsewhere: "0 \<le> n \<Longrightarrow> x \<notin> set (get_nodes key n r) \<Longrightarrow>
    get_nodes key n (remove x r) = get_nodes key n r"
proof -
  assume "0 \<le> n" "x \<notin> set (get_nodes key n r)"
  then show ?thesis
    using take_removeAll_notin by (simp add: get_nodes_rank rank_remove py_take_def)
qed

lemma join_moves_to_joiner:
  assumes "0 \<le> n"
  shows "set (get_nodes key n (add x r)) \<subseteq> insert x (set (get_nodes key n r))"
proof (cases "x \<in> set (nodes r)")
  case False
  then show ?thesis
    using set_take_removeAll [of "nat n" "rank key (add x r)" x] assms
    by (auto simp: get_nodes_rank py_take_def rank_add)
qed (auto simp: add_member)

end

section \<open>RendezvousRing\<close>

definition rr_score :: "(string \<Rightarrow> byte list) \<Rightarrow> NodeInfo \<Rightarrow> string \<Rightarrow> nat" where
  "rr_score sha node key = from_bytes_big (sha (node_address node @ '':'' @ key))"

record RendezvousRing =
  rr_nodes :: "NodeInfo list"

definition rr_init :: RendezvousRing where
  "rr_init = \<lparr>rr_nodes = []\<rparr>"

definition rr_add :: "NodeInfo \<Rightarrow> RendezvousRing \<Rightarrow> RendezvousRing" where
  "rr_add node r = (if node \<in> set (rr_nodes r) then r else r\<lparr>rr_nodes := rr_nodes r @ [node]\<rparr>)"

definition rr_remove :: "NodeInfo \<Rightarrow> RendezvousRing \<Rightarrow> RendezvousRing" where
  "rr_remove node r = r\<lparr>rr_nodes := removeAll node (rr_nodes r)\<rparr>"

text \<open>\<open>max(xs, key=f)\<close> keeps the first maximum; \<open>sorted(xs, key=f, reverse=True)\<close> is stable.\<close>

fun py_max_from :: "('a \<Rightarrow> nat) \<Rightarrow> 'a \<Rightarrow> 'a list \<Rightarrow> 'a" where
  "py_max_from f best [] = best"
| "py_max_from f best (x # xs) = py_max_from f (if f x > f best then x else best) xs"

definition py_sorted_desc :: "('a \<Rightarrow> nat) \<Rightarrow> 'a list \<Rightarrow> 'a list" where
  "py_sorted_desc f xs = sort_key (\<lambda>x. - int (f x)) xs"

definition rr_get_node :: "(string \<Rightarrow> byte list) \<Rightarrow> string \<Rightarrow> RendezvousRing \<Rightarrow> NodeInfo option" where
  "rr_get_node sha key r =
     (case rr_nodes r of
        [] \<Rightarrow> None
      | x # xs \<Rightarrow> Some (py_max_from (\<lambda>n. rr_score sha n key) x xs))"

definition rr_get_nodes :: "(string \<Rightarrow> byte list) \<Rightarrow> string \<Rightarrow> int \<Rightarrow> RendezvousRing \<Rightarrow> NodeInfo list" where
  "rr_get_nodes sha key n r =
     (if rr_nodes r = [] then []
      else let ranked = py_sorted_desc (\<lambda>node. rr_score sha node key) (rr_nodes r) in py_take n ranked)"

definition rr_len :: "RendezvousRing \<Rightarrow> nat" where
  "rr_len r = length (rr_nodes r)"

definition rr_wf :: "RendezvousRing \<Rightarrow> bool" where
  "rr_wf r \<longleftrightarrow> distinct (rr_nodes r)"

definition rr_rank :: "(string \<Rightarrow> byte list) \<Rightarrow> string \<Rightarrow> RendezvousRing \<Rightarrow> NodeInfo list" where
  "rr_rank sha key r = py_sorted_desc (\<lambda>node. rr_score sha node key) (rr_nodes r)"

lemma insort_key_hd:
  "xs \<noteq> [] \<Longrightarrow> hd (insort_key f x xs) = (if f x \<le> f (hd xs) then x else hd xs)"
  by (cases xs) auto

lemma insort_key_nonempty: "insort_key f x xs \<noteq> []"
  by (cases xs) auto

text \<open>The first maximum heads the stable descending order.\<close>

lemma py_sorted_desc_hd: "hd (py_sorted_desc f (x # xs)) = py_max_from f x xs"
proof -
  have gen: "py_max_from f b xs = (if xs = [] then b
      else if f (hd (py_sorted_desc f xs)) > f b then hd (py_sorted_desc f xs) else b)" for b
  proof (induction xs arbitrary: b)
    case (Cons y ys)
    have "sort_key (\<lambda>x. - int (f x)) ys \<noteq> []" if "ys \<noteq> []"
      using that by (metis length_0_conv length_sort)
    then show ?case
      using Cons.IH [of b] Cons.IH [of y]
      by (cases "ys = []") (auto simp: py_sorted_desc_def insort_key_hd)
  qed simp
  show ?thesis
  proof (cases "xs = []")
    case False
    then have "sort_key (\<lambda>x. - int (f x)) xs \<noteq> []" by (metis length_0_conv length_sort)
    then show ?thesis
      using gen [of x] False by (auto simp: py_sorted_desc_def insort_key_hd)
  qed (simp add: py_sorted_desc_def)
qed

lemma filter_py_sorted_desc: "removeAll x (py_sorted_desc f xs) = py_sorted_desc f (removeAll x xs)"
  by (simp add: py_sorted_desc_def removeAll_filter_not_eq filter_sort)

lemma mset_py_sorted_desc: "mset (py_sorted_desc f xs) = mset xs"
  by (simp add: py_sorted_desc_def)

interpretation rr: ring_contract rr_wf rr_add rr_remove rr_nodes "rr_get_node sha" "rr_get_nodes sha"
  "rr_rank sha" for sha
proof (unfold_locales, goal_cases)
  case (10 key n r)
  then show ?case by (simp add: rr_get_nodes_def rr_rank_def py_sorted_desc_def py_take_def)
next
  case (11 key r)
  show ?case
  proof (cases "rr_nodes r")
    case (Cons x xs)
    then have "rr_rank sha key r \<noteq> []"
      by (metis rr_rank_def py_sorted_desc_def length_0_conv length_sort list.simps(3))
    then show ?thesis
      using py_sorted_desc_hd [of "\<lambda>n. rr_score sha n key" x xs] Cons
      by (auto simp: rr_get_node_def rr_rank_def split: list.splits)
  qed (simp add: rr_get_node_def rr_rank_def py_sorted_desc_def)
qed (auto simp: rr_add_def rr_remove_def rr_wf_def rr_rank_def filter_py_sorted_desc
    distinct_removeAll mset_py_sorted_desc)

section \<open>Scores and agreement\<close>

lemma rr_score_bound: "length (sha (node_address n @ '':'' @ key)) = 32 \<Longrightarrow> rr_score sha n key < 2 ^ 256"
  using from_bytes_big_bound [of "sha (node_address n @ '':'' @ key)"]
  by (simp add: rr_score_def)

lemma py_sorted_desc_sorted: "sorted_wrt (\<lambda>x y. f y \<le> f x) (py_sorted_desc f xs)"
  using sorted_sort_key [of "\<lambda>x. - int (f x)" xs] by (simp add: py_sorted_desc_def sorted_map)

lemma rr_rank_sorted: "sorted_wrt (\<lambda>a b. rr_score sha b key \<le> rr_score sha a key) (rr_rank sha key r)"
  by (simp add: rr_rank_def py_sorted_desc_sorted)

lemma rr_rank_agree:
  assumes "rr_wf r" and "rr_wf r'" and "set (rr_nodes r) = set (rr_nodes r')"
    and "inj_on (\<lambda>n. rr_score sha n key) (set (rr_nodes r))"
  shows "rr_rank sha key r = rr_rank sha key r'"
  unfolding rr_rank_def py_sorted_desc_def
proof (rule sort_key_inj_key_eq)
  show "mset (rr_nodes r) = mset (sort_key (\<lambda>x. - int (rr_score sha x key)) (rr_nodes r'))"
    using assms(1-3) by (simp add: rr_wf_def set_eq_iff_mset_eq_distinct)
  show "inj_on (\<lambda>x. - int (rr_score sha x key)) (set (rr_nodes r))"
    using assms(4) by (simp add: inj_on_def)
  show "sorted (map (\<lambda>x. - int (rr_score sha x key))
          (sort_key (\<lambda>x. - int (rr_score sha x key)) (rr_nodes r')))"
    by simp
qed

text \<open>A ring in use: members join and leave in any order.\<close>

datatype ring_op = Join NodeInfo | Leave NodeInfo

fun ring_step :: "ring_op \<Rightarrow> RendezvousRing \<Rightarrow> RendezvousRing" where
  "ring_step (Join x) r = rr_add x r"
| "ring_step (Leave x) r = rr_remove x r"

definition ring_run :: "ring_op list \<Rightarrow> RendezvousRing" where
  "ring_run ops = fold ring_step ops rr_init"

lemma rr_wf_run [wf_intros]: "rr_wf (ring_run ops)"
proof -
  have "rr_wf (fold ring_step ops r)" if "rr_wf r" for r
    using that
  proof (induction ops arbitrary: r)
    case (Cons p ops)
    then show ?case by (cases p) (auto intro: rr.invar_add rr.invar_remove)
  qed simp
  then show ?thesis by (simp add: ring_run_def rr_init_def rr_wf_def)
qed

section \<open>Properties\<close>

text \<open>C20.
  The replicas of a key are its \<open>n\<close> best-scored members: after any joins and leaves,
  \<open>get_nodes\<close> returns distinct members of the ring, \<open>n\<close> of them or all when there are
  fewer, in descending score order, no member left out scores higher than one chosen, asking for
  fewer replicas gives a prefix, and \<open>get_node\<close> is the first of them.
\<close>

theorem ring_replicas:
  assumes "r = ring_run ops" and "0 \<le> m" and "m \<le> n" and "ns = rr_get_nodes sha key n r"
  shows "distinct ns \<and> set ns \<subseteq> set (rr_nodes r) \<and> length ns = min (nat n) (rr_len r)
    \<and> sorted_wrt (\<lambda>a b. rr_score sha b key \<le> rr_score sha a key) ns
    \<and> (\<forall>a \<in> set ns. \<forall>b \<in> set (rr_nodes r) - set ns. rr_score sha b key \<le> rr_score sha a key)
    \<and> prefix (rr_get_nodes sha key m r) ns
    \<and> rr_get_node sha key r = (if rr_nodes r = [] then None else Some (hd (rr_get_nodes sha key 1 r)))"
proof -
  have wf: "rr_wf r" using assms(1) by (simp add: rr_wf_run)
  obtain ms where ms: "rr_rank sha key r = ns @ ms"
    using assms(4) rr.get_nodes_rank py_take_prefix by (metis prefixE)
  have split: "sorted_wrt (\<lambda>a b. rr_score sha b key \<le> rr_score sha a key) (ns @ ms)"
    using rr_rank_sorted [where sha = sha] ms by metis
  then have "\<forall>a \<in> set ns. \<forall>b \<in> set (rr_nodes r) - set ns. rr_score sha b key \<le> rr_score sha a key"
    using rr.rank_set [of sha key r] ms by (auto simp: sorted_wrt_append)
  then show ?thesis
    using assms split wf rr.get_members_distinct [OF wf] rr.get_nodes_members rr.get_nodes_length [of n]
      rr.get_nodes_prefix [of m n] rr.get_node_primary
    by (simp add: sorted_wrt_append rr_len_def)
qed

theorem ring_replicas_witness:
  "length (rr_get_nodes (\<lambda>s. [word_of_nat (length s)]) ''k'' 2
     (ring_run [Join \<lparr>host = ''a'', port = 1\<rparr>, Join \<lparr>host = ''bb'', port = 1\<rparr>, Join \<lparr>host = ''c'', port = 1\<rparr>])) = 2"
  using ring_replicas [OF refl _ _ refl, of 1 2 "\<lambda>s. [word_of_nat (length s)]" "''k''"
    "[Join \<lparr>host = ''a'', port = 1\<rparr>, Join \<lparr>host = ''bb'', port = 1\<rparr>, Join \<lparr>host = ''c'', port = 1\<rparr>]"]
  by (simp add: ring_run_def rr_init_def rr_add_def rr_len_def)

text \<open>C21.
  A membership change moves as little as possible: when a member leaves, every other replica of a
  key stays a replica, and a key the member did not hold keeps its replica list unchanged; when a
  member joins, the joiner is the only node that can become a new replica of any key.
\<close>

theorem ring_minimal_disruption:
  assumes "0 \<le> n"
  shows "set (rr_get_nodes sha key n r) - {x} \<subseteq> set (rr_get_nodes sha key n (rr_remove x r))
    \<and> (x \<in> set (rr_get_nodes sha key n r) \<or>
       rr_get_nodes sha key n (rr_remove x r) = rr_get_nodes sha key n r)
    \<and> set (rr_get_nodes sha key n (rr_add x r)) \<subseteq> insert x (set (rr_get_nodes sha key n r))"
  using rr.leave_elsewhere [OF assms, of x sha key r]
  by (intro conjI rr.leave_keeps [OF assms] rr.join_moves_to_joiner [OF assms]) fast

theorem ring_minimal_disruption_witness:
  "set (rr_get_nodes (\<lambda>s. [1]) ''k'' 2 (rr_add \<lparr>host = ''d'', port = 1\<rparr> (ring_run [Join \<lparr>host = ''a'', port = 1\<rparr>])))
   \<subseteq> {\<lparr>host = ''d'', port = 1\<rparr>, \<lparr>host = ''a'', port = 1\<rparr>}"
proof -
  have "rr_get_nodes (\<lambda>s. [1]) ''k'' 2 (ring_run [Join \<lparr>host = ''a'', port = 1\<rparr>]) = [\<lparr>host = ''a'', port = 1\<rparr>]"
    by (simp add: ring_run_def rr_init_def rr_add_def rr_get_nodes_def py_sorted_desc_def py_take_def)
  with ring_minimal_disruption [of 2 "\<lambda>s. [1]" "''k''" "ring_run [Join \<lparr>host = ''a'', port = 1\<rparr>]" "\<lparr>host = ''d'', port = 1\<rparr>"]
  show ?thesis by simp
qed

text \<open>
  Nodes agree on placement without coordination: two rings with the same members, reached by any
  different histories of joins and leaves and whatever the iteration order of their sets, choose
  the same primary and the same replicas in the same order for every key, unless two members have
  equal scores for it.
\<close>

theorem ring_agreement:
  assumes "set (rr_nodes (ring_run ops)) = set (rr_nodes (ring_run ops'))"
    and "inj_on (\<lambda>x. rr_score sha x key) (set (rr_nodes (ring_run ops)))"
  shows "rr_get_nodes sha key n (ring_run ops) = rr_get_nodes sha key n (ring_run ops')
    \<and> rr_get_node sha key (ring_run ops) = rr_get_node sha key (ring_run ops')"
  using rr_rank_agree [OF rr_wf_run rr_wf_run assms]
  by (simp add: rr.get_nodes_rank rr.get_node_rank)

theorem ring_agreement_witness:
  "rr_get_nodes (\<lambda>s. [word_of_nat (of_char (hd s))]) ''k'' 1
     (ring_run [Join \<lparr>host = ''a'', port = 1\<rparr>, Join \<lparr>host = ''b'', port = 1\<rparr>]) =
   rr_get_nodes (\<lambda>s. [word_of_nat (of_char (hd s))]) ''k'' 1
     (ring_run [Join \<lparr>host = ''c'', port = 1\<rparr>, Join \<lparr>host = ''b'', port = 1\<rparr>,
                Join \<lparr>host = ''a'', port = 1\<rparr>, Leave \<lparr>host = ''c'', port = 1\<rparr>])"
proof -
  let ?sha = "\<lambda>s. [word_of_nat (of_char (hd s))]" and ?ops = "[Join \<lparr>host = ''a'', port = 1\<rparr>, Join \<lparr>host = ''b'', port = 1\<rparr>]"
  let ?ops' = "[Join \<lparr>host = ''c'', port = 1\<rparr>, Join \<lparr>host = ''b'', port = 1\<rparr>,
                Join \<lparr>host = ''a'', port = 1\<rparr>, Leave \<lparr>host = ''c'', port = 1\<rparr>]"
  have nodes: "rr_nodes (ring_run ?ops) = [\<lparr>host = ''a'', port = 1\<rparr>, \<lparr>host = ''b'', port = 1\<rparr>]"
    "rr_nodes (ring_run ?ops') = [\<lparr>host = ''b'', port = 1\<rparr>, \<lparr>host = ''a'', port = 1\<rparr>]"
    by (simp_all add: ring_run_def rr_init_def rr_add_def rr_remove_def)
  have score: "rr_score ?sha \<lparr>host = c # h, port = p\<rparr> key = unat (word_of_nat (of_char c) :: byte)" for c h p key
    by (simp add: rr_score_def node_address_def from_bytes_big_def)
  have "inj_on (\<lambda>x. rr_score ?sha x ''k'') (set (rr_nodes (ring_run ?ops)))"
    by (simp add: nodes score)
  then show ?thesis by (intro ring_agreement [THEN conjunct1]) (auto simp: nodes)
qed

end
