(* ===== verification/Consistency.thy ===== *)
theory Consistency
  imports Lww_Store
begin

text \<open>
  \<open>dlstorage/consistency\<close>: the read resolvers. A replica handle's \<open>get_versioned\<close> is a
  function of the key and of the world it acts on (the local store, the connections, the stores
  behind them); it may raise. \<open>asyncio.gather\<close> runs its tasks in an order the event loop
  chooses, an argument of the model, and returns the results by position.
\<close>

type_synonym 'w handle_read = "string \<Rightarrow> 'w \<Rightarrow> versioned option res \<times> 'w"

section \<open>LWW\<close>

text \<open>The loop over the handles: an exception counts as no answer.\<close>

fun lww_collect :: "string \<Rightarrow> 'w handle_read list \<Rightarrow> 'w \<Rightarrow> versioned option list \<times> 'w" where
  "lww_collect key [] w = ([], w)"
| "lww_collect key (h # hs) w =
     (case h key w of (r, w') \<Rightarrow>
        let r' = (case r of Inl _ \<Rightarrow> None | Inr x \<Rightarrow> x)
        in case lww_collect key hs w' of (rs, w'') \<Rightarrow> (r' # rs, w''))"

text \<open>The second loop: \<open>best_value, best_ts, best_tombstone\<close>.\<close>

fun lww_best :: "versioned \<Rightarrow> versioned option list \<Rightarrow> versioned" where
  "lww_best best [] = best"
| "lww_best best (None # rs) = lww_best best rs"
| "lww_best (bv, bt, bd) (Some (v, ts, d) # rs) =
     (if ts > bt then lww_best (v, ts, d) rs else lww_best (bv, bt, bd) rs)"

definition lww_answer :: "versioned option list \<Rightarrow> pyval" where
  "lww_answer rs =
     (case lww_best (PNone, - 1, False) rs of
        (bv, bt, bd) \<Rightarrow> if bt < 0 \<or> bd then PNone else bv)"

definition lww_read_resolve :: "string \<Rightarrow> 'w handle_read list \<Rightarrow> 'w \<Rightarrow> pyval \<times> 'w" where
  "lww_read_resolve key hs w =
     (case lww_collect key hs w of (results, w') \<Rightarrow> (lww_answer results, w'))"

section \<open>FHW\<close>

fun fhw_read_resolve :: "string \<Rightarrow> 'w handle_read list \<Rightarrow> 'w \<Rightarrow> pyval \<times> 'w" where
  "fhw_read_resolve key [] w = (PNone, w)"
| "fhw_read_resolve key (h # hs) w =
     (case h key w of
        (Inr (Some (v, _, is_tombstone)), w') \<Rightarrow>
          if \<not> is_tombstone then (v, w') else fhw_read_resolve key hs w'
      | (Inr None, w') \<Rightarrow> fhw_read_resolve key hs w'
      | (Inl _, w') \<Rightarrow> fhw_read_resolve key hs w')"

text \<open>\<open>AsyncFHW\<close> awaits one handle after the other: the same loop.\<close>

definition async_fhw_read_resolve :: "string \<Rightarrow> 'w handle_read list \<Rightarrow> 'w \<Rightarrow> pyval \<times> 'w" where
  "async_fhw_read_resolve = fhw_read_resolve"

section \<open>asyncio.gather and AsyncLWW\<close>

text \<open>
  \<open>gather sched tasks\<close>: the tasks run to completion one after the other in the order
  \<open>sched\<close> of their indices; the result of task \<open>i\<close> is stored at position \<open>i\<close>.
\<close>

fun gather_run :: "nat list \<Rightarrow> ('w \<Rightarrow> 'a \<times> 'w) list \<Rightarrow> 'a option list \<Rightarrow> 'w \<Rightarrow> 'a option list \<times> 'w" where
  "gather_run [] tasks rs w = (rs, w)"
| "gather_run (i # is) tasks rs w =
     (case (tasks ! i) w of (r, w') \<Rightarrow> gather_run is tasks (rs[i := Some r]) w')"

definition gather :: "nat list \<Rightarrow> ('w \<Rightarrow> 'a \<times> 'w) list \<Rightarrow> 'w \<Rightarrow> 'a option list \<times> 'w" where
  "gather sched tasks w = gather_run sched tasks (replicate (length tasks) None) w"

definition schedule :: "nat \<Rightarrow> nat list \<Rightarrow> bool" where
  "schedule n sched \<longleftrightarrow> distinct sched \<and> set sched = {0..<n}"

text \<open>The wrapper coroutine catches every exception of its handle.\<close>

definition async_guard :: "string \<Rightarrow> 'w handle_read \<Rightarrow> 'w \<Rightarrow> versioned option res \<times> 'w" where
  "async_guard key h w =
     (case h key w of (Inl _, w') \<Rightarrow> (Inr None, w') | (Inr r, w') \<Rightarrow> (Inr r, w'))"

text \<open>\<open>isinstance(r, BaseException) or r is None\<close> is skipped.\<close>

definition async_lww_read_resolve :: "nat list \<Rightarrow> string \<Rightarrow> 'w handle_read list \<Rightarrow> 'w \<Rightarrow> pyval \<times> 'w" where
  "async_lww_read_resolve sched key hs w =
     (case gather sched (map (async_guard key) hs) w of
        (results, w') \<Rightarrow>
          (lww_answer (map (\<lambda>r. case r of Some (Inr x) \<Rightarrow> x | _ \<Rightarrow> None) results), w'))"

section \<open>What the loops compute\<close>

lemma lww_best_skip:
  "\<forall>v t d. Some (v, t, d) \<in> set rs \<longrightarrow> t \<le> bt \<Longrightarrow> lww_best (bv, bt, bd) rs = (bv, bt, bd)"
proof (induction rs)
  case (Cons r rs)
  then show ?case by (cases r) fastforce+
qed simp

lemma lww_best_first_max:
  assumes "\<forall>v' t' d'. Some (v', t', d') \<in> set us \<longrightarrow> t' < t" and "bt < t"
    and "\<forall>v' t' d'. Some (v', t', d') \<in> set vs \<longrightarrow> t' \<le> t"
  shows "lww_best (bv, bt, bd) (us @ Some (v, t, d) # vs) = (v, t, d)"
  using assms(1,2)
proof (induction us arbitrary: bv bt bd)
  case Nil
  then show ?case using assms(3) by (simp add: lww_best_skip)
next
  case (Cons r us)
  show ?case
  proof (cases r)
    case None
    then show ?thesis using Cons by simp
  next
    case (Some x)
    obtain v' t' d' where x: "x = (v', t', d')" by (cases x)
    with Cons.prems Some have "t' < t" by auto
    then show ?thesis using Cons Some x by simp
  qed
qed

lemma first_max_split:
  fixes rs :: "versioned option list"
  assumes "Some (v, t, d) \<in> set rs"
  obtains us v' t' d' vs where "rs = us @ Some (v', t', d') # vs"
    and "\<forall>x y z. Some (x, y, z) \<in> set us \<longrightarrow> y < t'"
    and "\<forall>x y z. Some (x, y, z) \<in> set vs \<longrightarrow> y \<le> t'" and "t \<le> t'"
proof -
  let ?ts = "{t. \<exists>v d. Some (v, t, d) \<in> set rs}"
  have "?ts \<subseteq> (\<lambda>r. case r of None \<Rightarrow> 0 | Some (_, t, _) \<Rightarrow> t) ` set rs"
    by (force simp: image_iff)
  then have fin: "finite ?ts" by (meson List.finite_set finite_imageI finite_subset)
  define m where "m = Max ?ts"
  have "t \<in> ?ts" using assms by auto
  then have "m \<in> ?ts" unfolding m_def using fin by (metis (no_types, lifting) Max_in empty_iff)
  moreover have "\<forall>y \<in> ?ts. y \<le> m" using fin by (simp add: m_def)
  ultimately have m: "m \<in> ?ts" "\<forall>y \<in> ?ts. y \<le> m" by blast+
  then have "\<exists>r \<in> set rs. \<exists>v d. r = Some (v, m, d)" by auto
  from split_list_first_prop [OF this]
  obtain us r vs where rs: "rs = us @ r # vs" "\<exists>v d. r = Some (v, m, d)"
    "\<forall>r' \<in> set us. \<not> (\<exists>v d. r' = Some (v, m, d))"
    by blast
  from rs(2) obtain v' d' where r: "r = Some (v', m, d')" by auto
  show thesis
  proof (rule that [of us v' m d' vs])
    show "rs = us @ Some (v', m, d') # vs" using rs(1) r by simp
    show "\<forall>x y z. Some (x, y, z) \<in> set us \<longrightarrow> y < m"
    proof (intro allI impI)
      fix x y z assume u: "Some (x, y, z) \<in> set us"
      then have "y \<in> ?ts" using rs(1) by auto
      moreover have "y \<noteq> m" using rs(3) u by blast
      ultimately show "y < m" using m(2) by force
    qed
    show "\<forall>x y z. Some (x, y, z) \<in> set vs \<longrightarrow> y \<le> m" using m(2) rs(1) by auto
    show "t \<le> m" using m(2) \<open>t \<in> ?ts\<close> by blast
  qed
qed

lemma lww_answer_first_max:
  assumes "\<forall>v' t' d'. Some (v', t', d') \<in> set us \<longrightarrow> t' < t" and "0 \<le> t"
    and "\<forall>v' t' d'. Some (v', t', d') \<in> set vs \<longrightarrow> t' \<le> t"
  shows "lww_answer (us @ Some (v, t, d) # vs) = (if d then PNone else v)"
  using assms lww_best_first_max [of us t "- 1" vs PNone False v d] by (simp add: lww_answer_def)

lemma lww_answer_none:
  assumes "\<forall>v t d. Some (v, t, d) \<in> set rs \<longrightarrow> t < 0"
  shows "lww_answer rs = PNone"
  using assms lww_best_skip [of rs "- 1" PNone False] by (force simp: lww_answer_def)

text \<open>
  The answer depends only on the winning version when versions with equal timestamps are equal.
\<close>

lemma lww_answer_winner:
  assumes "Some (v, t, d) \<in> set rs" and "0 \<le> t"
    and "\<forall>v' t' d'. Some (v', t', d') \<in> set rs \<longrightarrow> t' < t \<or> (v', t', d') = (v, t, d)"
  shows "lww_answer rs = (if d then PNone else v)"
proof -
  from assms(1) obtain us v' t' d' vs where rs: "rs = us @ Some (v', t', d') # vs"
    and us: "\<forall>x y z. Some (x, y, z) \<in> set us \<longrightarrow> y < t'"
    and vs: "\<forall>x y z. Some (x, y, z) \<in> set vs \<longrightarrow> y \<le> t'" and t: "t \<le> t'"
    by (rule first_max_split)
  have "(v', t', d') = (v, t, d)" using assms(3) rs t by force
  with us vs assms(2) show ?thesis by (simp add: rs lww_answer_first_max)
qed

lemma lww_collect_length: "length (fst (lww_collect key hs w)) = length hs"
  by (induction hs arbitrary: w) (auto simp: Let_def case_prod_beta)

text \<open>
  Reads are stable under \<open>P\<close> when in every world satisfying \<open>P\<close> handle \<open>i\<close> answers
  \<open>val i\<close> and leaves \<open>P\<close> true: then no order of the reads matters.
\<close>

definition stable_reads :: "('w \<Rightarrow> bool) \<Rightarrow> string \<Rightarrow> 'w handle_read list \<Rightarrow> versioned option res list \<Rightarrow> bool" where
  "stable_reads P key hs vals \<longleftrightarrow>
     length vals = length hs \<and>
     (\<forall>i < length hs. \<forall>w. P w \<longrightarrow> fst ((hs ! i) key w) = vals ! i \<and> P (snd ((hs ! i) key w)))"

definition answer_of :: "versioned option res \<Rightarrow> versioned option" where
  "answer_of r = (case r of Inl _ \<Rightarrow> None | Inr x \<Rightarrow> x)"

lemma stable_reads_Cons:
  "stable_reads P key (h # hs) (v # vs) \<longleftrightarrow>
     (\<forall>w. P w \<longrightarrow> fst (h key w) = v \<and> P (snd (h key w))) \<and> stable_reads P key hs vs"
  by (auto simp: stable_reads_def nth_Cons All_less_Suc2 split: nat.splits)

lemma lww_collect_stable:
  "stable_reads P key hs vals \<Longrightarrow> P w \<Longrightarrow>
   fst (lww_collect key hs w) = map answer_of vals \<and> P (snd (lww_collect key hs w))"
proof (induction hs arbitrary: vals w)
  case Nil
  then show ?case by (simp add: stable_reads_def)
next
  case (Cons h hs)
  then obtain v vs where vals: "vals = v # vs" by (cases vals) (auto simp: stable_reads_def)
  with Cons.prems have h: "fst (h key w) = v" "P (snd (h key w))" and hs: "stable_reads P key hs vs"
    by (auto simp: stable_reads_Cons)
  from Cons.IH [OF hs h(2)] h show ?case
    by (auto simp: vals answer_of_def case_prod_beta Let_def)
qed

lemma gather_run_stable:
  assumes "\<forall>i < length tasks. \<forall>w. P w \<longrightarrow> fst ((tasks ! i) w) = val i \<and> P (snd ((tasks ! i) w))"
    and "set is \<subseteq> {0..<length tasks}" and "P w" and "length rs = length tasks"
  shows "fst (gather_run is tasks rs w) =
           map (\<lambda>j. if j \<in> set is then Some (val j) else rs ! j) [0..<length tasks]
         \<and> P (snd (gather_run is tasks rs w))"
  using assms(2-4)
proof (induction "is" arbitrary: rs w)
  case Nil
  then have "map (\<lambda>j. rs ! j) [0..<length tasks] = rs" by (metis map_nth)
  with Nil show ?case by simp
next
  case (Cons i "is")
  then have i: "fst ((tasks ! i) w) = val i" "P (snd ((tasks ! i) w))" using assms(1) by auto
  have "fst (gather_run is tasks (rs[i := Some (val i)]) (snd ((tasks ! i) w))) =
      map (\<lambda>j. if j \<in> set is then Some (val j) else rs[i := Some (val i)] ! j) [0..<length tasks]
    \<and> P (snd (gather_run is tasks (rs[i := Some (val i)]) (snd ((tasks ! i) w))))"
    using Cons i by simp
  then show ?case
    using Cons.prems i by (auto simp: case_prod_beta nth_list_update intro!: map_cong)
qed

lemma gather_stable:
  assumes "\<forall>i < length tasks. \<forall>w. P w \<longrightarrow> fst ((tasks ! i) w) = val i \<and> P (snd ((tasks ! i) w))"
    and "schedule (length tasks) sched" and "P w"
  shows "fst (gather sched tasks w) = map (Some \<circ> val) [0..<length tasks] \<and> P (snd (gather sched tasks w))"
  using gather_run_stable [OF assms(1), of sched w "replicate (length tasks) None"] assms(2,3)
  by (auto simp: gather_def schedule_def)

lemma async_lww_stable:
  assumes "stable_reads P key hs vals" and "P w" and "schedule (length hs) sched"
  shows "fst (async_lww_read_resolve sched key hs w) = fst (lww_read_resolve key hs w)"
proof -
  let ?val = "\<lambda>i. Inr (answer_of (vals ! i)) :: versioned option res"
  have tasks: "\<forall>i < length (map (async_guard key) hs). \<forall>w. P w \<longrightarrow>
      fst ((map (async_guard key) hs ! i) w) = ?val i \<and> P (snd ((map (async_guard key) hs ! i) w))"
    using assms(1) by (fastforce simp: stable_reads_def async_guard_def answer_of_def case_prod_beta
        split: sum.splits prod.splits)
  have "fst (gather sched (map (async_guard key) hs) w) = map (Some \<circ> ?val) [0..<length hs]"
    using gather_stable [OF tasks _ assms(2), of sched] assms(3) by simp
  moreover have "map (\<lambda>i. answer_of (vals ! i)) [0..<length hs] = map answer_of vals"
    using assms(1) by (auto simp: stable_reads_def intro: nth_equalityI)
  ultimately show ?thesis
    using lww_collect_stable [OF assms(1,2)]
    by (simp add: async_lww_read_resolve_def lww_read_resolve_def case_prod_beta comp_def)
qed

section \<open>Properties\<close>

text \<open>
  \<open>LWW.read_resolve\<close> asks every replica and returns the value of the answer with the greatest
  timestamp, the first such in ring order, or \<open>None\<close> when that answer is a tombstone;
  replicas that raise or have no entry count for nothing, and when no answer with a timestamp at
  or above zero arrives the result is \<open>None\<close>. The two cases cover every list of answers.
\<close>

theorem lww_resolver_newest:
  assumes "stable_reads P key hs vals" and "P w"
  shows "(\<exists>us v t d vs. map answer_of vals = us @ Some (v, t, d) # vs \<and> 0 \<le> t
             \<and> (\<forall>v' t' d'. Some (v', t', d') \<in> set us \<longrightarrow> t' < t)
             \<and> (\<forall>v' t' d'. Some (v', t', d') \<in> set vs \<longrightarrow> t' \<le> t)
             \<and> fst (lww_read_resolve key hs w) = (if d then PNone else v))
    \<or> (\<forall>v t d. Inr (Some (v, t, d)) \<in> set vals \<longrightarrow> t < 0) \<and> fst (lww_read_resolve key hs w) = PNone"
proof -
  let ?rs = "map answer_of vals"
  have val: "fst (lww_read_resolve key hs w) = lww_answer ?rs"
    using lww_collect_stable [OF assms] by (simp add: lww_read_resolve_def case_prod_beta)
  show ?thesis
  proof (cases "\<exists>v t d. Some (v, t, d) \<in> set ?rs \<and> 0 \<le> t")
    case True
    then obtain v t d where t: "Some (v, t, d) \<in> set ?rs" "0 \<le> t" by blast
    from t(1) obtain us v' t' d' vs where s: "?rs = us @ Some (v', t', d') # vs"
      "\<forall>x y z. Some (x, y, z) \<in> set us \<longrightarrow> y < t'" "\<forall>x y z. Some (x, y, z) \<in> set vs \<longrightarrow> y \<le> t'" "t \<le> t'"
      by (rule first_max_split)
    have "0 \<le> t'" using s(4) t(2) by simp
    with s have "lww_answer ?rs = (if d' then PNone else v')"
      by (simp add: lww_answer_first_max)
    with s(1-3) \<open>0 \<le> t'\<close> val show ?thesis
      by (intro disjI1 exI [of _ us] exI [of _ v'] exI [of _ t'] exI [of _ d'] exI [of _ vs]) simp
  next
    case False
    then have none: "\<forall>v t d. Some (v, t, d) \<in> set ?rs \<longrightarrow> t < 0" by force
    have "Some (v, t, d) \<in> set ?rs" if "Inr (Some (v, t, d)) \<in> set vals" for v t d
      using that by (force simp: answer_of_def image_iff)
    then show ?thesis using lww_answer_none [OF none] none val by metis
  qed
qed

theorem lww_resolver_newest_witness:
  "fst (lww_read_resolve ''k'' [\<lambda>k w. (Inr (Some (PInt 1, 3, False)), w), \<lambda>k w. (Inl OSError, w),
      \<lambda>k w. (Inr (Some (PInt 2, 5, False)), w)] ()) = PInt 2"
proof -
  have "stable_reads (\<lambda>_. True) ''k'' [\<lambda>k w. (Inr (Some (PInt 1, 3, False)), w), \<lambda>k w. (Inl OSError, w),
      \<lambda>k w. (Inr (Some (PInt 2, 5, False)), w)]
      [Inr (Some (PInt 1, 3, False)), Inl OSError, Inr (Some (PInt 2, 5, False))]"
    by (simp add: stable_reads_Cons) (simp add: stable_reads_def)
  from lww_resolver_newest [OF this TrueI, of "()"] show ?thesis
    by (auto simp: answer_of_def append_eq_Cons_conv Cons_eq_append_conv)
qed

text \<open>C23.
  \<open>AsyncLWW.read_resolve\<close> returns what the blocking \<open>LWW.read_resolve\<close> returns, in whatever
  order the event loop completes the concurrent reads, when the reads do not disturb each other.
\<close>

theorem async_lww_any_schedule:
  assumes "stable_reads P key hs vals" and "P w" and "schedule (length hs) sched"
  shows "fst (async_lww_read_resolve sched key hs w) = fst (lww_read_resolve key hs w)"
  using assms by (rule async_lww_stable)

theorem async_lww_any_schedule_witness:
  "fst (async_lww_read_resolve [1, 0] ''k'' [\<lambda>k w. (Inr (Some (PInt 1, 3, False)), w), \<lambda>k w. (Inl OSError, w)] ()) =
   fst (lww_read_resolve ''k'' [\<lambda>k w. (Inr (Some (PInt 1, 3, False)), w), \<lambda>k w. (Inl OSError, w)] ())"
  by (rule async_lww_any_schedule [where P = "\<lambda>_. True" and vals = "[Inr (Some (PInt 1, 3, False)), Inl OSError]"])
     (auto simp: stable_reads_Cons schedule_def, simp add: stable_reads_def)

text \<open>
  \<open>FHW.read_resolve\<close> (and \<open>AsyncFHW\<close>) returns the first live value in ring order and asks no
  replica after it; a replica that raises, has no entry or holds a tombstone is passed over. So a
  replica that missed a delete can answer for one, later in ring order, that saw it.
\<close>

theorem fhw_first_hit:
  assumes "stable_reads P key us vals" and "P w"
    and "\<forall>r \<in> set vals. \<forall>v t. r \<noteq> Inr (Some (v, t, False))"
    and "\<forall>w. P w \<longrightarrow> h key w = (Inr (Some (v, t, False)), f w)"
  shows "\<exists>w'. P w' \<and> fhw_read_resolve key (us @ h # vs) w = (v, f w')
    \<and> async_fhw_read_resolve key (us @ h # vs) w = (v, f w')"
proof -
  have "\<exists>w'. P w' \<and> fhw_read_resolve key (us @ h # vs) w = (v, f w')"
    using assms(1-3)
  proof (induction us arbitrary: vals w)
    case Nil
    then show ?case using assms(4) by auto
  next
    case (Cons g us)
    then obtain r rs where vals: "vals = r # rs" by (cases vals) (auto simp: stable_reads_def)
    with Cons.prems have g: "fst (g key w) = r" "P (snd (g key w))" and us: "stable_reads P key us rs"
      by (auto simp: stable_reads_Cons)
    from Cons.IH [OF us g(2)] Cons.prems(3) vals obtain w' where
      "P w'" "fhw_read_resolve key (us @ h # vs) (snd (g key w)) = (v, f w')" by auto
    moreover have "fhw_read_resolve key (g # us @ h # vs) w = fhw_read_resolve key (us @ h # vs) (snd (g key w))"
      using Cons.prems(3) g(1) vals
      by (cases "g key w") (auto split: sum.splits option.splits)
    ultimately show ?case by auto
  qed
  then show ?thesis by (simp add: async_fhw_read_resolve_def)
qed

theorem fhw_first_hit_witness:
  "fhw_read_resolve ''k'' [\<lambda>k w. (Inl OSError, w), \<lambda>k w. (Inr (Some (PInt 1, 3, False)), w),
      \<lambda>k w. (Inr (Some (PNone, 5, True)), w)] () = (PInt 1, ())"
proof -
  have "stable_reads (\<lambda>_. True) ''k'' [\<lambda>k w. (Inl OSError, w)] [Inl OSError]"
    by (simp add: stable_reads_Cons) (simp add: stable_reads_def)
  from fhw_first_hit [OF this, where w = "()" and h = "\<lambda>k w. (Inr (Some (PInt 1, 3, False)), w)"
      and v = "PInt 1" and t = 3 and f = "\<lambda>w. w" and vs = "[\<lambda>k w. (Inr (Some (PNone, 5, True)), w)]"]
  show ?thesis by simp
qed

end
