(* ===== verification/Dispatcher.thy ===== *)
theory Dispatcher
  imports Lww_Store
begin

text \<open>
  \<open>dlstorage/node/dispatcher.py\<close>: the server side of the store messages. The code takes any
  \<open>VersionedStore\<close>; so does \<open>dispatch_with\<close>, whose lemmas are proved in the contract of
  that protocol. \<open>dispatch\<close> is the instance every node runs, on its \<open>LocalLWWStore\<close>.
\<close>

fun mt_name :: "MessageType \<Rightarrow> string" where
  "mt_name PING = ''PING''"
| "mt_name PONG = ''PONG''"
| "mt_name PEER_LIST = ''PEER_LIST''"
| "mt_name PEER_ANNOUNCE = ''PEER_ANNOUNCE''"
| "mt_name PEER_LEAVE = ''PEER_LEAVE''"
| "mt_name GET = ''GET''"
| "mt_name SET = ''SET''"
| "mt_name DELETE = ''DELETE''"
| "mt_name OK = ''OK''"
| "mt_name NOT_FOUND = ''NOT_FOUND''"
| "mt_name ERROR = ''ERROR''"

text \<open>\<open>f"unknown message type: {msg.type}"\<close>: an enum member prints as \<open>MessageType.NAME\<close>.\<close>

definition unknown_type :: "MessageType \<Rightarrow> Message" where
  "unknown_type t = message ERROR (PDict [(''error'', PStr (''unknown message type: MessageType.'' @ mt_name t))])"

text \<open>The arguments a handler reads out of the payload, in the order it reads them.\<close>

definition get_args :: "pyval \<Rightarrow> string res" where
  "get_args p = res_bind (py_getitem p ''key'') as_str"

definition set_args :: "pyval \<Rightarrow> (string \<times> pyval \<times> rat option \<times> int option) res" where
  "set_args p =
     res_bind (res_bind (py_getitem p ''key'') as_str) (\<lambda>key.
     res_bind (py_getitem p ''value'') (\<lambda>val.
     res_bind (res_bind (py_dict_get p ''ttl'' PNone) as_opt_float) (\<lambda>ttl.
     res_bind (res_bind (py_dict_get p ''ts'' PNone) as_opt_int) (\<lambda>ts.
     Inr (key, val, ttl, ts)))))"

definition delete_args :: "pyval \<Rightarrow> (string \<times> int option) res" where
  "delete_args p =
     res_bind (res_bind (py_getitem p ''key'') as_str) (\<lambda>key.
     res_bind (res_bind (py_dict_get p ''ts'' PNone) as_opt_int) (\<lambda>ts.
     Inr (key, ts)))"

definition dispatch_with ::
  "(rat \<Rightarrow> string \<Rightarrow> 's \<Rightarrow> versioned option \<times> 's)
   \<Rightarrow> (rat \<Rightarrow> int \<Rightarrow> string \<Rightarrow> pyval \<Rightarrow> rat option \<Rightarrow> int option \<Rightarrow> 's \<Rightarrow> bool \<times> 's)
   \<Rightarrow> (int \<Rightarrow> string \<Rightarrow> int option \<Rightarrow> 's \<Rightarrow> bool \<times> 's)
   \<Rightarrow> rat \<Rightarrow> int \<Rightarrow> Message \<Rightarrow> 's \<Rightarrow> Message res \<times> 's" where
  "dispatch_with getv setf delf now wall msg s =
     (case mtype msg of
        GET \<Rightarrow> (case get_args (payload msg) of
            Inl e \<Rightarrow> (Inl e, s)
          | Inr key \<Rightarrow> (case getv now key s of
                (None, s') \<Rightarrow> (Inr (message NOT_FOUND (PDict [(''key'', PStr key), (''ts'', PInt 0)])), s')
              | (Some (v, ts, is_tombstone), s') \<Rightarrow>
                  if is_tombstone
                  then (Inr (message NOT_FOUND (PDict [(''key'', PStr key), (''ts'', PInt ts), (''tombstone'', PBool True)])), s')
                  else (Inr (message OK (PDict [(''key'', PStr key), (''value'', v), (''ts'', PInt ts)])), s')))
      | SET \<Rightarrow> (case set_args (payload msg) of
            Inl e \<Rightarrow> (Inl e, s)
          | Inr (key, v, ttl, ts) \<Rightarrow> (case setf now wall key v ttl ts s of
                (_, s') \<Rightarrow> (Inr (message OK (PDict [(''key'', PStr key)])), s')))
      | DELETE \<Rightarrow> (case delete_args (payload msg) of
            Inl e \<Rightarrow> (Inl e, s)
          | Inr (key, ts) \<Rightarrow> (case delf wall key ts s of
                (deleted, s') \<Rightarrow> (Inr (message (if deleted then OK else NOT_FOUND) (PDict [(''key'', PStr key)])), s')))
      | t \<Rightarrow> (Inr (unknown_type t), s))"

definition dispatch :: "rat \<Rightarrow> int \<Rightarrow> Message \<Rightarrow> LocalLWWStore \<Rightarrow> Message res \<times> LocalLWWStore" where
  "dispatch = dispatch_with lww_get_versioned lww_set lww_delete"

text \<open>The store requests a peer sends, as the remote handles build them.\<close>

definition get_request :: "string \<Rightarrow> Message" where
  "get_request key = message GET (PDict [(''key'', PStr key)])"

definition set_request :: "string \<Rightarrow> pyval \<Rightarrow> rat option \<Rightarrow> int \<Rightarrow> Message" where
  "set_request key v ttl ts =
     message SET (PDict ([(''key'', PStr key), (''value'', v), (''ts'', PInt ts)]
       @ (case ttl of None \<Rightarrow> [] | Some t \<Rightarrow> [(''ttl'', PFloat t)])))"

definition delete_request :: "string \<Rightarrow> int \<Rightarrow> Message" where
  "delete_request key ts = message DELETE (PDict [(''key'', PStr key), (''ts'', PInt ts)])"

lemma set_args_request: "set_args (payload (set_request k v ttl ts)) = Inr (k, v, ttl, Some ts)"
  by (cases ttl) (simp_all add: set_args_def set_request_def)

lemma delete_args_request: "delete_args (payload (delete_request k ts)) = Inr (k, Some ts)"
  by (simp add: delete_args_def delete_request_def)

lemma get_args_request: "get_args (payload (get_request k)) = Inr k"
  by (simp add: get_args_def get_request_def)

lemma request_types [simp]:
  "mtype (get_request k) = GET" "mtype (set_request k v ttl ts) = SET" "mtype (delete_request k ts) = DELETE"
  by (simp_all add: get_request_def set_request_def delete_request_def)

text \<open>The reply to a read, as a function of the version the store holds.\<close>

definition get_reply :: "string \<Rightarrow> versioned option \<Rightarrow> Message" where
  "get_reply key r =
     (case r of
        None \<Rightarrow> message NOT_FOUND (PDict [(''key'', PStr key), (''ts'', PInt 0)])
      | Some (v, ts, d) \<Rightarrow>
          if d then message NOT_FOUND (PDict [(''key'', PStr key), (''ts'', PInt ts), (''tombstone'', PBool True)])
          else message OK (PDict [(''key'', PStr key), (''value'', v), (''ts'', PInt ts)]))"

text \<open>The key a message names.\<close>

definition names_key :: "Message \<Rightarrow> string \<Rightarrow> bool" where
  "names_key msg k \<longleftrightarrow> py_getitem (payload msg) ''key'' = Inr (PStr k)"

lemma as_str_Inr: "as_str v = Inr k \<longleftrightarrow> v = PStr k"
  by (cases v) auto

section \<open>What a request does to any versioned store\<close>

context versioned_store begin

lemma dispatch_get:
  "dispatch_with getv setf delf now wall (get_request k) s =
     (Inr (get_reply k (version now s k)), snd (getv now k s))"
  by (cases "getv now k s") (auto simp: dispatch_with_def get_args_request get_reply_def
      getv_version [symmetric] split: option.split)

lemma dispatch_set:
  "dispatch_with getv setf delf now wall (set_request k v ttl ts) s =
     (Inr (message OK (PDict [(''key'', PStr k)])), snd (setf now wall k v ttl (Some ts) s))"
  by (simp add: dispatch_with_def set_args_request case_prod_beta)

lemma dispatch_delete:
  "dispatch_with getv setf delf now wall (delete_request k ts) s =
     (Inr (message (if fst (delf wall k (Some ts) s) then OK else NOT_FOUND) (PDict [(''key'', PStr k)])),
      snd (delf wall k (Some ts) s))"
  by (simp add: dispatch_with_def delete_args_request case_prod_beta)

lemmas dispatch_requests = dispatch_get dispatch_set dispatch_delete

text \<open>Keys a message does not name keep their versions, and nothing breaks the store.\<close>

lemma args_name_key:
  "get_args (payload msg) = Inr k \<Longrightarrow> names_key msg k"
  "set_args (payload msg) = Inr (k, v, ttl, ts) \<Longrightarrow> names_key msg k"
  "delete_args (payload msg) = Inr (k, ts) \<Longrightarrow> names_key msg k"
  by (auto simp: get_args_def set_args_def delete_args_def names_key_def res_bind_Inr_iff as_str_Inr)

lemma dispatch_frame:
  assumes "\<not> names_key msg k'" and "now \<le> now'"
  shows "version now' (snd (dispatch_with getv setf delf now wall msg s)) k' = version now' s k'"
proof -
  have "k \<noteq> k'" if "get_args (payload msg) = Inr k" for k
    using args_name_key(1) [OF that] assms(1) by auto
  moreover have "k \<noteq> k'" if "set_args (payload msg) = Inr (k, v, ttl, ts)" for k v ttl ts
    using args_name_key(2) [OF that] assms(1) by auto
  moreover have "k \<noteq> k'" if "delete_args (payload msg) = Inr (k, ts)" for k ts
    using args_name_key(3) [OF that] assms(1) by auto
  ultimately show ?thesis
    using assms(2)
    by (auto simp: dispatch_with_def case_prod_beta getv_frame set_version_cases del_version
        split: MessageType.split sum.split option.split)
qed

lemma dispatch_raises: "dispatch_with getv setf delf now wall msg s = (Inl e, s') \<Longrightarrow> s' = s"
  by (auto simp: dispatch_with_def split: MessageType.splits sum.splits option.splits prod.splits if_splits)

lemma dispatch_invar: "invar s \<Longrightarrow> invar (snd (dispatch_with getv setf delf now wall msg s))"
  by (auto simp: dispatch_with_def getv_invar set_invar del_invar case_prod_beta
      split: MessageType.split sum.split option.split prod.split)

end

lemma dispatch_reply_types:
  "dispatch_with getv setf delf now wall msg s = (Inr r, s') \<Longrightarrow> mtype r \<in> {OK, NOT_FOUND, ERROR}"
  by (auto simp: dispatch_with_def unknown_type_def
      split: MessageType.splits sum.splits option.splits prod.splits if_splits)

section \<open>Properties\<close>

text \<open>
  The store dispatcher answers or raises, and does nothing else: a handler that raises (a missing
  key in the payload) leaves the store as it was; a reply is one of \<open>OK\<close>, \<open>NOT_FOUND\<close> and
  \<open>ERROR\<close>; a message that is not a store request is answered with \<open>ERROR\<close> and changes
  nothing; the store stays well formed and every key the message does not name reads the same
  afterwards, at any later time.
\<close>

theorem dispatch_contract:
  assumes "dispatch now wall msg s = (r, s')" and "lww_wf s" and "now \<le> now'"
  shows "lww_wf s'
    \<and> (case r of Inl e \<Rightarrow> s' = s | Inr m \<Rightarrow> mtype m \<in> {OK, NOT_FOUND, ERROR})
    \<and> (mtype msg \<in> {GET, SET, DELETE} \<or> r = Inr (unknown_type (mtype msg)) \<and> s' = s)
    \<and> (names_key msg k \<or> lww_version now' s' k = lww_version now' s k)"
proof (intro conjI)
  note d = assms(1) [unfolded dispatch_def]
  show "lww_wf s'"
    using lww.dispatch_invar [OF assms(2), of now wall msg] d by simp
  show "case r of Inl e \<Rightarrow> s' = s | Inr m \<Rightarrow> mtype m \<in> {OK, NOT_FOUND, ERROR}"
  proof (cases r)
    case (Inl e)
    then show ?thesis using lww.dispatch_raises d by fastforce
  next
    case (Inr m)
    then show ?thesis using dispatch_reply_types d by fastforce
  qed
  show "mtype msg \<in> {GET, SET, DELETE} \<or> r = Inr (unknown_type (mtype msg)) \<and> s' = s"
    using d by (cases "mtype msg") (auto simp: dispatch_with_def)
  show "names_key msg k \<or> lww_version now' s' k = lww_version now' s k"
    using lww.dispatch_frame [OF _ assms(3), of msg k wall s] d by auto
qed

theorem dispatch_contract_witness:
  "lww_wf (snd (dispatch 0 5 (set_request ''k'' (PInt 1) None 5) lww_init))
   \<and> lww_version 1 (snd (dispatch 0 5 (set_request ''k'' (PInt 1) None 5) lww_init)) ''other'' = None"
  using dispatch_contract [OF prod.collapse [symmetric] lww_wf_ops(1), of 0 1 5 "set_request ''k'' (PInt 1) None 5" "''other''"]
  by (auto simp: names_key_def set_request_def lww_version_def lww_init_def)

lemma update_idem: "AList.update k v (AList.update k v d) = AList.update k v d"
  by (induction d) auto

lemma overdue_expiry: "now \<le> now' \<Longrightarrow> overdue later (expiry now' ttl) \<Longrightarrow> overdue later (expiry now ttl)"
  by (auto simp: overdue_def expiry_def split: option.splits)

lemma lww_set_stamp:
  "lww_stamp (snd (lww_set now wall k v ttl (Some ts) s)) k' =
     (if k' = k \<and> supersedes (lww_stamp s k) ts then Some ts else lww_stamp s k')"
  by (auto simp: lww_set_def lww_stamp_def supersedes_def Let_def dict_simps split: option.splits)

text \<open>C30.
  A request that a pool sends again, because the reply to the first sending was lost, does no harm to the
  store: a repeated \<open>SET\<close> is acknowledged again and leaves the same entry, whose time-to-live
  starts anew, and a repeated \<open>DELETE\<close> changes nothing. But a \<open>DELETE\<close> that took effect is answered with
  \<open>NOT_FOUND\<close> the second time, so the caller is told that it failed.
\<close>

theorem dispatch_retry:
  assumes "dispatch now wall (set_request k v ttl ts) s = (r, s1)"
    and "dispatch now' wall' (set_request k v ttl ts) s1 = (r', s2)" and "now \<le> now'"
    and "dispatch now wall (delete_request k ts) s = (q, t1)"
    and "dispatch now' wall' (delete_request k ts) t1 = (q', t2)"
  shows "r' = r \<and> lww_stamp s2 = lww_stamp s1 \<and> (ttl = None \<longrightarrow> s2 = s1)
      \<and> (\<forall>x k' later. lww_version later s1 k' = Some x \<longrightarrow> lww_version later s2 k' = Some x)
    \<and> t2 = t1 \<and> (supersedes (lww_stamp s k) ts \<longrightarrow> q' = Inr (message NOT_FOUND (PDict [(''key'', PStr k)])))"
proof -
  have set: "r = Inr (message OK (PDict [(''key'', PStr k)]))" "s1 = snd (lww_set now wall k v ttl (Some ts) s)"
      "r' = r" "s2 = snd (lww_set now' wall' k v ttl (Some ts) s1)"
    using assms(1,2) by (auto simp: dispatch_def lww.dispatch_set)
  have del: "t1 = snd (lww_delete wall k (Some ts) s)" "t2 = snd (lww_delete wall' k (Some ts) t1)"
      "q' = Inr (message (if fst (lww_delete wall' k (Some ts) t1) then OK else NOT_FOUND) (PDict [(''key'', PStr k)]))"
    using assms(4,5) by (auto simp: dispatch_def lww.dispatch_delete)
  have "lww_stamp s2 = lww_stamp s1 \<and> (ttl = None \<longrightarrow> s2 = s1)"
    unfolding set(2,4)
    by (auto simp: lww_set_def lww_stamp_def Let_def dict_simps update_idem fun_eq_iff split: option.splits)
  moreover have "lww_version later s2 k' = Some x" if "lww_version later s1 k' = Some x" for x k' later
    using that overdue_expiry [OF assms(3), of later ttl]
    unfolding set(2,4) lww.set_version_cases by (auto simp: lww_set_stamp split: if_splits)
  moreover have "t2 = t1 \<and> (supersedes (lww_stamp s k) ts \<longrightarrow> \<not> fst (lww_delete wall' k (Some ts) t1))"
    unfolding del(1,2)
    by (auto simp: lww_delete_def lww_stamp_def supersedes_def Let_def dict_simps update_idem split: option.splits)
  ultimately show ?thesis using set(3) del(3) by auto
qed

theorem dispatch_retry_witness:
  "fst (dispatch 1 0 (delete_request ''k'' 8) (snd (dispatch 0 0 (delete_request ''k'' 8)
      \<lparr>lww_data = [(''k'', Value (PInt 1), None, 7)]\<rparr>))) = Inr (message NOT_FOUND (PDict [(''key'', PStr ''k'')]))"
proof -
  let ?s = "\<lparr>lww_data = [(''k'', Value (PInt 1), None, 7)]\<rparr>"
  let ?d = "dispatch 0 0 (delete_request ''k'' 8) ?s" and ?e = "dispatch 0 0 (set_request ''k'' PNone None 8) ?s"
  have "(0 :: rat) \<le> 1" by simp
  from dispatch_retry [OF prod.collapse [symmetric, of ?e] prod.collapse [symmetric] this
      prod.collapse [symmetric, of ?d] prod.collapse [symmetric]]
  show ?thesis by (simp add: supersedes_def lww_stamp_def)
qed

text \<open>
  The reply to a \<open>SET\<close> says nothing about the write: when the store holds a newer timestamp and
  rejects the write, leaving the key as it was, the dispatcher answers \<open>OK\<close> all the same, where
  the same call on the local store returns \<open>False\<close>.
\<close>

theorem dispatch_set_hides_rejection:
  assumes "lww_stamp s k = Some t" and "ts < t"
  shows "dispatch now wall (set_request k v ttl ts) s = (Inr (message OK (PDict [(''key'', PStr k)])), s)
    \<and> lww_set now wall k v ttl (Some ts) s = (False, s)"
proof -
  have "\<not> fst (lww_set now wall k v ttl (Some ts) s)"
    using assms by (simp add: lww_set_supersedes supersedes_def)
  then have "lww_set now wall k v ttl (Some ts) s = (False, s)"
    using lww.set_rejected [of now wall k v ttl "Some ts" s] by (metis prod.collapse)
  then show ?thesis by (simp add: dispatch_def lww.dispatch_set)
qed

theorem dispatch_set_hides_rejection_witness:
  "dispatch 0 0 (set_request ''k'' (PInt 1) None 6) \<lparr>lww_data = [(''k'', Tombstone, None, 7)]\<rparr> =
     (Inr (message OK (PDict [(''key'', PStr ''k'')])), \<lparr>lww_data = [(''k'', Tombstone, None, 7)]\<rparr>)"
  using dispatch_set_hides_rejection [of "\<lparr>lww_data = [(''k'', Tombstone, None, 7)]\<rparr>" "''k''" 7 6 0 0 "PInt 1" None]
  by (simp add: lww_stamp_def)

end
