(* ===== verification/Discovery.thy ===== *)
theory Discovery
  imports Member_Set
begin

text \<open>
  \<open>dlstorage/discovery\<close>: the four discovery back ends. What the resolvers of the system and of
  \<open>dnspython\<close> answer is an argument: \<open>getaddrinfo host port\<close> the addresses of the A
  records in the order returned (or a raised error), \<open>srv name\<close> the target and port of each
  SRV record (third-party code).
\<close>

datatype DiscoveryState =
    StaticDiscovery "NodeInfo list"
  | GossipDiscovery NodeInfo "NodeInfo list"
  | ARecordDiscovery string int
  | DNSDiscovery string

record resolver =
  getaddrinfo :: "string \<Rightarrow> int \<Rightarrow> string list res"
  srv :: "string \<Rightarrow> (string \<times> int) list res"

section \<open>Construction\<close>

fun nodes_from_addresses :: "string list \<Rightarrow> NodeInfo list res" where
  "nodes_from_addresses [] = Inr []"
| "nodes_from_addresses (p # ps) =
     res_bind (node_from_address p) (\<lambda>n. res_bind (nodes_from_addresses ps) (\<lambda>ns. Inr (n # ns)))"

definition static_init :: "string list \<Rightarrow> DiscoveryState res" where
  "static_init ps = res_bind (nodes_from_addresses ps) (\<lambda>ns. Inr (StaticDiscovery ns))"

definition gossip_init :: "string \<Rightarrow> DiscoveryState res" where
  "gossip_init address = res_bind (node_from_address address) (\<lambda>n. Inr (GossipDiscovery n []))"

section \<open>Peers\<close>

text \<open>The loop of the A-record back end: each address once, in the order of the answer.\<close>

fun a_record_loop :: "int \<Rightarrow> string list \<Rightarrow> string list \<Rightarrow> NodeInfo list" where
  "a_record_loop p seen [] = []"
| "a_record_loop p seen (ip # ips) =
     (if ip \<notin> set seen then \<lparr>host = ip, port = p\<rparr> # a_record_loop p (ip # seen) ips
      else a_record_loop p seen ips)"

definition a_record_peers :: "resolver \<Rightarrow> string \<Rightarrow> int \<Rightarrow> NodeInfo list res" where
  "a_record_peers R hostname p = res_bind (getaddrinfo R hostname p) (\<lambda>ips. Inr (a_record_loop p [] ips))"

definition dns_peers :: "resolver \<Rightarrow> string \<Rightarrow> NodeInfo list res" where
  "dns_peers R name =
     res_bind (srv R name) (\<lambda>ans. Inr (map (\<lambda>(target, p). \<lparr>host = rstrip_char (CHR ''.'') target, port = p\<rparr>) ans))"

text \<open>\<open>GossipDiscovery.get_peers\<close> appends the seed to the known peers.\<close>

fun get_peers :: "resolver \<Rightarrow> DiscoveryState \<Rightarrow> NodeInfo list res" where
  "get_peers R (StaticDiscovery ns) = Inr ns"
| "get_peers R (GossipDiscovery sd ps) = Inr (ps @ [sd])"
| "get_peers R (ARecordDiscovery hostname p) = a_record_peers R hostname p"
| "get_peers R (DNSDiscovery name) = dns_peers R name"

text \<open>\<open>add_peer\<close> and \<open>remove_peer\<close> exist on \<open>GossipDiscovery\<close> only.\<close>

definition gd_add_peer :: "NodeInfo \<Rightarrow> NodeInfo list \<Rightarrow> bool \<times> NodeInfo list" where
  "gd_add_peer peer ps = (if peer \<notin> set ps then (True, ps @ [peer]) else (False, ps))"

definition gd_remove_peer :: "NodeInfo \<Rightarrow> NodeInfo list \<Rightarrow> NodeInfo list" where
  "gd_remove_peer peer ps = removeAll peer ps"

text \<open>\<open>if isinstance(discovery, GossipDiscovery): discovery.add_peer(peer)\<close>, and the same for removal.\<close>

fun disc_add :: "NodeInfo \<Rightarrow> DiscoveryState \<Rightarrow> DiscoveryState" where
  "disc_add n (GossipDiscovery sd ps) = GossipDiscovery sd (snd (gd_add_peer n ps))"
| "disc_add n d = d"

fun disc_remove :: "NodeInfo \<Rightarrow> DiscoveryState \<Rightarrow> DiscoveryState" where
  "disc_remove n (GossipDiscovery sd ps) = GossipDiscovery sd (gd_remove_peer n ps)"
| "disc_remove n d = d"

section \<open>What they return\<close>

lemma a_record_loop_hosts:
  "distinct (map host (a_record_loop p seen ips)) \<and> set (map host (a_record_loop p seen ips)) = set ips - set seen
   \<and> subseq (map host (a_record_loop p seen ips)) ips \<and> (\<forall>n \<in> set (a_record_loop p seen ips). port n = p)"
proof (induction p seen ips rule: a_record_loop.induct)
  case (2 p seen ip ips)
  then show ?case by (cases "ip \<in> set seen") auto
qed simp

lemma nodes_from_addresses_print: "nodes_from_addresses (map node_address ns) = Inr ns"
  by (induction ns) (simp_all add: node_from_address_address)

lemma nodes_from_addresses_raises:
  "CHR '':'' \<notin> set a \<Longrightarrow> \<exists>e. nodes_from_addresses (ps @ a # qs) = Inl e"
  by (induction ps) (auto simp: node_from_address_no_colon res_bind_def split: sum.split)

interpretation gd: member_set "distinct" "\<lambda>n ps. snd (gd_add_peer n ps)" gd_remove_peer "\<lambda>ps. ps"
  by unfold_locales (auto simp: gd_add_peer_def gd_remove_peer_def distinct_removeAll)

section \<open>Properties\<close>

text \<open>
  What the back ends return: a static list built from printed addresses gives the same nodes back
  and an address without a colon makes its construction fail; A-record discovery returns one
  node per distinct address, in the order of first occurrence, at the configured port; the known
  peers of gossip discovery behave as a set, and its seed is always among the peers, even after
  it has been removed.
\<close>

theorem discovery_peers:
  assumes "CHR '':'' \<notin> set a" and "getaddrinfo R h p = Inr ips"
  shows "res_bind (static_init (map node_address ns)) (get_peers R) = Inr ns
    \<and> (\<exists>e. static_init (ps @ a # qs) = Inl e)
    \<and> (\<exists>xs. get_peers R (ARecordDiscovery h p) = Inr xs \<and> distinct xs \<and> host ` set xs = set ips
         \<and> subseq (map host xs) ips \<and> (\<forall>n \<in> set xs. port n = p))
    \<and> (\<exists>xs. get_peers R (disc_remove n (disc_add m (GossipDiscovery sd ks))) = Inr xs
         \<and> set xs = insert sd (insert m (set ks) - {n}))"
proof (intro conjI)
  show "res_bind (static_init (map node_address ns)) (get_peers R) = Inr ns"
    by (simp add: static_init_def nodes_from_addresses_print)
  show "\<exists>e. static_init (ps @ a # qs) = Inl e"
    using nodes_from_addresses_raises [OF assms(1), of ps qs] by (auto simp: static_init_def)
  show "\<exists>xs. get_peers R (ARecordDiscovery h p) = Inr xs \<and> distinct xs \<and> host ` set xs = set ips
         \<and> subseq (map host xs) ips \<and> (\<forall>n \<in> set xs. port n = p)"
    using a_record_loop_hosts [of p "[]" ips] assms(2)
    by (auto simp: a_record_peers_def distinct_map)
  show "\<exists>xs. get_peers R (disc_remove n (disc_add m (GossipDiscovery sd ks))) = Inr xs
         \<and> set xs = insert sd (insert m (set ks) - {n})"
    by (auto simp: gd_add_peer_def gd_remove_peer_def)
qed

theorem discovery_peers_witness:
  "\<exists>xs. get_peers \<lparr>getaddrinfo = \<lambda>h p. Inr [''10.0.0.1'', ''10.0.0.2'', ''10.0.0.1''], srv = \<lambda>_. Inr []\<rparr>
      (ARecordDiscovery ''storage'' 7001) = Inr xs \<and> distinct xs \<and> host ` set xs = {''10.0.0.1'', ''10.0.0.2''}"
proof -
  let ?R = "\<lparr>getaddrinfo = \<lambda>h p. Inr [''10.0.0.1'', ''10.0.0.2'', ''10.0.0.1''], srv = \<lambda>_. Inr []\<rparr>"
  have a: "CHR '':'' \<notin> set ''x''"
    and g: "getaddrinfo ?R ''storage'' 7001 = Inr [''10.0.0.1'', ''10.0.0.2'', ''10.0.0.1'']" by simp_all
  obtain xs where xs: "get_peers ?R (ARecordDiscovery ''storage'' 7001) = Inr xs" "distinct xs"
    "host ` set xs = set [''10.0.0.1'', ''10.0.0.2'', ''10.0.0.1'']"
    using discovery_peers [OF a g] by metis
  have "set [''10.0.0.1'', ''10.0.0.2'', ''10.0.0.1''] = {''10.0.0.1'', ''10.0.0.2''}" by auto
  with xs show ?thesis by metis
qed

end
