(* ===== verification/Wire.thy ===== *)
theory Wire
  imports Dls_Types
begin

text \<open>
  \<open>dlstorage/connection_pool/wire.py\<close>: framing of messages over a byte stream. \<open>pickle\<close>
  is a pair of parameters: \<open>dumps\<close> turns a message into bytes, \<open>loads\<close> turns bytes into a
  message or raises. A socket's receiving side is the list of events still to come: a chunk of
  bytes that arrives, or a fault (a reset, a timeout) that \<open>recv\<close> raises; the list ends, or an
  empty chunk comes, when the peer has closed. Any way of cutting a byte stream into chunks is
  such a list.
\<close>

section \<open>Sending\<close>

definition HEADER_SIZE :: nat where
  "HEADER_SIZE = 4"

text \<open>The bytes \<open>send_message\<close> hands to \<open>sendall\<close>; \<open>to_bytes\<close> raises on 4 GiB and more.\<close>

definition send_message :: "(Message \<Rightarrow> byte list) \<Rightarrow> Message \<Rightarrow> byte list res" where
  "send_message dumps msg =
     (let data = dumps msg
      in res_bind (to_bytes_big HEADER_SIZE (length data)) (\<lambda>header. Inr (header @ data)))"

text \<open>\<open>send_message_async\<close> writes the same bytes and drains.\<close>

definition send_message_async :: "(Message \<Rightarrow> byte list) \<Rightarrow> Message \<Rightarrow> byte list res" where
  "send_message_async dumps msg =
     (let data = dumps msg
      in res_bind (to_bytes_big HEADER_SIZE (length data)) (\<lambda>header. Inr (header @ data)))"

section \<open>Receiving\<close>

datatype rx = Data "byte list" | Fault pyerr

text \<open>\<open>recv_into\<close> of at most \<open>n\<close> bytes: zero bytes mean the peer has closed.\<close>

fun sock_recv :: "nat \<Rightarrow> rx list \<Rightarrow> byte list res \<times> rx list" where
  "sock_recv n [] = (Inr [], [])"
| "sock_recv n (Fault e # st) = (Inl e, st)"
| "sock_recv n (Data bs # st) =
     (if length bs \<le> n then (Inr bs, st) else (Inr (take n bs), Data (drop n bs) # st))"

text \<open>The loop of \<open>_recvexactly\<close>: \<open>pos\<close> bytes of the buffer are filled.\<close>

function recv_loop :: "nat \<Rightarrow> nat \<Rightarrow> byte list \<Rightarrow> rx list \<Rightarrow> byte list res \<times> rx list" where
  "recv_loop n pos buf st =
     (if pos < n
      then (case sock_recv (n - pos) st of
              (Inl e, st') \<Rightarrow> (Inl e, st')
            | (Inr bs, st') \<Rightarrow>
                if bs = [] then (Inl EOFError, st')
                else recv_loop n (pos + length bs)
                       (take pos buf @ bs @ drop (pos + length bs) buf) st')
      else (Inr buf, st))"
  by pat_completeness auto
termination
  by (relation "measure (\<lambda>(n, pos, buf, st). n - pos)") (auto simp flip: length_greater_0_conv)

declare recv_loop.simps [simp del]

definition recvexactly :: "nat \<Rightarrow> rx list \<Rightarrow> byte list res \<times> rx list" where
  "recvexactly n st = recv_loop n 0 (replicate n 0) st"

text \<open>
  \<open>StreamReader.readexactly\<close>: the reader collects chunks in a buffer; at the end of the stream
  with fewer than \<open>n\<close> bytes it raises \<open>IncompleteReadError\<close>.
\<close>

fun readexactly :: "nat \<Rightarrow> byte list \<times> rx list \<Rightarrow> byte list res \<times> byte list \<times> rx list" where
  "readexactly n (buf, []) =
     (if n \<le> length buf then (Inr (take n buf), drop n buf, []) else (Inl IncompleteReadError, [], []))"
| "readexactly n (buf, Data bs # st) =
     (if n \<le> length buf then (Inr (take n buf), drop n buf, Data bs # st)
      else if bs = [] then (Inl IncompleteReadError, [], st)
      else readexactly n (buf @ bs, st))"
| "readexactly n (buf, Fault e # st) =
     (if n \<le> length buf then (Inr (take n buf), drop n buf, Fault e # st) else (Inl e, buf, st))"

text \<open>\<open>recv_message\<close> and \<open>recv_message_async\<close> differ in the reading primitive only.\<close>

definition recv_message_with :: "(nat \<Rightarrow> 's \<Rightarrow> byte list res \<times> 's) \<Rightarrow> (byte list \<Rightarrow> Message res) \<Rightarrow> 's
    \<Rightarrow> Message res \<times> 's" where
  "recv_message_with rd loads s =
     (case rd HEADER_SIZE s of
        (Inl e, s') \<Rightarrow> (Inl e, s')
      | (Inr header, s') \<Rightarrow>
          (case rd (from_bytes_big header) s' of
             (Inl e, s'') \<Rightarrow> (Inl e, s'')
           | (Inr data, s'') \<Rightarrow> (loads data, s'')))"

definition recv_message :: "(byte list \<Rightarrow> Message res) \<Rightarrow> rx list \<Rightarrow> Message res \<times> rx list" where
  "recv_message = recv_message_with recvexactly"

definition recv_message_async :: "(byte list \<Rightarrow> Message res) \<Rightarrow> byte list \<times> rx list
    \<Rightarrow> Message res \<times> byte list \<times> rx list" where
  "recv_message_async = recv_message_with readexactly"

text \<open>Receiving \<open>k\<close> messages one after the other; the first exception ends the run.\<close>

fun recv_many :: "('s \<Rightarrow> Message res \<times> 's) \<Rightarrow> nat \<Rightarrow> 's \<Rightarrow> Message list res \<times> 's" where
  "recv_many rcv 0 s = (Inr [], s)"
| "recv_many rcv (Suc k) s =
     (case rcv s of
        (Inl e, s') \<Rightarrow> (Inl e, s')
      | (Inr m, s') \<Rightarrow>
          (case recv_many rcv k s' of
             (Inl e, s'') \<Rightarrow> (Inl e, s'')
           | (Inr ms, s'') \<Rightarrow> (Inr (m # ms), s'')))"

section \<open>What a stream still delivers\<close>

fun avail :: "rx list \<Rightarrow> byte list" where
  "avail [] = []"
| "avail (Fault e # st) = []"
| "avail (Data bs # st) = (if bs = [] then [] else bs @ avail st)"

text \<open>The exception a read past those bytes raises; \<open>eof\<close> is the one for a closed connection.\<close>

fun ending :: "pyerr \<Rightarrow> rx list \<Rightarrow> pyerr" where
  "ending eof [] = eof"
| "ending eof (Fault e # st) = e"
| "ending eof (Data bs # st) = (if bs = [] then eof else ending eof st)"

text \<open>
  The interface of the two reading primitives: a read returns exactly the next \<open>n\<close> bytes however
  they were cut into chunks, or raises when the stream ends before.
\<close>

locale byte_source =
  fixes rd :: "nat \<Rightarrow> 's \<Rightarrow> byte list res \<times> 's"
    and bytes_of :: "'s \<Rightarrow> byte list"
    and end_of :: "'s \<Rightarrow> pyerr"
  assumes rd_enough: "n \<le> length (bytes_of s) \<Longrightarrow>
      \<exists>s'. rd n s = (Inr (take n (bytes_of s)), s') \<and> bytes_of s' = drop n (bytes_of s)
        \<and> end_of s' = end_of s"
    and rd_short: "length (bytes_of s) < n \<Longrightarrow> \<exists>s'. rd n s = (Inl (end_of s), s')"
begin

lemma rd_prefix:
  assumes "bytes_of s = bs @ rest" and "length bs = n"
  obtains s' where "rd n s = (Inr bs, s')" and "bytes_of s' = rest" and "end_of s' = end_of s"
  using rd_enough [of n s] assms by auto

lemma recv_frame:
  assumes "bytes_of s = be_bytes HEADER_SIZE (length data) @ data @ rest" and "length data < 2 ^ 32"
  obtains s' where "recv_message_with rd loads s = (loads data, s')" and "bytes_of s' = rest"
    and "end_of s' = end_of s"
proof -
  obtain s1 where s1: "rd HEADER_SIZE s = (Inr (be_bytes HEADER_SIZE (length data)), s1)"
      "bytes_of s1 = data @ rest" "end_of s1 = end_of s"
    using rd_prefix [OF assms(1), of HEADER_SIZE] by auto
  have len: "from_bytes_big (be_bytes HEADER_SIZE (length data)) = length data"
    using assms(2) by (intro from_be_bytes) (simp add: HEADER_SIZE_def)
  obtain s2 where "rd (length data) s1 = (Inr data, s2)" "bytes_of s2 = rest" "end_of s2 = end_of s1"
    using rd_prefix [OF s1(2) refl] by blast
  then show thesis using that [of s2] s1 len by (simp add: recv_message_with_def)
qed

lemma recv_frames:
  assumes "bytes_of s = concat (map (\<lambda>d. be_bytes HEADER_SIZE (length d) @ d) ds) @ rest"
    and "list_all2 (\<lambda>d m. loads d = Inr m \<and> length d < 2 ^ 32) ds ms"
  shows "\<exists>s'. recv_many (recv_message_with rd loads) (length ds) s = (Inr ms, s') \<and> bytes_of s' = rest
    \<and> end_of s' = end_of s"
  using assms
proof (induction ds arbitrary: s ms)
  case Nil then show ?case by simp
next
  case (Cons d ds)
  from Cons.prems(2) obtain m ms' where ms: "ms = m # ms'" "loads d = Inr m" "length d < 2 ^ 32"
      "list_all2 (\<lambda>d m. loads d = Inr m \<and> length d < 2 ^ 32) ds ms'"
    by (auto simp: list_all2_Cons1)
  obtain s1 where s1: "recv_message_with rd loads s = (loads d, s1)"
      "bytes_of s1 = concat (map (\<lambda>d. be_bytes HEADER_SIZE (length d) @ d) ds) @ rest" "end_of s1 = end_of s"
    using recv_frame [of s d "concat (map (\<lambda>d. be_bytes HEADER_SIZE (length d) @ d) ds) @ rest" loads]
      Cons.prems(1) ms(3) by auto
  show ?case using Cons.IH [OF s1(2) ms(4)] s1 ms by auto
qed

text \<open>What one receive returns, as a function of the bytes still to come.\<close>

lemma recv_value:
  "fst (recv_message_with rd loads s) =
     (let bs = bytes_of s; l = from_bytes_big (take HEADER_SIZE bs)
      in if length bs < HEADER_SIZE \<or> length bs < HEADER_SIZE + l then Inl (end_of s)
         else loads (take l (drop HEADER_SIZE bs)))"
proof (cases "length (bytes_of s) < HEADER_SIZE")
  case True
  then show ?thesis using rd_short [of s HEADER_SIZE] by (auto simp: recv_message_with_def Let_def)
next
  case False
  let ?h = "take HEADER_SIZE (bytes_of s)"
  obtain s1 where s1: "rd HEADER_SIZE s = (Inr ?h, s1)" "bytes_of s1 = drop HEADER_SIZE (bytes_of s)"
      "end_of s1 = end_of s"
    using rd_enough [of HEADER_SIZE s] False by auto
  show ?thesis
  proof (cases "length (bytes_of s1) < from_bytes_big ?h")
    case True
    then show ?thesis using rd_short [OF True] s1 False by (auto simp: recv_message_with_def Let_def)
  next
    case enough: False
    then show ?thesis using rd_enough [of "from_bytes_big ?h" s1] s1 False
      by (auto simp: recv_message_with_def Let_def)
  qed
qed

lemma recv_cut:
  assumes "length data < 2 ^ 32" and "strict_prefix (bytes_of s) (be_bytes HEADER_SIZE (length data) @ data)"
  shows "\<exists>s'. recv_message_with rd loads s = (Inl (end_of s), s')"
proof (cases "length (bytes_of s) < HEADER_SIZE")
  case True
  then show ?thesis using rd_short [of s HEADER_SIZE] by (auto simp: recv_message_with_def)
next
  case False
  let ?h = "be_bytes HEADER_SIZE (length data)"
  obtain zs where zs: "?h @ data = bytes_of s @ zs" "zs \<noteq> []"
    using assms(2) by (auto elim: strict_prefixE')
  have h: "bytes_of s = ?h @ drop HEADER_SIZE (bytes_of s)"
    using False zs(1) by (metis append_eq_append_conv_if append_take_drop_id length_be_bytes linorder_not_less)
  obtain s1 where s1: "rd HEADER_SIZE s = (Inr ?h, s1)" "bytes_of s1 = drop HEADER_SIZE (bytes_of s)"
      "end_of s1 = end_of s"
    using rd_prefix [OF h] by auto
  have "length (bytes_of s) + length zs = HEADER_SIZE + length data"
    using arg_cong [OF zs(1), of length] by simp
  then have "length (bytes_of s1) < length data" using s1(2) False zs(2) by (cases zs) auto
  then obtain s2 where "rd (length data) s1 = (Inl (end_of s1), s2)" using rd_short by blast
  moreover have "from_bytes_big ?h = length data"
    using assms(1) by (intro from_be_bytes) (simp add: HEADER_SIZE_def)
  ultimately show ?thesis using s1 by (simp add: recv_message_with_def)
qed

end

section \<open>Both reading primitives meet the contract\<close>

lemma sock_recv_avail:
  "0 < k \<Longrightarrow> case sock_recv k st of
      (Inl e, st') \<Rightarrow> avail st = [] \<and> ending eof st = e
    | (Inr bs, st') \<Rightarrow> length bs \<le> k \<and>
        (if bs = [] then avail st = [] \<and> ending eof st = eof
         else avail st = bs @ avail st' \<and> ending eof st' = ending eof st)"
  by (induction k st rule: sock_recv.induct) (auto simp flip: append_assoc)

lemma recv_loop_avail:
  "pos \<le> n \<Longrightarrow> length buf = n \<Longrightarrow>
    (case recv_loop n pos buf st of
       (Inl e, st') \<Rightarrow> length (avail st) < n - pos \<and> e = ending EOFError st
     | (Inr bs, st') \<Rightarrow> n - pos \<le> length (avail st) \<and> bs = take pos buf @ take (n - pos) (avail st)
         \<and> avail st' = drop (n - pos) (avail st) \<and> ending EOFError st' = ending EOFError st)"
proof (induction n pos buf st rule: recv_loop.induct)
  case (1 n pos buf st)
  show ?case
  proof (cases "pos < n")
    case False
    then show ?thesis using 1(2,3) by (subst recv_loop.simps) simp
  next
    case True
    obtain r st1 where r: "sock_recv (n - pos) st = (r, st1)" by fastforce
    show ?thesis
    proof (cases r)
      case (Inl e)
      then show ?thesis using True r sock_recv_avail [of "n - pos" st EOFError]
        by (subst recv_loop.simps) simp
    next
      case (Inr bs)
      have av: "length bs \<le> n - pos" "bs = [] \<Longrightarrow> avail st = [] \<and> ending EOFError st = EOFError"
          "bs \<noteq> [] \<Longrightarrow> avail st = bs @ avail st1 \<and> ending EOFError st1 = ending EOFError st"
        using True r Inr sock_recv_avail [of "n - pos" st EOFError] by (auto split: if_splits)
      show ?thesis
      proof (cases "bs = []")
        case True
        then show ?thesis using \<open>pos < n\<close> r Inr av(2) by (subst recv_loop.simps) simp
      next
        case False
        let ?buf = "take pos buf @ bs @ drop (pos + length bs) buf"
        have step: "recv_loop n pos buf st = recv_loop n (pos + length bs) ?buf st1"
          using \<open>pos < n\<close> r Inr False by (subst recv_loop.simps) simp
        have buf: "pos + length bs \<le> n" "length ?buf = n" "take (pos + length bs) ?buf = take pos buf @ bs"
          using 1(2,3) av(1) \<open>pos < n\<close> by auto
        have "n - (pos + length bs) = n - pos - length bs" by simp
        then show ?thesis
          using 1(1) [OF \<open>pos < n\<close> r [symmetric] Inr False buf(1,2)] av(1) av(3) [OF False]
          unfolding step buf(3) by (auto split: sum.splits prod.splits)
      qed
    qed
  qed
qed

interpretation sync_source: byte_source recvexactly avail "ending EOFError"
proof
  fix n :: nat and s
  obtain r st' where r: "recv_loop n 0 (replicate n 0) s = (r, st')" by fastforce
  note loop = recv_loop_avail [of 0 n "replicate n 0" s, unfolded r]
  show "\<exists>s'. recvexactly n s = (Inr (take n (avail s)), s') \<and> avail s' = drop n (avail s)
      \<and> ending EOFError s' = ending EOFError s" if "n \<le> length (avail s)"
    using loop that r by (cases r) (auto simp: recvexactly_def)
  show "\<exists>s'. recvexactly n s = (Inl (ending EOFError s), s')" if "length (avail s) < n"
    using loop that r by (cases r) (auto simp: recvexactly_def)
qed

lemma readexactly_enough:
  "n \<le> length (buf @ avail st) \<Longrightarrow>
    \<exists>buf' st'. readexactly n (buf, st) = (Inr (take n (buf @ avail st)), buf', st')
      \<and> buf' @ avail st' = drop n (buf @ avail st)
      \<and> ending IncompleteReadError st' = ending IncompleteReadError st"
  by (induction n "(buf, st)" arbitrary: buf st rule: readexactly.induct) (auto split: if_splits)

lemma readexactly_short:
  "length (buf @ avail st) < n \<Longrightarrow>
    \<exists>s'. readexactly n (buf, st) = (Inl (ending IncompleteReadError st), s')"
  by (induction n "(buf, st)" arbitrary: buf st rule: readexactly.induct) (auto split: if_splits)

interpretation async_source: byte_source readexactly "\<lambda>(buf, st). buf @ avail st"
    "\<lambda>(buf, st). ending IncompleteReadError st"
proof
  fix n :: nat and s :: "byte list \<times> rx list"
  obtain buf st where s: "s = (buf, st)" by fastforce
  show "\<exists>s'. readexactly n s = (Inr (take n (case s of (buf, st) \<Rightarrow> buf @ avail st)), s')
      \<and> (case s' of (buf, st) \<Rightarrow> buf @ avail st) = drop n (case s of (buf, st) \<Rightarrow> buf @ avail st)
      \<and> (case s' of (buf, st) \<Rightarrow> ending IncompleteReadError st)
        = (case s of (buf, st) \<Rightarrow> ending IncompleteReadError st)"
    if "n \<le> length (case s of (buf, st) \<Rightarrow> buf @ avail st)"
    using readexactly_enough [of n buf st] that by (auto simp: s)
  show "\<exists>s'. readexactly n s = (Inl (case s of (buf, st) \<Rightarrow> ending IncompleteReadError st), s')"
    if "length (case s of (buf, st) \<Rightarrow> buf @ avail st) < n"
    using readexactly_short [of buf st n] that by (auto simp: s)
qed

section \<open>Properties of the framing\<close>

text \<open>The bytes of a run of sends on one connection.\<close>

fun send_many :: "(Message \<Rightarrow> byte list) \<Rightarrow> Message list \<Rightarrow> byte list res" where
  "send_many dumps [] = Inr []"
| "send_many dumps (m # ms) =
     res_bind (send_message dumps m) (\<lambda>bs. res_bind (send_many dumps ms) (\<lambda>bs'. Inr (bs @ bs')))"

lemma send_message_Inr: "send_message dumps m = Inr bs \<longleftrightarrow>
    length (dumps m) < 2 ^ 32 \<and> bs = be_bytes HEADER_SIZE (length (dumps m)) @ dumps m"
  by (auto simp: send_message_def to_bytes_big_def Let_def HEADER_SIZE_def)

lemma send_many_frames: "send_many dumps ms = Inr bs \<Longrightarrow>
    bs = concat (map (\<lambda>d. be_bytes HEADER_SIZE (length d) @ d) (map dumps ms))
    \<and> (\<forall>m \<in> set ms. length (dumps m) < 2 ^ 32)"
  by (induction ms arbitrary: bs) (auto simp: res_bind_Inr_iff send_message_Inr)

text \<open>The single reply a connection pool waits for.\<close>

lemma recv_reply:
  assumes "send_message dumps m = Inr bs" and "loads (dumps m) = Inr m"
  shows "prefix bs (avail st) \<Longrightarrow> fst (recv_message loads st) = Inr m"
    and "prefix bs (buf @ avail st) \<Longrightarrow> fst (recv_message_async loads (buf, st)) = Inr m"
proof -
  have m: "length (dumps m) < 2 ^ 32" "bs = be_bytes HEADER_SIZE (length (dumps m)) @ dumps m"
    using assms(1) by (auto simp: send_message_Inr)
  show "fst (recv_message loads st) = Inr m" if pre: "prefix bs (avail st)"
  proof -
    obtain rest where "avail st = bs @ rest" using pre by (auto simp: prefix_def)
    then have "avail st = be_bytes HEADER_SIZE (length (dumps m)) @ dumps m @ rest" using m(2) by simp
    from sync_source.recv_frame [OF this m(1), of loads] show ?thesis
      using assms(2) by (metis fst_conv recv_message_def)
  qed
  show "fst (recv_message_async loads (buf, st)) = Inr m" if pre: "prefix bs (buf @ avail st)"
  proof -
    obtain rest where "buf @ avail st = bs @ rest" using pre by (auto simp: prefix_def)
    then have "(case (buf, st) of (buf, st) \<Rightarrow> buf @ avail st)
        = be_bytes HEADER_SIZE (length (dumps m)) @ dumps m @ rest" using m(2) by simp
    from async_source.recv_frame [OF this m(1), of loads] show ?thesis
      using assms(2) by (metis fst_conv recv_message_async_def)
  qed
qed

text \<open>C9.
  Messages sent one after the other on a connection are received as they were sent, in order and
  with nothing left over from them, however the network cuts the bytes into chunks, by the blocking
  reader and by the asyncio reader (which may hold some of the bytes in its buffer already). The
  hypothesis on \<open>pickle\<close> is that it reads back what it wrote.
\<close>

theorem wire_roundtrip:
  assumes "\<forall>m \<in> set ms. loads (dumps m) = Inr m" and "send_many dumps ms = Inr bs"
    and "avail st = bs @ rest" and "buf @ avail st' = bs @ rest"
  shows "(\<exists>st1. recv_many (recv_message loads) (length ms) st = (Inr ms, st1) \<and> avail st1 = rest)
    \<and> (\<exists>buf1 st1. recv_many (recv_message_async loads) (length ms) (buf, st') = (Inr ms, buf1, st1)
        \<and> buf1 @ avail st1 = rest)"
proof -
  have bs: "bs = concat (map (\<lambda>d. be_bytes HEADER_SIZE (length d) @ d) (map dumps ms))"
    and len: "\<forall>m \<in> set ms. length (dumps m) < 2 ^ 32"
    using send_many_frames [OF assms(2)] by auto
  have all2: "list_all2 (\<lambda>d m. loads d = Inr m \<and> length d < 2 ^ 32) (map dumps ms) ms"
    using assms(1) len by (auto simp: list_all2_map1 intro: list.rel_refl_strong)
  show ?thesis
    using sync_source.recv_frames [OF _ all2, of st rest] assms(3) bs
      async_source.recv_frames [OF _ all2, of "(buf, st')" rest] assms(4)
    by (auto simp: recv_message_def recv_message_async_def)
qed

text \<open>C36.
  A connection that ends inside a message never yields a message: the blocking reader raises
  \<open>EOFError\<close> and the asyncio reader \<open>IncompleteReadError\<close> when the peer closed, and both
  raise the socket's own error when the connection was reset.
\<close>

theorem wire_cut:
  assumes "send_message dumps m = Inr bs" and "strict_prefix (avail st) bs"
    and "strict_prefix (buf @ avail st') bs"
  shows "fst (recv_message loads st) = Inl (ending EOFError st)
    \<and> fst (recv_message_async loads (buf, st')) = Inl (ending IncompleteReadError st')"
proof -
  have m: "length (dumps m) < 2 ^ 32" "bs = be_bytes HEADER_SIZE (length (dumps m)) @ dumps m"
    using assms(1) by (auto simp: send_message_Inr)
  show ?thesis
    using sync_source.recv_cut [OF m(1), of st loads] assms(2) m(2)
      async_source.recv_cut [OF m(1), of "(buf, st')" loads] assms(3)
    by (auto simp: recv_message_def recv_message_async_def)
qed

text \<open>
  A message is refused, by both senders and before a byte of it is written, exactly when its pickled
  form does not fit the four-byte length; otherwise what is written is four bytes longer than it.
\<close>

theorem wire_oversize:
  "send_message_async dumps m = send_message dumps m
   \<and> (send_message dumps m = Inl OverflowError \<longleftrightarrow> 2 ^ 32 \<le> length (dumps m))
   \<and> (case send_message dumps m of Inl e \<Rightarrow> e = OverflowError
      | Inr bs \<Rightarrow> length bs = length (dumps m) + HEADER_SIZE \<and> drop HEADER_SIZE bs = dumps m)"
  by (auto simp: send_message_def send_message_async_def to_bytes_big_def Let_def HEADER_SIZE_def)

section \<open>Witnesses\<close>

text \<open>A pickle that knows two messages, and a stream cut inside the first header.\<close>

definition toy_dumps :: "Message \<Rightarrow> byte list" where
  "toy_dumps m = (if mtype m = PING then [7] else [9, 9])"

definition toy_loads :: "byte list \<Rightarrow> Message res" where
  "toy_loads bs = (if bs = [7] then Inr (message PING PNone)
     else if bs = [9, 9] then Inr (message OK PNone) else Inl UnpicklingError)"

lemma header_size_Suc: "HEADER_SIZE = Suc (Suc (Suc (Suc 0)))"
  by (simp add: HEADER_SIZE_def)

lemma toy_sends:
  "send_message toy_dumps (message PING PNone) = Inr [0, 0, 0, 1, 7]"
  "send_message toy_dumps (message OK PNone) = Inr [0, 0, 0, 2, 9, 9]"
  by (auto simp: send_message_Inr toy_dumps_def header_size_Suc)

lemma wire_roundtrip_witness:
  "(\<exists>st1. recv_many (recv_message toy_loads) 2 [Data [0, 0], Data [0, 1, 7, 0, 0], Data [0, 2, 9, 9]]
        = (Inr [message PING PNone, message OK PNone], st1) \<and> avail st1 = [])
   \<and> (\<exists>buf1 st1. recv_many (recv_message_async toy_loads) 2 ([0, 0, 0], [Data [1, 7, 0, 0, 0, 2, 9], Data [9, 1]])
        = (Inr [message PING PNone, message OK PNone], buf1, st1) \<and> buf1 @ avail st1 = [1])"
proof -
  let ?ms = "[message PING PNone, message OK PNone]"
  let ?bs = "[0, 0, 0, 1, 7, 0, 0, 0, 2, 9, 9]"
  have loads: "\<forall>m \<in> set ?ms. toy_loads (toy_dumps m) = Inr m"
    by (simp add: toy_dumps_def toy_loads_def)
  have send: "send_many toy_dumps ?ms = Inr ?bs"
    by (simp add: toy_sends)
  note rt = wire_roundtrip [OF loads send]
  show ?thesis
    using rt [of "[Data [0, 0], Data [0, 1, 7, 0, 0], Data [0, 2, 9, 9]]" "[]" "[]" "[Data ?bs]"]
      rt [of "[Data (?bs @ [1])]" "[1]" "[0, 0, 0]" "[Data [1, 7, 0, 0, 0, 2, 9], Data [9, 1]]"]
    by (simp add: numeral_2_eq_2)
qed

lemma wire_cut_witness:
  "fst (recv_message toy_loads [Data [0, 0], Data [0]]) = Inl EOFError
   \<and> fst (recv_message_async toy_loads ([0, 0, 0], [Data [1], Fault OSError])) = Inl OSError"
proof -
  show ?thesis
    using wire_cut [of toy_dumps "message PING PNone" "[0, 0, 0, 1, 7]" "[Data [0, 0], Data [0]]"
        "[0, 0, 0]" "[Data [1], Fault OSError]" toy_loads] toy_sends
    by (simp add: strict_prefix_def)
qed

end
