(* ===== verification/Pool_Interface.thy ===== *)
theory Pool_Interface
  imports Wire
begin

text \<open>
  What the three connection pools (\<open>ConnectionPool\<close>, \<open>AsyncConnectionPool\<close>, \<open>MuxConnectionPool\<close>)
  share: the operating system's sockets as a record of operations on a network state, the
  dictionary of idle connections per peer, the invariant that accounts for every socket, and the
  contract a pool offers its callers (\<open>connection_pool/interface.py\<close>), as a locale.
\<close>

section \<open>Sockets\<close>

text \<open>
  A socket (an asyncio reader/writer pair) is a number. \<open>n_incoming\<close> is what a socket
  receives from now on, of type \<open>rx list\<close> for a socket, \<open>byte list \<times> rx list\<close> for a
  stream reader; \<open>n_advance\<close> stores what a read has left. \<open>n_closing\<close> is
  \<open>writer.is_closing()\<close>. \<open>n_made\<close> and \<open>n_open\<close> are not operations: they name the
  sockets created so far and those not closed yet, for the statements.
\<close>

record ('n, 's) net_ops =
  n_connect :: "string \<Rightarrow> int \<Rightarrow> 'n \<Rightarrow> nat res \<times> 'n"
  n_sendall :: "nat \<Rightarrow> byte list \<Rightarrow> 'n \<Rightarrow> unit res \<times> 'n"
  n_incoming :: "nat \<Rightarrow> 'n \<Rightarrow> 's"
  n_advance :: "nat \<Rightarrow> 's \<Rightarrow> 'n \<Rightarrow> 'n"
  n_close :: "nat \<Rightarrow> 'n \<Rightarrow> unit res \<times> 'n"
  n_closing :: "nat \<Rightarrow> 'n \<Rightarrow> bool"
  n_made :: "'n \<Rightarrow> nat set"
  n_open :: "'n \<Rightarrow> nat set"

text \<open>
  What the socket layer documents: \<open>connect\<close> makes a socket nobody has, \<open>close\<close> ends one
  (whether or not it raises), a transport that is closing is not open, and no other operation opens
  a socket (a socket whose \<open>connect\<close> failed is dropped, and its destructor closes it). A socket may stop
  being open at any time: the peer can close it.
\<close>

definition net_laws :: "('n, 's) net_ops \<Rightarrow> bool" where
  "net_laws net \<longleftrightarrow>
     (\<forall>h p n s n'. n_connect net h p n = (Inr s, n') \<longrightarrow>
        s \<notin> n_made net n \<and> n_made net n' = insert s (n_made net n)
        \<and> n_open net n' \<subseteq> insert s (n_open net n))
     \<and> (\<forall>h p n e n'. n_connect net h p n = (Inl e, n') \<longrightarrow>
        n_made net n \<subseteq> n_made net n' \<and> n_open net n' \<subseteq> n_open net n)
     \<and> (\<forall>s bs n. n_made net (snd (n_sendall net s bs n)) = n_made net n
        \<and> n_open net (snd (n_sendall net s bs n)) \<subseteq> n_open net n)
     \<and> (\<forall>s st n. n_made net (n_advance net s st n) = n_made net n
        \<and> n_open net (n_advance net s st n) \<subseteq> n_open net n)
     \<and> (\<forall>s n. n_made net (snd (n_close net s n)) = n_made net n
        \<and> n_open net (snd (n_close net s n)) \<subseteq> n_open net n - {s})
     \<and> (\<forall>s n. n_closing net s n \<longrightarrow> s \<notin> n_open net n)"

lemma law_connect: "net_laws net \<Longrightarrow> n_connect net h p n = (Inr s, n') \<Longrightarrow>
    s \<notin> n_made net n \<and> n_made net n' = insert s (n_made net n) \<and> n_open net n' \<subseteq> insert s (n_open net n)"
  by (simp add: net_laws_def)

lemma law_refused: "net_laws net \<Longrightarrow> n_connect net h p n = (Inl e, n') \<Longrightarrow>
    n_made net n \<subseteq> n_made net n' \<and> n_open net n' \<subseteq> n_open net n"
  by (simp add: net_laws_def)

lemma law_sendall: "net_laws net \<Longrightarrow> n_sendall net s bs n = (r, n') \<Longrightarrow>
    n_made net n' = n_made net n \<and> n_open net n' \<subseteq> n_open net n"
  unfolding net_laws_def by (elim conjE allE [of _ s] allE [of _ bs] allE [of _ n]) simp

lemma law_advance: "net_laws net \<Longrightarrow> n_made net (n_advance net s st n) = n_made net n
    \<and> n_open net (n_advance net s st n) \<subseteq> n_open net n"
  by (simp add: net_laws_def)

lemma law_close: "net_laws net \<Longrightarrow> n_made net (snd (n_close net s n)) = n_made net n
    \<and> n_open net (snd (n_close net s n)) \<subseteq> n_open net n - {s}"
  by (simp add: net_laws_def)

lemma law_closing: "net_laws net \<Longrightarrow> n_closing net s n \<Longrightarrow> s \<notin> n_open net n"
  by (simp add: net_laws_def)

text \<open>A socket receives next what the last read has left.\<close>

definition reads_on :: "('n, 's) net_ops \<Rightarrow> nat \<Rightarrow> bool" where
  "reads_on net s \<longleftrightarrow> (\<forall>st n. n_incoming net s (n_advance net s st n) = st)"

section \<open>Idle connections\<close>

text \<open>\<open>f"{host}:{port}"\<close>, the key of every pool's dictionary.\<close>

definition peer_address :: "string \<Rightarrow> int \<Rightarrow> string" where
  "peer_address h p = h @ '':'' @ py_str_int p"

text \<open>\<open>queue.LifoQueue\<close>: the head of the list is the entry put last; \<open>maxsize \<le> 0\<close> is no bound.\<close>

definition lifo_get :: "'a list \<Rightarrow> ('a \<times> 'a list) option" where
  "lifo_get q = (case q of [] \<Rightarrow> None | x # q' \<Rightarrow> Some (x, q'))"

definition lifo_put :: "int \<Rightarrow> 'a \<Rightarrow> 'a list \<Rightarrow> 'a list option" where
  "lifo_put maxsize x q = (if 0 < maxsize \<and> maxsize \<le> int (length q) then None else Some (x # q))"

definition q_of :: "(string \<times> nat list) list \<Rightarrow> string \<Rightarrow> nat list" where
  "q_of qs a = (case map_of qs a of None \<Rightarrow> [] | Some q \<Rightarrow> q)"

lemma q_of_Nil [simp]: "q_of [] = (\<lambda>a. [])"
  by (simp add: q_of_def fun_eq_iff)

lemma q_of_update [simp]: "q_of (AList.update a q qs) = (q_of qs)(a := q)"
  by (simp add: q_of_def fun_eq_iff dict_simps)

lemma q_of_delete [simp]: "q_of (AList.delete a qs) = (q_of qs)(a := [])"
  by (simp add: q_of_def fun_eq_iff dict_simps)

text \<open>The bound \<open>maxsize\<close> puts on a queue.\<close>

definition queue_cap :: "int \<Rightarrow> nat option" where
  "queue_cap maxsize = (if 0 < maxsize then Some (nat maxsize) else None)"

section \<open>The accounting invariant\<close>

text \<open>
  \<open>f\<close> is the idle connections per address (or queue object), \<open>H\<close> the connections in use by some caller,
  \<open>cap\<close> the bound on a queue (none for an unbounded one). A connection is idle at most once, never
  idle and in use, and every open one is idle or in use: none is lost.
\<close>

definition fits :: "nat option \<Rightarrow> 'a list \<Rightarrow> bool" where
  "fits cap q = (case cap of None \<Rightarrow> True | Some c \<Rightarrow> length q \<le> c)"

definition pool_inv :: "('n, 's) net_ops \<Rightarrow> nat option \<Rightarrow> ('a \<Rightarrow> nat list) \<Rightarrow> nat set \<Rightarrow> 'n \<Rightarrow> bool" where
  "pool_inv net cap f H n \<longleftrightarrow> net_laws net \<and> H \<subseteq> n_made net n
     \<and> n_open net n \<subseteq> H \<union> (\<Union>a. set (f a))
     \<and> (\<forall>a. distinct (f a) \<and> set (f a) \<subseteq> n_made net n - H \<and> fits cap (f a))
     \<and> (\<forall>a b. a \<noteq> b \<longrightarrow> set (f a) \<inter> set (f b) = {})"

lemma lifo_put_fits: "lifo_put mx s q = Some q' \<Longrightarrow> q' = s # q \<and> fits (queue_cap mx) (s # q)"
  by (auto simp: lifo_put_def fits_def queue_cap_def split: if_splits)

lemma pool_inv_laws: "pool_inv net cap f H n \<Longrightarrow> net_laws net"
  by (simp add: pool_inv_def)

lemma pool_inv_net:
  assumes "pool_inv net cap f H n" and "n_made net n \<subseteq> n_made net n'" and "n_open net n' \<subseteq> n_open net n"
  shows "pool_inv net cap f H n'"
  unfolding pool_inv_def
proof (intro conjI allI impI)
  show "n_open net n' \<subseteq> H \<union> (\<Union>a. set (f a))" using assms(1,3) unfolding pool_inv_def by blast
  show "set (f a) \<subseteq> n_made net n' - H" for a using assms(1,2) unfolding pool_inv_def by blast
qed (use assms(1,2) in \<open>auto simp: pool_inv_def\<close>)

lemma pool_inv_sendall:
  assumes "pool_inv net cap f H n" and "n_sendall net s bs n = (r, n')"
  shows "pool_inv net cap f H n'"
  using pool_inv_net [OF assms(1)] law_sendall [OF pool_inv_laws [OF assms(1)] assms(2)] assms(2) by auto

lemma pool_inv_advance: "pool_inv net cap f H n \<Longrightarrow> pool_inv net cap f H (n_advance net s st n)"
  using pool_inv_net law_advance pool_inv_laws by (metis subset_refl)

lemma pool_inv_refused:
  assumes "pool_inv net cap f H n" and "n_connect net h p n = (Inl e, n')"
  shows "pool_inv net cap f H n'"
  using pool_inv_net [OF assms(1)] law_refused [OF pool_inv_laws [OF assms(1)] assms(2)] assms(2) by auto

lemma pool_inv_connect:
  assumes "pool_inv net cap f H n" and "n_connect net h p n = (Inr s, n')"
  shows "pool_inv net cap f (insert s H) n'" and "s \<notin> H"
proof -
  have new: "s \<notin> n_made net n" "n_made net n' = insert s (n_made net n)" "n_open net n' \<subseteq> insert s (n_open net n)"
    using law_connect [OF pool_inv_laws [OF assms(1)] assms(2)] by auto
  then show "s \<notin> H" using assms(1) by (auto simp: pool_inv_def)
  show "pool_inv net cap f (insert s H) n'"
    unfolding pool_inv_def
  proof (intro conjI allI impI)
    show "n_open net n' \<subseteq> insert s H \<union> (\<Union>a. set (f a))" using assms(1) new(3) unfolding pool_inv_def by blast
    show "set (f a) \<subseteq> n_made net n' - insert s H" for a using assms(1) new(1,2) unfolding pool_inv_def by blast
  qed (use assms(1) new(2) in \<open>auto simp: pool_inv_def\<close>)
qed

lemma pool_inv_close_any:
  assumes "pool_inv net cap f H n" and "n_close net s n = (r, n')"
  shows "pool_inv net cap f H n'"
  using pool_inv_net [OF assms(1)] law_close [OF pool_inv_laws [OF assms(1)], of s n] assms(2) by auto

text \<open>A caller closes a connection it holds, whether or not \<open>close\<close> raises.\<close>

lemma pool_inv_close:
  assumes "pool_inv net cap f (insert s H) n" and "n_close net s n = (r, n')"
  shows "pool_inv net cap f H n'"
proof -
  have made: "n_made net n' = n_made net n" and opn: "n_open net n' \<subseteq> n_open net n - {s}"
    using law_close [OF pool_inv_laws [OF assms(1)], of s n] assms(2) by auto
  show ?thesis
    unfolding pool_inv_def
  proof (intro conjI allI impI)
    show "n_open net n' \<subseteq> H \<union> (\<Union>a. set (f a))" using assms(1) opn unfolding pool_inv_def by blast
    show "set (f a) \<subseteq> n_made net n' - H" for a using assms(1) made unfolding pool_inv_def by blast
  qed (use assms(1) made in \<open>auto simp: pool_inv_def\<close>)
qed

lemma pool_inv_queue:
  "pool_inv net cap f H n \<Longrightarrow> distinct (f a) \<and> set (f a) \<inter> H = {} \<and> fits cap (f a)"
  by (auto simp: pool_inv_def)

lemma fits_shorter: "fits cap q \<Longrightarrow> length q' \<le> length q \<Longrightarrow> fits cap q'"
  by (auto simp: fits_def split: option.splits)

text \<open>Connections move between the queue of one address and the callers.\<close>

lemma pool_inv_move:
  assumes "pool_inv net cap f H n" and "distinct q" and "fits cap q"
    and "set q \<union> H' \<subseteq> set (f a) \<union> H" and "set q \<inter> H' = {}"
    and "n_open net n \<inter> (set (f a) \<union> H) \<subseteq> set q \<union> H'"
  shows "pool_inv net cap (f(a := q)) H' n"
proof -
  have made: "set (f a) \<union> H \<subseteq> n_made net n" and opn: "n_open net n \<subseteq> H \<union> (\<Union>b. set (f b))"
    and each: "distinct (f b) \<and> set (f b) \<subseteq> n_made net n - H \<and> fits cap (f b)"
    and disj: "b \<noteq> c \<Longrightarrow> set (f b) \<inter> set (f c) = {}" for b c
    using assms(1) by (simp_all add: pool_inv_def) blast
  have "n_open net n \<subseteq> H' \<union> (\<Union>b. set ((f(a := q)) b))"
  proof
    fix s assume s: "s \<in> n_open net n"
    have "s \<in> H \<or> (\<exists>b. s \<in> set (f b))" using s opn by auto
    then consider "s \<in> set (f a) \<union> H" | b where "b \<noteq> a" "s \<in> set (f b)" by (metis UnCI)
    then show "s \<in> H' \<union> (\<Union>b. set ((f(a := q)) b))"
    proof cases
      case 1
      then have "s \<in> H' \<or> s \<in> set ((f(a := q)) a)" using s assms(6) by auto
      then show ?thesis by blast
    next
      case 2
      then have "s \<in> set ((f(a := q)) b)" by simp
      then show ?thesis by blast
    qed
  qed
  moreover have off: "set (f b) \<inter> (set q \<union> H') = {}" if "b \<noteq> a" for b
  proof -
    have "set (f b) \<inter> (set (f a) \<union> H) = {}" using each [of b] disj [OF that] by auto
    then show ?thesis using assms(4) by auto
  qed
  moreover have "distinct ((f(a := q)) b) \<and> set ((f(a := q)) b) \<subseteq> n_made net n - H' \<and> fits cap ((f(a := q)) b)" for b
  proof (cases "b = a")
    case True
    then show ?thesis using assms(2-5) made by auto
  next
    case False
    then show ?thesis using each [of b] off [OF False] by auto
  qed
  moreover have "set ((f(a := q)) b) \<inter> set ((f(a := q)) c) = {}" if "b \<noteq> c" for b c
    using that off [of b] off [of c] disj [of b c] by auto
  moreover have "H' \<subseteq> n_made net n" using made assms(4) by blast
  ultimately show ?thesis using pool_inv_laws [OF assms(1)] by (simp add: pool_inv_def)
qed

lemma pool_inv_take:
  assumes "pool_inv net cap f H n" and "f a = xs @ s # ys"
  shows "pool_inv net cap (f(a := xs @ ys)) (insert s H) n \<and> s \<notin> H"
proof -
  have "distinct (xs @ s # ys)" "set (xs @ s # ys) \<inter> H = {}" "fits cap (xs @ s # ys)"
    using pool_inv_queue [OF assms(1), of a] assms(2) by auto
  moreover from this(3) have "fits cap (xs @ ys)" by (rule fits_shorter) simp
  ultimately show ?thesis using pool_inv_move [OF assms(1), of "xs @ ys" "insert s H" a] assms(2) by auto
qed

lemma pool_inv_put:
  assumes "pool_inv net cap f (insert s H) n" and "s \<notin> H" and "f a = xs @ ys" and "fits cap (xs @ s # ys)"
  shows "pool_inv net cap (f(a := xs @ s # ys)) H n"
proof -
  have "distinct (xs @ ys)" "set (xs @ ys) \<inter> insert s H = {}"
    using pool_inv_queue [OF assms(1), of a] assms(3) by auto
  then show ?thesis using assms by (auto intro!: pool_inv_move [OF assms(1)])
qed

text \<open>A connection that is no longer open, or that the caller gives up with its queue, is dropped.\<close>

lemma pool_inv_drop:
  assumes "pool_inv net cap f H n" and "f a = s # ys" and "s \<notin> n_open net n"
  shows "pool_inv net cap (f(a := ys)) H n"
proof -
  have "distinct (s # ys)" "set (s # ys) \<inter> H = {}" "fits cap (s # ys)"
    using pool_inv_queue [OF assms(1), of a] assms(2) by auto
  moreover from this(3) have "fits cap (ys)" by (rule fits_shorter) simp
  ultimately show ?thesis using pool_inv_move [OF assms(1), of "ys" "H" a] assms(2) assms(3) by auto
qed

lemma pool_inv_forget:
  assumes "pool_inv net cap f (insert s H) n" and "s \<notin> n_open net n"
  shows "pool_inv net cap f H n"
proof -
  have "pool_inv net cap (f(a := f a)) H n" for a
    using pool_inv_queue [OF assms(1), of a] assms(2) by (intro pool_inv_move [OF assms(1)]) auto
  then show ?thesis by simp
qed

text \<open>Closing everything: all idle connections pass to the caller.\<close>

lemma pool_inv_give_up:
  assumes "pool_inv net cap f H n" shows "pool_inv net cap (\<lambda>a. []) ((\<Union>a. set (f a)) \<union> H) n"
proof -
  have "set (f a) \<subseteq> n_made net n" for a using assms unfolding pool_inv_def by blast
  then show ?thesis using assms by (auto simp: pool_inv_def fits_def subset_iff split: option.splits)
qed

lemma queues_union:
  assumes "wf_dict qs" shows "\<Union>(set ` set (map snd qs)) = (\<Union>a. set (q_of qs a))"
proof -
  have "map_of qs a = Some q \<longleftrightarrow> (a, q) \<in> set qs" for a q
    using assms by (simp add: wf_dict_def)
  then have "s \<in> (\<Union>a. set (q_of qs a)) \<longleftrightarrow> (\<exists>a q. (a, q) \<in> set qs \<and> s \<in> set q)" for s
    by (auto simp: q_of_def split: option.splits) (metis option.inject, metis)
  then show ?thesis by fastforce
qed

section \<open>What a pool promises\<close>

text \<open>
  The two protocols of \<open>connection_pool/interface.py\<close>, as the operations a client calls;
  \<open>Inl\<close> is an exception, \<open>Inr None\<close> no answer.
\<close>

record 'w pool_ops =
  p_exec :: "string \<Rightarrow> int \<Rightarrow> Message \<Rightarrow> 'w \<Rightarrow> Message option res \<times> 'w"
  p_close_peer :: "string \<Rightarrow> int \<Rightarrow> 'w \<Rightarrow> 'w"
  p_close_all :: "'w \<Rightarrow> 'w"

datatype pool_op = Exec string int Message | ClosePeer string int

fun op_address :: "pool_op \<Rightarrow> string" where
  "op_address (Exec h p m) = peer_address h p"
| "op_address (ClosePeer h p) = peer_address h p"

text \<open>A run of calls; what a call returns or raises does not stop the run.\<close>

fun pool_run :: "(string \<Rightarrow> int \<Rightarrow> Message \<Rightarrow> 'w \<Rightarrow> 'r \<times> 'w) \<Rightarrow> (string \<Rightarrow> int \<Rightarrow> 'w \<Rightarrow> 'w) \<Rightarrow> pool_op list
    \<Rightarrow> 'w \<Rightarrow> 'w" where
  "pool_run exec close [] w = w"
| "pool_run exec close (Exec h p m # ops) w = pool_run exec close ops (snd (exec h p m w))"
| "pool_run exec close (ClosePeer h p # ops) w = pool_run exec close ops (close h p w)"

text \<open>
  \<open>w\<close> is the pool together with the network; \<open>H\<close> the connections other callers are
  using at the moment.
\<close>

locale conn_pool =
  fixes invar :: "nat set \<Rightarrow> 'w \<Rightarrow> bool"
    and exec :: "string \<Rightarrow> int \<Rightarrow> Message \<Rightarrow> 'w \<Rightarrow> 'r \<times> 'w"
    and close_peer :: "string \<Rightarrow> int \<Rightarrow> 'w \<Rightarrow> 'w"
    and idle :: "'w \<Rightarrow> string \<Rightarrow> nat list"
    and opened :: "'w \<Rightarrow> nat set"
    and cap :: "nat option"
  assumes exec_invar: "invar H w \<Longrightarrow> invar H (snd (exec h p m w))"
    and exec_frame: "invar H w \<Longrightarrow> a \<noteq> peer_address h p \<Longrightarrow> idle (snd (exec h p m w)) a = idle w a"
    and close_invar: "invar H w \<Longrightarrow> invar H (close_peer h p w)"
    and close_frame: "invar H w \<Longrightarrow> a \<noteq> peer_address h p \<Longrightarrow> idle (close_peer h p w) a = idle w a"
    and close_idle: "invar H w \<Longrightarrow> idle (close_peer h p w) (peer_address h p) = []"
    and accounted: "invar H w \<Longrightarrow> opened w \<subseteq> H \<union> (\<Union>a. set (idle w a))"
    and bounded: "invar H w \<Longrightarrow> fits cap (idle w a)"
begin

lemma run_invar: "invar H w \<Longrightarrow> invar H (pool_run exec close_peer ops w)"
proof (induction ops arbitrary: w)
  case (Cons op ops)
  then show ?case by (cases op) (auto simp: exec_invar close_invar)
qed simp

lemma run_frame:
  "invar H w \<Longrightarrow> a \<notin> set (map op_address ops) \<Longrightarrow> idle (pool_run exec close_peer ops w) a = idle w a"
proof (induction ops arbitrary: w)
  case (Cons op ops)
  show ?case
  proof (cases op)
    case (Exec h p m)
    then show ?thesis
      using Cons.IH [OF exec_invar [OF Cons.prems(1), of h p m]] Cons.prems(2)
        exec_frame [OF Cons.prems(1), of a h p m] by simp
  next
    case (ClosePeer h p)
    then show ?thesis
      using Cons.IH [OF close_invar [OF Cons.prems(1), of h p]] Cons.prems(2)
        close_frame [OF Cons.prems(1), of a h p] by simp
  qed
qed simp

text \<open>
  Connections are kept for the contacted addresses only, at most \<open>c\<close> for each: that bounds the
  open connections of a pool nobody is using at the moment.
\<close>

lemma run_opened:
  assumes "invar {} w" and "\<And>a. idle w a = []" and "cap = Some c"
  shows "card (opened (pool_run exec close_peer ops w)) \<le> c * card (set (map op_address ops))"
proof -
  let ?w = "pool_run exec close_peer ops w" and ?A = "set (map op_address ops)"
  have inv: "invar {} ?w" using run_invar [OF assms(1)] .
  have "idle ?w a = []" if "a \<notin> ?A" for a
    using run_frame [OF assms(1) that] assms(2) by simp
  then have "set (idle ?w a) \<subseteq> (\<Union>a\<in>?A. set (idle ?w a))" for a by (cases "a \<in> ?A") auto
  moreover have "opened ?w \<subseteq> (\<Union>a. set (idle ?w a))" using accounted [OF inv] by simp
  ultimately have "opened ?w \<subseteq> (\<Union>a\<in>?A. set (idle ?w a))" by (meson UN_least subset_trans)
  then have "card (opened ?w) \<le> card (\<Union>a\<in>?A. set (idle ?w a))" by (intro card_mono) auto
  also have "\<dots> \<le> (\<Sum>a\<in>?A. card (set (idle ?w a)))" by (rule card_UN_le) simp
  also have "\<dots> \<le> (\<Sum>a\<in>?A. c)"
    using bounded [OF inv] assms(3) by (intro sum_mono) (auto simp: fits_def intro: le_trans [OF card_length])
  finally show ?thesis by (simp add: mult.commute)
qed

lemma run_close:
  assumes "invar {} w" shows "opened (close_peer h p (pool_run exec close_peer ops w))
    \<subseteq> (\<Union>a \<in> {a. a \<noteq> peer_address h p}. set (idle (pool_run exec close_peer ops w) a))"
proof
  let ?w = "pool_run exec close_peer ops w"
  note inv = run_invar [OF assms, of ops]
  fix s assume "s \<in> opened (close_peer h p ?w)"
  then obtain a where a: "s \<in> set (idle (close_peer h p ?w) a)"
    using accounted [OF close_invar [OF inv, of h p]] by auto
  then have "a \<noteq> peer_address h p" using close_idle [OF inv, of h p] by auto
  then show "s \<in> (\<Union>a \<in> {a. a \<noteq> peer_address h p}. set (idle ?w a))"
    using a close_frame [OF inv, of a h p] by auto
qed

end

section \<open>Peers that answer, and a small network\<close>

text \<open>Whenever a connection to the peer is opened, the request is taken and \<open>ok\<close> input follows.\<close>

definition fresh_serves :: "('n, 's) net_ops \<Rightarrow> string \<Rightarrow> int \<Rightarrow> byte list \<Rightarrow> ('s \<Rightarrow> bool) \<Rightarrow> bool" where
  "fresh_serves net h p bs ok \<longleftrightarrow>
     (\<forall>n. \<exists>s n1 n2. n_connect net h p n = (Inr s, n1) \<and> n_sendall net s bs n1 = (Inr (), n2)
        \<and> ok (n_incoming net s n2))"

definition closes_quietly :: "('n, 's) net_ops \<Rightarrow> bool" where
  "closes_quietly net \<longleftrightarrow> (\<forall>s n. fst (n_close net s n) = Inr ())"

text \<open>
  A network of numbered sockets for the witnesses: every connection succeeds and receives
  \<open>reply\<close>; connection 0 is from before and its peer has gone.
\<close>

definition demo_net :: "'s \<Rightarrow> 's \<Rightarrow> (nat \<times> nat list, 's) net_ops" where
  "demo_net reply nothing =
     \<lparr>n_connect = (\<lambda>h p (k, socks). (Inr (Suc k), Suc k, Suc k # socks)),
      n_sendall = (\<lambda>s bs n. (Inr (), n)),
      n_incoming = (\<lambda>s n. if s = 0 then nothing else reply),
      n_advance = (\<lambda>s st n. n),
      n_close = (\<lambda>s (k, socks). (Inr (), k, removeAll s socks)),
      n_closing = (\<lambda>s (k, socks). s \<notin> set socks),
      n_made = (\<lambda>(k, socks). {..k}),
      n_open = (\<lambda>(k, socks). set socks \<inter> {..k})\<rparr>"

lemma demo_net_laws: "net_laws (demo_net reply nothing)" "closes_quietly (demo_net reply nothing)"
    "n_open (demo_net reply nothing) (k, []) = {}"
  by (auto simp: net_laws_def closes_quietly_def demo_net_def)

lemma demo_net_serves: "ok reply \<Longrightarrow> fresh_serves (demo_net reply nothing) h p bs ok"
  by (auto simp: fresh_serves_def demo_net_def)

abbreviation silent_net :: "(nat \<times> nat list, rx list) net_ops" where
  "silent_net \<equiv> demo_net [] []"

abbreviation silent_streams :: "(nat \<times> nat list, byte list \<times> rx list) net_ops" where
  "silent_streams \<equiv> demo_net ([], []) ([], [])"

end
