(* ===== verification/Sync_Pool.thy ===== *)
theory Sync_Pool
  imports Pool_Interface
begin

text \<open>
  \<open>dlstorage/connection_pool/sync.py\<close>: the blocking pool. A call runs between the other
  callers' operations on the queues; \<open>H\<close> in the invariant stands for the connections those
  callers have taken out.
\<close>

section \<open>State and operations\<close>

record SyncPool =
  sp_max :: int
  sp_queues :: "(string \<times> nat list) list"

definition sp_init :: "int \<Rightarrow> SyncPool" where
  "sp_init max_per_peer = \<lparr>sp_max = max_per_peer, sp_queues = []\<rparr>"

text \<open>\<open>_queue\<close>: the peer's queue, created on first use.\<close>

definition sp_queue :: "string \<Rightarrow> SyncPool \<Rightarrow> SyncPool" where
  "sp_queue address p =
     (case map_of (sp_queues p) address of
        Some q \<Rightarrow> p
      | None \<Rightarrow> p\<lparr>sp_queues := AList.update address [] (sp_queues p)\<rparr>)"

definition sp_put :: "string \<Rightarrow> nat list \<Rightarrow> SyncPool \<Rightarrow> SyncPool" where
  "sp_put address q p = p\<lparr>sp_queues := AList.update address q (sp_queues p)\<rparr>"

text \<open>
  One attempt of \<open>execute\<close> on a connection, a \<open>try\<close> block: send, receive, give the
  connection back to the queue or close it if the queue is full. \<open>Inl\<close> is the exception that
  leaves the block, from any of these steps.
\<close>

definition sp_attempt :: "('n, rx list) net_ops \<Rightarrow> (Message \<Rightarrow> byte list) \<Rightarrow> (byte list \<Rightarrow> Message res)
    \<Rightarrow> string \<Rightarrow> nat \<Rightarrow> Message \<Rightarrow> SyncPool \<times> 'n \<Rightarrow> Message res \<times> SyncPool \<times> 'n" where
  "sp_attempt net dumps loads address sock msg w =
     (let (p, n) = w in
      case send_message dumps msg of
        Inl e \<Rightarrow> (Inl e, p, n)
      | Inr bs \<Rightarrow>
         (case n_sendall net sock bs n of
            (Inl e, n1) \<Rightarrow> (Inl e, p, n1)
          | (Inr _, n1) \<Rightarrow>
             (let (r, st) = recv_message loads (n_incoming net sock n1); n2 = n_advance net sock st n1
              in case r of
                 Inl e \<Rightarrow> (Inl e, p, n2)
               | Inr response \<Rightarrow>
                  (case lifo_put (sp_max p) sock (q_of (sp_queues p) address) of
                     Some q \<Rightarrow> (Inr response, sp_put address q p, n2)
                   | None \<Rightarrow>
                      (case n_close net sock n2 of
                         (Inl e, n3) \<Rightarrow> (Inl e, p, n3)
                       | (Inr _, n3) \<Rightarrow> (Inr response, p, n3))))))"

text \<open>The handler after a failed first attempt closes the connection; a fresh retry if it was reused.\<close>

definition sp_first :: "('n, rx list) net_ops \<Rightarrow> (Message \<Rightarrow> byte list) \<Rightarrow> (byte list \<Rightarrow> Message res)
    \<Rightarrow> string \<Rightarrow> int \<Rightarrow> Message \<Rightarrow> bool \<Rightarrow> nat \<Rightarrow> SyncPool \<times> 'n \<Rightarrow> Message option \<times> SyncPool \<times> 'n" where
  "sp_first net dumps loads h pt msg reused sock w =
     (case sp_attempt net dumps loads (peer_address h pt) sock msg w of
        (Inr response, p1, n1) \<Rightarrow> (Some response, p1, n1)
      | (Inl e, p1, n1) \<Rightarrow>
         (let n2 = snd (n_close net sock n1)
          in if \<not> reused then (None, p1, n2)
             else (case n_connect net h pt n2 of
                     (Inl e2, n3) \<Rightarrow> (None, p1, n3)
                   | (Inr sock2, n3) \<Rightarrow>
                      (case sp_attempt net dumps loads (peer_address h pt) sock2 msg (p1, n3) of
                         (Inr response, p4, n4) \<Rightarrow> (Some response, p4, n4)
                       | (Inl e3, p4, n4) \<Rightarrow> (None, p4, snd (n_close net sock2 n4))))))"

definition sp_execute :: "('n, rx list) net_ops \<Rightarrow> (Message \<Rightarrow> byte list) \<Rightarrow> (byte list \<Rightarrow> Message res)
    \<Rightarrow> string \<Rightarrow> int \<Rightarrow> Message \<Rightarrow> SyncPool \<times> 'n \<Rightarrow> Message option \<times> SyncPool \<times> 'n" where
  "sp_execute net dumps loads h pt msg w =
     (let address = peer_address h pt; p = sp_queue address (fst w)
      in case lifo_get (q_of (sp_queues p) address) of
           Some (sock, q) \<Rightarrow> sp_first net dumps loads h pt msg True sock (sp_put address q p, snd w)
         | None \<Rightarrow>
            (case n_connect net h pt (snd w) of
               (Inl e, n1) \<Rightarrow> (None, p, n1)
             | (Inr sock, n1) \<Rightarrow> sp_first net dumps loads h pt msg False sock (p, n1)))"

text \<open>
  \<open>close_peer\<close> and \<open>close_all\<close> take the connections out one by one; an
  \<open>OSError\<close> of \<open>close\<close> ends the loop as the empty queue does.
\<close>

fun sp_drain :: "('n, 's) net_ops \<Rightarrow> nat list \<Rightarrow> 'n \<Rightarrow> 'n" where
  "sp_drain net [] n = n"
| "sp_drain net (s # q) n =
     (case n_close net s n of (Inl e, n') \<Rightarrow> n' | (Inr _, n') \<Rightarrow> sp_drain net q n')"

definition sp_close_peer :: "('n, 's) net_ops \<Rightarrow> string \<Rightarrow> int \<Rightarrow> SyncPool \<times> 'n \<Rightarrow> SyncPool \<times> 'n" where
  "sp_close_peer net h pt w =
     (let (p, n) = w; address = peer_address h pt
      in case map_of (sp_queues p) address of
           None \<Rightarrow> (p, n)
         | Some q \<Rightarrow> (p\<lparr>sp_queues := AList.delete address (sp_queues p)\<rparr>, sp_drain net q n))"

definition sp_close_all :: "('n, 's) net_ops \<Rightarrow> SyncPool \<times> 'n \<Rightarrow> SyncPool \<times> 'n" where
  "sp_close_all net w =
     (let (p, n) = w
      in (p\<lparr>sp_queues := []\<rparr>, fold (sp_drain net) (map snd (sp_queues p)) n))"

text \<open>The pool as its clients see it: \<open>execute\<close> never raises.\<close>

definition sync_pool_ops :: "('n, rx list) net_ops \<Rightarrow> (Message \<Rightarrow> byte list) \<Rightarrow> (byte list \<Rightarrow> Message res)
    \<Rightarrow> (SyncPool \<times> 'n) pool_ops" where
  "sync_pool_ops net dumps loads =
     \<lparr>p_exec = (\<lambda>h pt m w. case sp_execute net dumps loads h pt m w of (r, w') \<Rightarrow> (Inr r, w')),
      p_close_peer = sp_close_peer net, p_close_all = sp_close_all net\<rparr>"

section \<open>Accounting\<close>

definition sp_inv :: "('n, 's) net_ops \<Rightarrow> int \<Rightarrow> nat set \<Rightarrow> SyncPool \<times> 'n \<Rightarrow> bool" where
  "sp_inv net mx H w \<longleftrightarrow> closes_quietly net \<and> sp_max (fst w) = mx
     \<and> wf_dict (sp_queues (fst w))
     \<and> pool_inv net (queue_cap mx) (q_of (sp_queues (fst w))) H (snd w)"

definition sp_idle :: "SyncPool \<times> 'n \<Rightarrow> string \<Rightarrow> nat list" where
  "sp_idle w = q_of (sp_queues (fst w))"

lemma sp_queue_simps [simp]:
  "q_of (sp_queues (sp_queue a p)) = q_of (sp_queues p)" "sp_max (sp_queue a p) = sp_max p"
  "wf_dict (sp_queues p) \<Longrightarrow> wf_dict (sp_queues (sp_queue a p))"
  by (auto simp: sp_queue_def q_of_def fun_eq_iff dict_simps split: option.splits)

lemma sp_put_simps [simp]:
  "q_of (sp_queues (sp_put a q p)) = (q_of (sp_queues p))(a := q)" "sp_max (sp_put a q p) = sp_max p"
  "wf_dict (sp_queues p) \<Longrightarrow> wf_dict (sp_queues (sp_put a q p))"
  by (simp_all add: sp_put_def)

text \<open>
  An attempt that returns has put the connection back or closed it; one that raises leaves it to
  the handler. It touches the queue of its own address only.
\<close>

lemma sp_attempt_inv:
  assumes "sp_inv net mx (insert s H) (p, n)" and "s \<notin> H"
    and "sp_attempt net dumps loads a s msg (p, n) = (r, w')"
  shows "(case r of Inl e \<Rightarrow> sp_inv net mx (insert s H) w' | Inr m \<Rightarrow> sp_inv net mx H w')
    \<and> (\<forall>b. b \<noteq> a \<longrightarrow> sp_idle w' b = sp_idle (p, n) b)"
proof -
  note inv = assms(1) [unfolded sp_inv_def, simplified]
  show ?thesis
  proof (cases "send_message dumps msg")
    case (Inl e)
    then show ?thesis using assms by (auto simp: sp_attempt_def)
  next
    case (Inr bs)
    obtain r1 n1 where n1: "n_sendall net s bs n = (r1, n1)" by fastforce
    note inv1 = pool_inv_sendall [OF conjunct2 [OF conjunct2 [OF conjunct2 [OF inv]]] n1]
    show ?thesis
    proof (cases r1)
      case (Inl e)
      then show ?thesis using assms(3) inv inv1 Inr n1 by (auto simp: sp_attempt_def sp_inv_def sp_idle_def)
    next
      case ok: (Inr u)
      obtain r2 st where r2: "recv_message loads (n_incoming net s n1) = (r2, st)" by fastforce
      note inv2 = pool_inv_advance [OF inv1, of s st]
      show ?thesis
      proof (cases r2)
        case (Inl e)
        then show ?thesis using assms(3) inv inv2 Inr n1 ok r2
          by (auto simp: sp_attempt_def sp_inv_def sp_idle_def)
      next
        case resp: (Inr m)
        show ?thesis
        proof (cases "lifo_put (sp_max p) s (q_of (sp_queues p) a)")
          case (Some q)
          then show ?thesis
            using assms(2,3) inv Inr n1 ok r2 resp lifo_put_fits [OF Some]
              pool_inv_put [OF inv2, of a "[]" "q_of (sp_queues p) a"]
            by (auto simp: sp_attempt_def sp_inv_def sp_idle_def)
        next
          case None
          obtain r3 n3 where n3: "n_close net s (n_advance net s st n1) = (r3, n3)" by fastforce
          then show ?thesis
            using assms(3) inv Inr n1 ok r2 resp None pool_inv_close [OF inv2 n3]
              pool_inv_close_any [OF inv2 n3]
            by (auto simp: sp_attempt_def sp_inv_def sp_idle_def split: sum.splits)
        qed
      qed
    qed
  qed
qed

lemma sp_close_held:
  "sp_inv net mx (insert s H) w \<Longrightarrow> sp_inv net mx H (fst w, snd (n_close net s (snd w)))"
  using pool_inv_close [of net "queue_cap mx" "q_of (sp_queues (fst w))" s H "snd w"] by (auto simp: sp_inv_def prod_eq_iff)

lemma sp_connect_held:
  assumes "sp_inv net mx H (p, n)" and "n_connect net h pt n = (r, n')"
  shows "case r of Inl e \<Rightarrow> sp_inv net mx H (p, n') | Inr s \<Rightarrow> sp_inv net mx (insert s H) (p, n') \<and> s \<notin> H"
proof (cases r)
  case (Inl e)
  then show ?thesis using assms pool_inv_refused [of net "queue_cap mx" "q_of (sp_queues p)"] by (auto simp: sp_inv_def)
next
  case (Inr s)
  then show ?thesis using assms pool_inv_connect [of net "queue_cap mx" "q_of (sp_queues p)"] by (auto simp: sp_inv_def)
qed

lemma sp_first_inv:
  assumes "sp_inv net mx (insert s H) (p, n)" and "s \<notin> H"
  shows "sp_inv net mx H (snd (sp_first net dumps loads h pt msg reused s (p, n)))
    \<and> (\<forall>b. b \<noteq> peer_address h pt \<longrightarrow>
          sp_idle (snd (sp_first net dumps loads h pt msg reused s (p, n))) b = sp_idle (p, n) b)"
proof -
  let ?a = "peer_address h pt"
  obtain r1 p1 n1 where w1: "sp_attempt net dumps loads ?a s msg (p, n) = (r1, p1, n1)" by (metis prod_cases3)
  note a1 = sp_attempt_inv [OF assms w1]
  show ?thesis
  proof (cases r1)
    case (Inr m)
    then show ?thesis using a1 w1 by (simp add: sp_first_def)
  next
    case (Inl e)
    obtain u n2 where n2: "n_close net s n1 = (u, n2)" by fastforce
    have inv2: "sp_inv net mx H (p1, n2)" using a1 Inl n2 sp_close_held [of net mx s H "(p1, n1)"] by simp
    obtain r3 n3 where n3: "n_connect net h pt n2 = (r3, n3)" by fastforce
    show ?thesis
    proof (cases "reused \<and> \<not> isl r3")
      case False
      then show ?thesis using Inl w1 n2 n3 inv2 a1 sp_connect_held [OF inv2 n3]
        by (cases r3; cases reused) (simp_all add: sp_first_def sp_idle_def Let_def)
    next
      case True
      then obtain s2 where s2: "r3 = Inr s2" by (cases r3) auto
      have inv3: "sp_inv net mx (insert s2 H) (p1, n3)" "s2 \<notin> H"
        using sp_connect_held [OF inv2 n3] s2 by auto
      obtain r4 p4 n4 where w4: "sp_attempt net dumps loads ?a s2 msg (p1, n3) = (r4, p4, n4)"
        by (metis prod_cases3)
      show ?thesis
        using sp_attempt_inv [OF inv3 w4] a1 Inl w1 n2 n3 s2 w4 True sp_close_held [of net mx s2 H "(p4, n4)"]
        by (cases r4) (simp_all add: sp_first_def sp_idle_def Let_def)
    qed
  qed
qed

lemma sp_execute_inv:
  assumes "sp_inv net mx H (p, n)"
  shows "sp_inv net mx H (snd (sp_execute net dumps loads h pt msg (p, n)))
    \<and> (\<forall>b. b \<noteq> peer_address h pt \<longrightarrow>
          sp_idle (snd (sp_execute net dumps loads h pt msg (p, n))) b = sp_idle (p, n) b)"
proof -
  let ?a = "peer_address h pt" and ?p = "sp_queue (peer_address h pt) p"
  have inv: "sp_inv net mx H (?p, n)" using assms by (simp add: sp_inv_def)
  show ?thesis
  proof (cases "q_of (sp_queues p) ?a")
    case Nil
    obtain r n1 where n1: "n_connect net h pt n = (r, n1)" by fastforce
    show ?thesis
      using Nil n1 sp_connect_held [OF inv n1] sp_first_inv [of net mx _ H ?p n1 dumps loads h pt msg False]
      by (cases r) (simp_all add: sp_execute_def lifo_get_def sp_idle_def Let_def)
  next
    case (Cons s q)
    have "pool_inv net (queue_cap mx) ((q_of (sp_queues p))(?a := [] @ q)) (insert s H) n \<and> s \<notin> H"
      using assms Cons by (intro pool_inv_take) (auto simp: sp_inv_def)
    then have "sp_inv net mx (insert s H) (sp_put ?a q ?p, n)" "s \<notin> H"
      using assms by (simp_all add: sp_inv_def)
    then show ?thesis
      using Cons sp_first_inv [of net mx s H "sp_put ?a q ?p" n dumps loads h pt msg True]
      by (simp add: sp_execute_def lifo_get_def sp_idle_def Let_def)
  qed
qed

lemma sp_drain_inv:
  "closes_quietly net \<Longrightarrow> pool_inv net cap f (set q \<union> H) n \<Longrightarrow> pool_inv net cap f H (sp_drain net q n)"
proof (induction q arbitrary: n)
  case (Cons s q)
  obtain r n' where n': "n_close net s n = (r, n')" by fastforce
  then have "r = Inr ()" using Cons.prems(1) by (metis closes_quietly_def fst_conv)
  then show ?case using Cons n' pool_inv_close [of net cap f s "set q \<union> H" n] by simp
qed simp

lemma sp_close_peer_inv:
  assumes "sp_inv net mx H (p, n)"
  shows "sp_inv net mx H (sp_close_peer net h pt (p, n))
    \<and> sp_idle (sp_close_peer net h pt (p, n)) = (sp_idle (p, n))(peer_address h pt := [])"
proof -
  let ?f = "q_of (sp_queues p)" and ?a = "peer_address h pt"
  have inv: "pool_inv net (queue_cap mx) ?f H n" and quiet: "closes_quietly net"
    using assms by (simp_all add: sp_inv_def)
  have "pool_inv net (queue_cap mx) (?f(?a := [])) (set (?f ?a) \<union> H) n"
    by (rule pool_inv_move [OF inv]) (auto simp: fits_def split: option.splits)
  then have "pool_inv net (queue_cap mx) (?f(?a := [])) H (sp_drain net (?f ?a) n)"
    using sp_drain_inv [OF quiet] by blast
  moreover have "?f ?a = []" if "map_of (sp_queues p) ?a = None" using that by (simp add: q_of_def)
  moreover have "?f ?a = q" if "map_of (sp_queues p) ?a = Some q" for q using that by (simp add: q_of_def)
  ultimately show ?thesis using assms
    by (auto simp: sp_close_peer_def sp_inv_def sp_idle_def Let_def fun_eq_iff split: option.splits)
qed

interpretation sync_pool: conn_pool "sp_inv net mx" "sp_execute net dumps loads" "sp_close_peer net" sp_idle
    "\<lambda>w. n_open net (snd w)" "queue_cap mx"
  for net :: "('n, rx list) net_ops" and mx dumps loads
proof
  fix H h pt msg a and w :: "SyncPool \<times> 'n"
  assume inv: "sp_inv net mx H w"
  obtain p n where w: "w = (p, n)" by fastforce
  note ex = sp_execute_inv [OF inv [unfolded w], of dumps loads h pt msg]
  note cl = sp_close_peer_inv [OF inv [unfolded w], of h pt]
  show "sp_inv net mx H (snd (sp_execute net dumps loads h pt msg w))" using ex w by simp
  show "sp_inv net mx H (sp_close_peer net h pt w)" using cl w by simp
  show "sp_idle (sp_close_peer net h pt w) (peer_address h pt) = []" using cl w by simp
  show "n_open net (snd w) \<subseteq> H \<union> (\<Union>a. set (sp_idle w a))"
    using inv by (simp add: sp_inv_def pool_inv_def sp_idle_def)
  show "fits (queue_cap mx) (sp_idle w a)" using inv by (simp add: sp_inv_def pool_inv_def sp_idle_def)
  show "sp_idle (snd (sp_execute net dumps loads h pt msg w)) a = sp_idle w a" if "a \<noteq> peer_address h pt"
    using ex w that by simp
  show "sp_idle (sp_close_peer net h pt w) a = sp_idle w a" if "a \<noteq> peer_address h pt"
    using cl w that by simp
qed

lemma sp_drain_all_inv:
  "closes_quietly net \<Longrightarrow> pool_inv net cap f (\<Union>(set ` set qs) \<union> H) n \<Longrightarrow>
    pool_inv net cap f H (fold (sp_drain net) qs n)"
proof (induction qs arbitrary: n)
  case (Cons q qs)
  then show ?case using sp_drain_inv [of net cap f q "\<Union>(set ` set qs) \<union> H" n] by (simp add: Un_assoc)
qed simp

section \<open>The peer of a connection\<close>

text \<open>
  \<open>peer n s\<close> is the address connection \<open>s\<close> was opened to; only \<open>connect\<close> changes it, for the connection it makes.
\<close>

definition peer_law :: "('n, 's) net_ops \<Rightarrow> ('n \<Rightarrow> nat \<Rightarrow> string) \<Rightarrow> bool" where
  "peer_law net peer \<longleftrightarrow>
     (\<forall>h pt n s n'. n_connect net h pt n = (Inr s, n') \<longrightarrow> peer n' = (peer n)(s := peer_address h pt))
     \<and> (\<forall>h pt n e n'. n_connect net h pt n = (Inl e, n') \<longrightarrow> peer n' = peer n)
     \<and> (\<forall>s bs n. peer (snd (n_sendall net s bs n)) = peer n)
     \<and> (\<forall>s st n. peer (n_advance net s st n) = peer n)
     \<and> (\<forall>s n. peer (snd (n_close net s n)) = peer n)"

lemma peer_lawD:
  assumes "peer_law net peer"
  shows "n_connect net h pt n = (Inr s, n') \<Longrightarrow> peer n' = (peer n)(s := peer_address h pt)"
    and "n_connect net h pt n = (Inl e, n') \<Longrightarrow> peer n' = peer n"
    and "n_sendall net s bs n = (u, n') \<Longrightarrow> peer n' = peer n"
    and "peer (n_advance net s st n) = peer n"
    and "n_close net s n = (v, n') \<Longrightarrow> peer n' = peer n"
  using assms unfolding peer_law_def by (blast, blast, metis snd_conv, blast, metis snd_conv)

text \<open>Every idle connection is in the queue of its peer.\<close>

definition homed :: "('n \<Rightarrow> nat \<Rightarrow> string) \<Rightarrow> SyncPool \<times> 'n \<Rightarrow> bool" where
  "homed peer w \<longleftrightarrow> (\<forall>a. \<forall>s \<in> set (sp_idle w a). peer (snd w) s = a)"

lemma sp_attempt_homed:
  assumes "peer_law net peer" and "homed peer (p, n)" and "peer n s = a"
    and "sp_attempt net dumps loads a s msg (p, n) = (r, p', n')"
  shows "homed peer (p', n') \<and> peer n' = peer n"
proof (cases "send_message dumps msg")
  case (Inl e)
  then show ?thesis using assms by (auto simp: sp_attempt_def)
next
  case (Inr bs)
  obtain r1 n1 where n1: "n_sendall net s bs n = (r1, n1)" by fastforce
  obtain r2 st where r2: "recv_message loads (n_incoming net s n1) = (r2, st)" by fastforce
  obtain r3 n3 where n3: "n_close net s (n_advance net s st n1) = (r3, n3)" by fastforce
  have same: "peer n1 = peer n" "peer (n_advance net s st n1) = peer n" "peer n3 = peer n"
    using peer_lawD(3) [OF assms(1) n1] peer_lawD(4) [OF assms(1), of s st n1] peer_lawD(5) [OF assms(1) n3] by simp_all
  show ?thesis
    using assms(2-4) Inr n1 r2 n3 same
    by (auto simp: sp_attempt_def homed_def sp_idle_def Let_def dest!: lifo_put_fits split: sum.splits option.splits if_splits)
qed

text \<open>A new connection is in no queue yet.\<close>

lemma sp_connect_homed:
  assumes "peer_law net peer" and "homed peer (p, n)" and "sp_inv net mx H (p, n)" and "n_connect net h pt n = (r, n')"
  shows "homed peer (p, n') \<and> (\<forall>s. r = Inr s \<longrightarrow> peer n' s = peer_address h pt)"
proof (cases r)
  case (Inl e)
  then show ?thesis using assms(2,4) peer_lawD(2) [OF assms(1)] by (auto simp: homed_def sp_idle_def)
next
  case (Inr s)
  have "pool_inv net (queue_cap mx) (q_of (sp_queues p)) (insert s H) n'"
    using sp_connect_held [OF assms(3,4)] Inr by (simp add: sp_inv_def)
  from pool_inv_queue [OF this] have "s \<notin> set (sp_idle (p, n') a)" for a by (auto simp: sp_idle_def)
  then show ?thesis using assms(2) peer_lawD(1) [OF assms(1) assms(4) [unfolded Inr]] Inr
    by (auto simp: homed_def sp_idle_def)
qed

lemma sp_close_homed: "peer_law net peer \<Longrightarrow> homed peer (p, snd (n_close net s n)) = homed peer (p, n)"
  using peer_lawD(5) [of net peer s n] by (simp add: homed_def sp_idle_def prod_eq_iff)

lemma sp_first_homed:
  assumes "peer_law net peer" and "homed peer (p, n)" and "peer n s = peer_address h pt"
    and "sp_inv net mx (insert s H) (p, n)" and "s \<notin> H"
  shows "homed peer (snd (sp_first net dumps loads h pt msg reused s (p, n)))"
proof -
  let ?a = "peer_address h pt"
  obtain r1 p1 n1 where w1: "sp_attempt net dumps loads ?a s msg (p, n) = (r1, p1, n1)" by (metis prod_cases3)
  note one = sp_attempt_homed [OF assms(1-3) w1]
  show ?thesis
  proof (cases r1)
    case (Inr m)
    then show ?thesis using one w1 by (simp add: sp_first_def)
  next
    case (Inl e)
    let ?n2 = "snd (n_close net s n1)"
    have two: "homed peer (p1, ?n2)" using one sp_close_homed [OF assms(1)] by blast
    have inv2: "sp_inv net mx H (p1, ?n2)"
      using sp_attempt_inv [OF assms(4,5) w1] Inl sp_close_held [of net mx s H "(p1, n1)"] by simp
    obtain r3 n3 where n3: "n_connect net h pt ?n2 = (r3, n3)" by fastforce
    note three = sp_connect_homed [OF assms(1) two inv2 n3]
    show ?thesis
    proof (cases r3)
      case (Inl e2)
      then show ?thesis using \<open>r1 = Inl e\<close> w1 n3 two three by (simp add: sp_first_def Let_def)
    next
      case (Inr s2)
      obtain r4 p4 n4 where w4: "sp_attempt net dumps loads ?a s2 msg (p1, n3) = (r4, p4, n4)" by (metis prod_cases3)
      have "homed peer (p4, n4)" using sp_attempt_homed [OF assms(1) _ _ w4] three Inr by simp
      then show ?thesis
        using \<open>r1 = Inl e\<close> Inr w1 n3 w4 two sp_close_homed [OF assms(1)]
        by (cases r4) (simp_all add: sp_first_def Let_def)
    qed
  qed
qed

lemma sp_execute_homed:
  assumes "peer_law net peer" and "homed peer w" and "sp_inv net mx {} w"
  shows "homed peer (snd (sp_execute net dumps loads h pt msg w))"
proof -
  obtain p n where w: "w = (p, n)" by fastforce
  let ?a = "peer_address h pt" and ?p = "sp_queue (peer_address h pt) p"
  have inv: "sp_inv net mx {} (?p, n)" and home: "homed peer (?p, n)"
    using assms(2,3) by (simp_all add: w sp_inv_def homed_def sp_idle_def)
  show ?thesis
  proof (cases "q_of (sp_queues p) ?a")
    case Nil
    obtain r n1 where n1: "n_connect net h pt n = (r, n1)" by fastforce
    note one = sp_connect_homed [OF assms(1) home inv n1] sp_connect_held [OF inv n1]
    show ?thesis
    proof (cases r)
      case (Inl e)
      then show ?thesis using Nil n1 one by (simp add: w sp_execute_def lifo_get_def Let_def)
    next
      case (Inr s)
      then show ?thesis
        using Nil n1 one sp_first_homed [OF assms(1), of ?p n1 s h pt mx "{}" dumps loads msg False]
        by (simp add: w sp_execute_def lifo_get_def Let_def)
    qed
  next
    case (Cons s q)
    have "pool_inv net (queue_cap mx) ((q_of (sp_queues p))(?a := [] @ q)) (insert s {}) n \<and> s \<notin> {}"
      using assms(3) Cons by (intro pool_inv_take) (auto simp: w sp_inv_def)
    then have "sp_inv net mx (insert s {}) (sp_put ?a q ?p, n)" using inv by (simp add: sp_inv_def)
    moreover have "homed peer (sp_put ?a q ?p, n)" "peer n s = ?a"
      using home Cons by (auto simp: homed_def sp_idle_def)
    ultimately show ?thesis
      using Cons sp_first_homed [OF assms(1), of "sp_put ?a q ?p" n s h pt mx "{}" dumps loads msg True]
      by (simp add: w sp_execute_def lifo_get_def Let_def)
  qed
qed

lemma sp_drain_peer: "peer_law net peer \<Longrightarrow> peer (sp_drain net q n) = peer n"
proof (induction q arbitrary: n)
  case (Cons s q)
  then show ?case using peer_lawD(5) [OF Cons.prems] by (auto split: prod.split sum.split)
qed simp

lemma sp_close_peer_homed: "peer_law net peer \<Longrightarrow> homed peer w \<Longrightarrow> homed peer (sp_close_peer net h pt w)"
  by (cases w) (auto simp: sp_close_peer_def homed_def sp_idle_def sp_drain_peer Let_def split: option.split)

lemma sp_run_homed:
  assumes "peer_law net peer"
  shows "homed peer w \<Longrightarrow> sp_inv net mx {} w \<Longrightarrow>
    homed peer (pool_run (sp_execute net dumps loads) (sp_close_peer net) ops w)"
proof (induction ops arbitrary: w)
  case (Cons op ops)
  then show ?case
    using sp_execute_homed [OF assms] sp_close_peer_homed [OF assms] sync_pool.exec_invar [of net mx "{}"]
      sync_pool.close_invar [of net mx "{}"]
    by (cases op) simp_all
qed simp

section \<open>Properties\<close>

text \<open>C24.
  After any sequence of requests and peer drops on a new pool of \<open>max_per_peer = mx > 0\<close>, at most
  \<open>mx\<close> connections are open to any one address, whatever the network did to each request; and
  \<open>close_all\<close> then leaves none open. Hypotheses: the socket layer keeps its documented laws, a connection
  has one peer for its life, and \<open>close\<close> does not raise.
\<close>

theorem sync_pool_accounting:
  assumes "net_laws net" and "closes_quietly net" and "peer_law net peer" and "n_open net n = {}" and "0 < mx"
    and "w = pool_run (sp_execute net dumps loads) (sp_close_peer net) ops (sp_init mx, n)"
  shows "card {s \<in> n_open net (snd w). peer (snd w) s = a} \<le> nat mx
    \<and> card (n_open net (snd w)) \<le> nat mx * card (set (map op_address ops))
    \<and> n_open net (snd (sp_close_all net w)) = {}"
proof (intro conjI)
  have init: "sp_inv net mx {} (sp_init mx, n)"
    using assms(1,2,4) by (simp add: sp_inv_def sp_init_def pool_inv_def fits_def split: option.splits)
  show "card (n_open net (snd w)) \<le> nat mx * card (set (map op_address ops))"
    unfolding assms(6) using assms(5)
    by (intro sync_pool.run_opened [OF init]) (simp_all add: sp_idle_def sp_init_def queue_cap_def)
  have "sp_inv net mx {} w" unfolding assms(6) by (rule sync_pool.run_invar [OF init])
  then have inv: "pool_inv net (queue_cap mx) (q_of (sp_queues (fst w))) {} (snd w)"
    and wf: "wf_dict (sp_queues (fst w))"
    by (simp_all add: sp_inv_def)
  have "homed peer (sp_init mx, n)" by (simp add: homed_def sp_idle_def sp_init_def)
  then have home: "homed peer w" unfolding assms(6) using sp_run_homed [OF assms(3) _ init] by blast
  have "{s \<in> n_open net (snd w). peer (snd w) s = a} \<subseteq> set (sp_idle w a)"
    using inv home by (auto simp: pool_inv_def homed_def sp_idle_def)
  then have "card {s \<in> n_open net (snd w). peer (snd w) s = a} \<le> length (sp_idle w a)"
    by (meson List.finite_set card_length card_mono le_trans)
  also have "\<dots> \<le> nat mx"
    using pool_inv_queue [OF inv, of a] assms(5) by (simp add: fits_def queue_cap_def sp_idle_def)
  finally show "card {s \<in> n_open net (snd w). peer (snd w) s = a} \<le> nat mx" .
  have "pool_inv net (queue_cap mx) (\<lambda>a. []) (\<Union>(set ` set (map snd (sp_queues (fst w)))) \<union> {}) (snd w)"
    unfolding queues_union [OF wf] using pool_inv_give_up [OF inv] by simp
  from sp_drain_all_inv [OF assms(2) this]
  show "n_open net (snd (sp_close_all net w)) = {}"
    by (cases w) (simp add: sp_close_all_def pool_inv_def)
qed

text \<open>A network that records whom each connection was opened to.\<close>

definition peer_net :: "rx list \<Rightarrow> ((nat \<times> nat list) \<times> (nat \<Rightarrow> string), rx list) net_ops" where
  "peer_net reply =
     \<lparr>n_connect = (\<lambda>h pt ((k, socks), f). (Inr (Suc k), (Suc k, Suc k # socks), f(Suc k := peer_address h pt))),
      n_sendall = (\<lambda>s bs n. (Inr (), n)), n_incoming = (\<lambda>s n. reply), n_advance = (\<lambda>s st n. n),
      n_close = (\<lambda>s ((k, socks), f). (Inr (), (k, removeAll s socks), f)), n_closing = (\<lambda>s ((k, socks), f). s \<notin> set socks),
      n_made = (\<lambda>((k, socks), f). {..k}), n_open = (\<lambda>((k, socks), f). set socks \<inter> {..k})\<rparr>"

lemma peer_net_laws:
  "net_laws (peer_net reply)" "closes_quietly (peer_net reply)" "peer_law (peer_net reply) snd"
  "n_open (peer_net reply) ((k, []), f) = {}"
  by (auto simp: net_laws_def closes_quietly_def peer_law_def peer_net_def)

lemma sync_pool_accounting_witness:
  "\<exists>w. w = pool_run (sp_execute (peer_net [Data [0, 0, 0, 2, 9, 9]]) toy_dumps toy_loads) (sp_close_peer (peer_net [Data [0, 0, 0, 2, 9, 9]]))
      [Exec ''a'' 1 (message PING PNone), Exec ''b'' 1 (message PING PNone)] (sp_init 2, ((0, []), (\<lambda>_. [])))
    \<and> card {s \<in> n_open (peer_net [Data [0, 0, 0, 2, 9, 9]]) (snd w). snd (snd w) s = ''a:1''} \<le> 2"
  using sync_pool_accounting [where mx = 2 and net = "peer_net [Data [0, 0, 0, 2, 9, 9]]" and n = "((0, []), \<lambda>_. [])"
      and dumps = toy_dumps and loads = toy_loads and a = "''a:1''"
      and ops = "[Exec ''a'' 1 (message PING PNone), Exec ''b'' 1 (message PING PNone)]", OF peer_net_laws]
  by simp

text \<open>A fresh connection to a peer that serves answers the request.\<close>

lemma sp_attempt_fresh:
  assumes "send_message dumps msg = Inr bs" and "n_sendall net s bs n = (Inr (), n1)"
    and "send_message rdumps response = Inr reply" and "loads (rdumps response) = Inr response"
    and "prefix reply (avail (n_incoming net s n1))" and "closes_quietly net"
  shows "fst (sp_attempt net dumps loads a s msg (p, n)) = Inr response"
proof -
  obtain st where "recv_message loads (n_incoming net s n1) = (Inr response, st)"
    using recv_reply(1) [where loads = loads, OF assms(3,4,5)] by (metis prod.collapse)
  moreover obtain n3 where "n_close net s (n_advance net s st n1) = (Inr (), n3)"
    using assms(6) by (metis closes_quietly_def prod.collapse)
  ultimately show ?thesis using assms(1,2) by (simp add: sp_attempt_def Let_def split: option.splits)
qed

text \<open>C25.
  A request to a peer that answers on every new connection is answered, whatever has become of the
  pooled connections (the peer may have restarted): the reply comes from the pooled connection if that
  one works, and otherwise from the single retry on a fresh one. It never comes back as \<open>None\<close>.
\<close>

theorem sync_execute_recovers:
  assumes "send_message dumps msg = Inr bs"
    and "send_message rdumps response = Inr reply" and "loads (rdumps response) = Inr response"
    and "fresh_serves net h pt bs (\<lambda>st. prefix reply (avail st))" and "closes_quietly net"
  shows "case sp_idle (p, n) (peer_address h pt) of
      [] \<Rightarrow> fst (sp_execute net dumps loads h pt msg (p, n)) = Some response
    | s # q \<Rightarrow> fst (sp_execute net dumps loads h pt msg (p, n)) =
        Some (case fst (sp_attempt net dumps loads (peer_address h pt) s msg
                (sp_put (peer_address h pt) q (sp_queue (peer_address h pt) p), n)) of
              Inr m \<Rightarrow> m | Inl e \<Rightarrow> response)"
proof -
  have fresh: "\<exists>s n1. n_connect net h pt n = (Inr s, n1)
      \<and> (\<forall>p. fst (sp_attempt net dumps loads (peer_address h pt) s msg (p, n1)) = Inr response)" for n
  proof -
    obtain s n1 n2 where "n_connect net h pt n = (Inr s, n1)" "n_sendall net s bs n1 = (Inr (), n2)"
        "prefix reply (avail (n_incoming net s n2))"
      using assms(4) unfolding fresh_serves_def by blast
    then show ?thesis using sp_attempt_fresh [where loads = loads, OF assms(1) _ assms(2,3) _ assms(5)] by blast
  qed
  show ?thesis
  proof (cases "sp_idle (p, n) (peer_address h pt)")
    case Nil
    obtain s n1 where "n_connect net h pt n = (Inr s, n1)"
        "\<forall>p. fst (sp_attempt net dumps loads (peer_address h pt) s msg (p, n1)) = Inr response"
      using fresh by blast
    then show ?thesis using Nil
      by (auto simp: sp_execute_def sp_idle_def lifo_get_def sp_first_def Let_def
          split: sum.splits prod.splits dest!: spec [of _ "sp_queue (peer_address h pt) p"])
  next
    case (Cons s q)
    let ?w = "(sp_put (peer_address h pt) q (sp_queue (peer_address h pt) p), n)"
    obtain r1 p1 n1 where w1: "sp_attempt net dumps loads (peer_address h pt) s msg ?w = (r1, p1, n1)"
      by (metis prod_cases3)
    obtain s2 n3 where s2: "n_connect net h pt (snd (n_close net s n1)) = (Inr s2, n3)"
        "fst (sp_attempt net dumps loads (peer_address h pt) s2 msg (p1, n3)) = Inr response"
      using fresh by blast
    then obtain w4 where "sp_attempt net dumps loads (peer_address h pt) s2 msg (p1, n3) = (Inr response, w4)"
      by (metis prod.collapse)
    then show ?thesis using Cons w1 s2(1)
      by (cases r1; cases w4) (simp_all add: sp_execute_def sp_idle_def lifo_get_def sp_first_def Let_def)
  qed
qed

text \<open>The peer has closed connection 0, which is in the pool; a fresh connection answers.\<close>

lemma sync_execute_recovers_witness:
  "fst (sp_execute (demo_net [Data [0, 0, 0, 2], Data [9, 9]] []) toy_dumps toy_loads ''a'' 1
      (message PING PNone) (\<lparr>sp_max = 2, sp_queues = [(''a:1'', [0])]\<rparr>, (Suc 0, [0])))
     = Some (message OK PNone)"
proof -
  let ?net = "demo_net [Data [0, 0, 0, 2], Data [9, 9]] []" and ?p = "\<lparr>sp_max = 2, sp_queues = [(''a:1'', [0])]\<rparr>"
  have addr: "peer_address ''a'' 1 = ''a:1''" by code_simp
  have serves: "fresh_serves ?net ''a'' 1 [0, 0, 0, 1, 7] (\<lambda>st. prefix [0, 0, 0, 2, 9, 9] (avail st))"
    by (rule demo_net_serves) simp
  have stale: "fst (sp_attempt ?net toy_dumps toy_loads ''a:1'' 0 (message PING PNone)
      (sp_put ''a:1'' [] (sp_queue ''a:1'' ?p), (Suc 0, [0]))) = Inl EOFError"
    by (simp add: sp_attempt_def toy_sends demo_net_def recv_message_def recv_message_with_def
        recvexactly_def recv_loop.simps header_size_Suc)
  show ?thesis
    using sync_execute_recovers [where loads = toy_loads,
        OF toy_sends(1,2) _ serves demo_net_laws(2), of ?p "(Suc 0, [0])"]
    by (simp add: toy_loads_def toy_dumps_def addr sp_idle_def q_of_def stale)
qed

text \<open>
  When closing one pooled connection raises \<open>OSError\<close>, \<open>close_peer\<close> stops: the peer's
  queue is already out of the dictionary, and the connections behind the failing one that are still
  open stay open with no queue that holds them, so neither \<open>execute\<close> nor \<open>close_all\<close> ever
  reaches them.
\<close>

theorem sync_close_peer_abandons:
  assumes "pool_inv net cap (q_of (sp_queues p)) H n" and "wf_dict (sp_queues p)"
    and "map_of (sp_queues p) (peer_address h pt) = Some (s # q)"
    and "n_close net s n = (Inl OSError, n')" and "t \<in> set q" and "t \<in> n_open net n'"
    and "w' = sp_close_peer net h pt (p, n)"
  shows "t \<in> n_open net (snd w') \<and> (\<forall>a. t \<notin> set (sp_idle w' a))"
proof -
  have "q_of (sp_queues p) (peer_address h pt) = s # q" using assms(3) by (simp add: q_of_def)
  then have "t \<notin> set (q_of (sp_queues p) a)" if "a \<noteq> peer_address h pt" for a
    using assms(1,5) that unfolding pool_inv_def by (metis disjoint_iff list.set_intros(2))
  then show ?thesis using assms by (auto simp: sp_close_peer_def sp_idle_def)
qed

text \<open>Connections 0 and 1 are pooled; closing 0 raises, 1 is left.\<close>

lemma sync_close_peer_abandons_witness:
  "let net = silent_net\<lparr>n_close := (\<lambda>s (k, socks). (Inl OSError, k, removeAll s socks))\<rparr>;
       p = \<lparr>sp_max = 2, sp_queues = [(''a:1'', [0, Suc 0])]\<rparr>
   in Suc 0 \<in> n_open net (snd (sp_close_peer net ''a'' 1 (p, (Suc 0, [Suc 0, 0]))))
      \<and> (\<forall>a. Suc 0 \<notin> set (sp_idle (sp_close_peer net ''a'' 1 (p, (Suc 0, [Suc 0, 0]))) a))"
proof -
  let ?net = "silent_net\<lparr>n_close := (\<lambda>s (k, socks). (Inl OSError, k, removeAll s socks))\<rparr>"
  let ?p = "\<lparr>sp_max = 2, sp_queues = [(''a:1'', [0, Suc 0])]\<rparr>"
  have addr: "peer_address ''a'' 1 = ''a:1''" by code_simp
  have "pool_inv ?net None (q_of (sp_queues ?p)) {} (Suc 0, [Suc 0, 0])"
    by (auto simp: pool_inv_def net_laws_def demo_net_def q_of_def fits_def)
  from sync_close_peer_abandons [OF this _ _ _ _ _ refl, of "''a''" 1 0 "[Suc 0]" "(Suc 0, [Suc 0])" "Suc 0"]
  show ?thesis by (simp add: addr wf_dict_def demo_net_def)
qed

end
