(* ===== verification/Pool_Shared.thy ===== *)
theory Pool_Shared
  imports Pool_Interface
begin

text \<open>
  What the pools of \<open>connection_pool/sync.py\<close> and \<open>async_.py\<close> are when several calls run at once: the
  dictionary maps an address to a queue \<open>object\<close>, which a call that has looked it up keeps although
  \<open>close_peer\<close> may take it out of the dictionary meanwhile. The invariant here is about the connections
  each of the running calls holds; \<open>Pool_Threads\<close> and \<open>Pool_Tasks\<close> give the steps of the calls.
\<close>

section \<open>The shared state\<close>

record ThreadPool =
  th_max :: int
  th_dict :: "(string \<times> nat) list"
  th_heap :: "nat \<Rightarrow> nat list"
  th_next :: nat

definition th_init :: "int \<Rightarrow> ThreadPool" where
  "th_init max_per_peer = \<lparr>th_max = max_per_peer, th_dict = [], th_heap = (\<lambda>q. []), th_next = 0\<rparr>"

datatype call = Call string int Message

fun call_address :: "call \<Rightarrow> string" where
  "call_address (Call h pt msg) = peer_address h pt"

definition th_set :: "nat \<Rightarrow> nat list \<Rightarrow> ThreadPool \<Rightarrow> ThreadPool" where
  "th_set q xs p = p\<lparr>th_heap := (th_heap p)(q := xs)\<rparr>"

lemma th_set_simps [simp]:
  "th_heap (th_set q xs p) = (th_heap p)(q := xs)" "th_max (th_set q xs p) = th_max p"
  "th_dict (th_set q xs p) = th_dict p" "th_next (th_set q xs p) = th_next p"
  by (simp_all add: th_set_def)

text \<open>A new queue object for an address.\<close>

definition th_new :: "string \<Rightarrow> ThreadPool \<Rightarrow> ThreadPool" where
  "th_new a p = p\<lparr>th_dict := AList.update a (th_next p) (th_dict p), th_next := Suc (th_next p)\<rparr>"

lemma th_new_simps [simp]:
  "th_heap (th_new a p) = th_heap p" "th_max (th_new a p) = th_max p" "th_next (th_new a p) = Suc (th_next p)"
  "map_of (th_dict (th_new a p)) b = (if b = a then Some (th_next p) else map_of (th_dict p) b)"
  by (simp_all add: th_new_def dict_simps)

section \<open>Connections in use\<close>

text \<open>\<open>H t\<close>: what call \<open>t\<close> holds.\<close>

definition shared_inv :: "('n, 's) net_ops \<Rightarrow> int \<Rightarrow> (nat \<Rightarrow> nat set) \<Rightarrow> ThreadPool \<Rightarrow> 'n \<Rightarrow> bool" where
  "shared_inv net mx H p n \<longleftrightarrow> th_max p = mx \<and> (\<forall>t u. t \<noteq> u \<longrightarrow> H t \<inter> H u = {})
     \<and> pool_inv net (queue_cap mx) (th_heap p) (\<Union>t. H t) n"

text \<open>A step of call \<open>t\<close> needs to be looked at beside any set \<open>K\<close> of connections the others hold.\<close>

lemma shared_inv_step:
  assumes "shared_inv net mx H p n"
    and "\<And>K. pool_inv net (queue_cap mx) (th_heap p) (H t \<union> K) n \<Longrightarrow> H t \<inter> K = {} \<Longrightarrow> th_max p = mx \<Longrightarrow>
      pool_inv net (queue_cap mx) (th_heap p') (A \<union> K) n' \<and> A \<inter> K = {} \<and> th_max p' = mx"
  shows "shared_inv net mx (H(t := A)) p' n'"
proof -
  let ?K = "\<Union>u \<in> - {t}. H u"
  have "(\<Union>u. H u) = H t \<union> ?K" by auto
  moreover have "H t \<inter> ?K = {}" using assms(1) by (auto simp: shared_inv_def)
  ultimately have "pool_inv net (queue_cap mx) (th_heap p) (H t \<union> ?K) n" "H t \<inter> ?K = {}" "th_max p = mx"
    using assms(1) by (simp_all add: shared_inv_def)
  note after = assms(2) [OF this]
  have "(\<Union>u. (H(t := A)) u) = A \<union> ?K" by auto
  moreover have "(H(t := A)) v \<inter> (H(t := A)) u = {}" if "v \<noteq> u" for v u
    using assms(1) after that by (cases "v = t"; cases "u = t") (auto simp: shared_inv_def)
  ultimately show ?thesis using after unfolding shared_inv_def by metis
qed

lemma shared_inv_net:
  "shared_inv net mx H p n \<Longrightarrow> n_made net n \<subseteq> n_made net n' \<Longrightarrow> n_open net n' \<subseteq> n_open net n \<Longrightarrow> shared_inv net mx H p n'"
  unfolding shared_inv_def by (blast intro: pool_inv_net)

lemma shared_inv_init:
  assumes "net_laws net" and "n_open net n = {}"
  shows "shared_inv net mx (\<lambda>t. {}) (th_init mx) n"
  using assms by (auto simp: shared_inv_def th_init_def pool_inv_def fits_def split: option.split)

lemma shared_inv_facts:
  assumes "shared_inv net mx H p n" and "0 < mx"
  shows "(\<forall>t u. t \<noteq> u \<longrightarrow> H t \<inter> H u = {})
    \<and> (\<forall>t q. H t \<inter> set (th_heap p q) = {})
    \<and> (\<forall>q. distinct (th_heap p q) \<and> length (th_heap p q) \<le> nat mx)
    \<and> (\<forall>q q'. q \<noteq> q' \<longrightarrow> set (th_heap p q) \<inter> set (th_heap p q') = {})
    \<and> n_open net n \<subseteq> (\<Union>t. H t) \<union> (\<Union>q. set (th_heap p q))"
proof -
  have pool: "pool_inv net (queue_cap mx) (th_heap p) (\<Union>t. H t) n"
    and dis: "\<forall>t u. t \<noteq> u \<longrightarrow> H t \<inter> H u = {}" using assms(1) by (simp_all add: shared_inv_def)
  have "H t \<inter> set (th_heap p q) = {}" for t q
    using pool_inv_queue [OF pool, of q] by blast
  moreover have "distinct (th_heap p q) \<and> length (th_heap p q) \<le> nat mx" for q
    using pool_inv_queue [OF pool, of q] assms(2) by (simp add: fits_def queue_cap_def)
  moreover have "set (th_heap p q) \<inter> set (th_heap p q') = {}" if "q \<noteq> q'" for q q'
    using pool that by (simp add: pool_inv_def)
  moreover have "n_open net n \<subseteq> (\<Union>t. H t) \<union> (\<Union>q. set (th_heap p q))"
    using pool by (simp add: pool_inv_def)
  ultimately show ?thesis using dis by blast
qed

section \<open>What other connections do to one\<close>

text \<open>Closing one connection leaves the others open.\<close>

definition closes_one :: "('n, 's) net_ops \<Rightarrow> bool" where
  "closes_one net \<longleftrightarrow> (\<forall>x n. n_open net n - {x} \<subseteq> n_open net (snd (n_close net x n)))"

text \<open>So does every other operation on it.\<close>

definition touches_one :: "('n, 's) net_ops \<Rightarrow> bool" where
  "touches_one net \<longleftrightarrow> closes_one net
     \<and> (\<forall>h pt n. n_open net n \<subseteq> n_open net (snd (n_connect net h pt n)))
     \<and> (\<forall>x bs n. n_open net n - {x} \<subseteq> n_open net (snd (n_sendall net x bs n)))
     \<and> (\<forall>x st n. n_open net n - {x} \<subseteq> n_open net (n_advance net x st n))"

lemma touches_oneD:
  assumes "touches_one net" and "s \<in> n_open net n"
  shows "n_connect net h pt n = (r, n') \<Longrightarrow> s \<in> n_open net n'"
    and "n_sendall net x bs n = (u, n') \<Longrightarrow> x \<noteq> s \<Longrightarrow> s \<in> n_open net n'"
    and "x \<noteq> s \<Longrightarrow> s \<in> n_open net (n_advance net x st n)"
    and "n_close net x n = (u, n') \<Longrightarrow> x \<noteq> s \<Longrightarrow> s \<in> n_open net n'"
proof -
  have other: "s \<in> n_open net n - {x} \<longleftrightarrow> x \<noteq> s" using assms(2) by auto
  show "n_connect net h pt n = (r, n') \<Longrightarrow> s \<in> n_open net n'"
    using assms unfolding touches_one_def by (metis snd_conv subsetD)
  show "n_sendall net x bs n = (u, n') \<Longrightarrow> x \<noteq> s \<Longrightarrow> s \<in> n_open net n'"
    using assms(1) other unfolding touches_one_def by (metis snd_conv subsetD)
  show "x \<noteq> s \<Longrightarrow> s \<in> n_open net (n_advance net x st n)"
    using assms(1) other unfolding touches_one_def by (metis subsetD)
  show "n_close net x n = (u, n') \<Longrightarrow> x \<noteq> s \<Longrightarrow> s \<in> n_open net n'"
    using assms(1) other unfolding touches_one_def closes_one_def by (metis snd_conv subsetD)
qed

section \<open>The queues by address\<close>

text \<open>What a single caller sees: each queue under its address.\<close>

definition stored :: "ThreadPool \<Rightarrow> (string \<times> nat list) list" where
  "stored p = map (\<lambda>(a, q). (a, th_heap p q)) (th_dict p)"

definition th_wf :: "ThreadPool \<Rightarrow> bool" where
  "th_wf p \<longleftrightarrow> wf_dict (th_dict p) \<and> distinct (map snd (th_dict p))
     \<and> (\<forall>q \<in> snd ` set (th_dict p). q < th_next p) \<and> (\<forall>q \<ge> th_next p. th_heap p q = [])"

lemma map_of_stored: "map_of (stored p) a = map_option (th_heap p) (map_of (th_dict p) a)"
proof -
  have "map_of (map (\<lambda>(a, q). (a, f q)) d) a = map_option f (map_of d a)" for d and f :: "nat \<Rightarrow> nat list"
    by (induction d) auto
  then show ?thesis by (simp add: stored_def)
qed

lemma q_of_stored: "map_of (th_dict p) a = Some q \<Longrightarrow> q_of (stored p) a = th_heap p q"
  by (simp add: q_of_def map_of_stored)

lemma update_fresh: "map_of d a = None \<Longrightarrow> AList.update a x d = d @ [(a, x)]"
  by (induction d) auto

lemma stored_new:
  assumes "map_of (th_dict p) a = None" and "th_wf p"
  shows "stored (th_new a p) = AList.update a [] (stored p)"
  using assms
  by (simp add: stored_def th_new_def update_fresh map_of_stored [unfolded stored_def] th_wf_def)

lemma stored_set:
  assumes "map_of (th_dict p) a = Some q" and "th_wf p"
  shows "stored (th_set q xs p) = AList.update a xs (stored p)"
proof -
  have "map_of d a = Some q \<Longrightarrow> distinct (map fst d) \<Longrightarrow> distinct (map snd d) \<Longrightarrow>
      map (\<lambda>(a, x). (a, (f(q := xs)) x)) d = AList.update a xs (map (\<lambda>(a, x). (a, f x)) d)"
    for d :: "(string \<times> nat) list" and f :: "nat \<Rightarrow> nat list"
  proof (induction d)
    case (Cons y d)
    then show ?case
    proof (cases y)
      case (Pair b x)
      have "q \<in> snd ` set d" if "map_of d a = Some q" using map_of_SomeD [OF that] by force
      moreover have "map (\<lambda>(a, x). (a, (f(q := xs)) x)) d = map (\<lambda>(a, x). (a, f x)) d" if "q \<notin> snd ` set d"
        using that by force
      ultimately show ?thesis using Cons Pair by (auto split: if_splits)
    qed
  qed simp
  then show ?thesis using assms by (simp add: stored_def th_set_def th_wf_def wf_dict_def)
qed

lemma th_wf_set: "th_wf p \<Longrightarrow> q < th_next p \<Longrightarrow> th_wf (th_set q xs p)"
  by (auto simp: th_wf_def)

lemma th_wf_known: "th_wf p \<Longrightarrow> map_of (th_dict p) a = Some q \<Longrightarrow> q < th_next p"
  using map_of_SomeD [of "th_dict p" a q] by (force simp: th_wf_def)

lemma th_wf_unique:
  assumes "th_wf p" and "map_of (th_dict p) a = Some q" and "map_of (th_dict p) b = Some q"
  shows "b = a"
proof -
  have "inj_on snd (set (th_dict p))" using assms(1) by (simp add: th_wf_def distinct_map)
  from inj_onD [OF this _ map_of_SomeD [OF assms(3)] map_of_SomeD [OF assms(2)]] show ?thesis by simp
qed

lemma th_wf_delete: "th_wf p \<Longrightarrow> th_wf (p\<lparr>th_dict := AList.delete a (th_dict p)\<rparr>)"
  by (auto simp: th_wf_def AList.delete_eq distinct_map_filter)

lemma th_wf_new:
  assumes "th_wf p" and "map_of (th_dict p) a = None"
  shows "th_wf (th_new a p)"
  using assms by (auto simp: th_new_def th_wf_def wf_dict_def map_of_eq_None_iff update_fresh)

lemma th_wf_init: "th_wf (th_init mx)" and stored_init: "stored (th_init mx) = []"
  by (simp_all add: th_wf_def th_init_def stored_def wf_dict_def)

end
