(* ===== verification/Pool_Threads.thy ===== *)
theory Pool_Threads
  imports Sync_Pool Pool_Shared
begin

text \<open>
  The blocking pool (\<open>connection_pool/sync.py\<close>) under several threads. Each access to the dictionary and to a queue is one step
  (an operation of a dictionary is atomic, a \<open>LifoQueue\<close> has its own lock), and threads interleave
  between steps. \<open>_init_lock\<close> keeps two threads from creating a queue at once; \<open>close_peer\<close> does
  not take it.
\<close>

section \<open>Program points\<close>

text \<open>
  Where a thread is: in \<open>_queue\<close> before its first lookup, before taking the lock, and with the
  lock before its \<open>return\<close>; in \<open>execute\<close> before \<open>get_nowait\<close>, before opening a connection, in the
  \<open>try\<close> block before the exchange and after it, in the handler; in \<open>close_peer\<close> before the \<open>pop\<close>,
  in its loop, and between \<open>get_nowait\<close> and \<open>close\<close>. The flag says whether a failure is retried
  (\<open>reused\<close>). A call returns or ends with the \<open>KeyError\<close> of \<open>_queue\<close>.
\<close>

datatype pc =
    Looking call
  | Creating call
  | Fetching call
  | Have call nat
  | Connecting call nat
  | Talking call nat nat bool
  | Returning call nat nat bool Message
  | Failed call nat nat bool
  | Dropping string int
  | Draining nat
  | Closing nat nat
  | Finished "Message option"
  | Raised

fun idle :: "pc \<Rightarrow> bool" where
  "idle (Finished r) = True"
| "idle Raised = True"
| "idle _ = False"

fun locking :: "pc \<Rightarrow> bool" where
  "locking (Creating c) = True"
| "locking _ = False"

fun locked :: "pc \<Rightarrow> bool" where
  "locked (Fetching c) = True"
| "locked _ = False"

fun held :: "pc \<Rightarrow> nat set" where
  "held (Talking c q s b) = {s}"
| "held (Returning c q s b m) = {s}"
| "held (Failed c q s b) = {s}"
| "held (Closing q s) = {s}"
| "held _ = {}"


section \<open>The steps of a thread\<close>

text \<open>The exchange on a connection: \<open>send_message\<close> and \<open>recv_message\<close>.\<close>

definition th_talk :: "('n, rx list) net_ops \<Rightarrow> (Message \<Rightarrow> byte list) \<Rightarrow> (byte list \<Rightarrow> Message res)
    \<Rightarrow> nat \<Rightarrow> Message \<Rightarrow> 'n \<Rightarrow> Message res \<times> 'n" where
  "th_talk net dumps loads s msg n =
     (case send_message dumps msg of
        Inl e \<Rightarrow> (Inl e, n)
      | Inr bs \<Rightarrow>
         (case n_sendall net s bs n of
            (Inl e, n1) \<Rightarrow> (Inl e, n1)
          | (Inr _, n1) \<Rightarrow>
              (case recv_message loads (n_incoming net s n1) of (r, st) \<Rightarrow> (r, n_advance net s st n1))))"

fun th_step :: "('n, rx list) net_ops \<Rightarrow> (Message \<Rightarrow> byte list) \<Rightarrow> (byte list \<Rightarrow> Message res)
    \<Rightarrow> pc \<Rightarrow> ThreadPool \<times> 'n \<Rightarrow> pc \<times> ThreadPool \<times> 'n" where
  "th_step net dumps loads (Looking c) (p, n) =
     (case map_of (th_dict p) (call_address c) of
        Some q \<Rightarrow> (Have c q, p, n)
      | None \<Rightarrow> (Creating c, p, n))"
| "th_step net dumps loads (Creating c) (p, n) =
     (case map_of (th_dict p) (call_address c) of
        Some q \<Rightarrow> (Fetching c, p, n)
      | None \<Rightarrow> (Fetching c, th_new (call_address c) p, n))"
| "th_step net dumps loads (Fetching c) (p, n) =
     (case map_of (th_dict p) (call_address c) of
        Some q \<Rightarrow> (Have c q, p, n)
      | None \<Rightarrow> (Raised, p, n))"
| "th_step net dumps loads (Have c q) (p, n) =
     (case lifo_get (th_heap p q) of
        Some (s, xs) \<Rightarrow> (Talking c q s True, th_set q xs p, n)
      | None \<Rightarrow> (Connecting c q, p, n))"
| "th_step net dumps loads (Connecting (Call h pt msg) q) (p, n) =
     (case n_connect net h pt n of
        (Inl e, n1) \<Rightarrow> (Finished None, p, n1)
      | (Inr s, n1) \<Rightarrow> (Talking (Call h pt msg) q s False, p, n1))"
| "th_step net dumps loads (Talking (Call h pt msg) q s reused) (p, n) =
     (case th_talk net dumps loads s msg n of
        (Inl e, n1) \<Rightarrow> (Failed (Call h pt msg) q s reused, p, n1)
      | (Inr response, n1) \<Rightarrow> (Returning (Call h pt msg) q s reused response, p, n1))"
| "th_step net dumps loads (Returning c q s reused response) (p, n) =
     (case lifo_put (th_max p) s (th_heap p q) of
        Some xs \<Rightarrow> (Finished (Some response), th_set q xs p, n)
      | None \<Rightarrow>
         (case n_close net s n of
            (Inl e, n1) \<Rightarrow> (Failed c q s reused, p, n1)
          | (Inr _, n1) \<Rightarrow> (Finished (Some response), p, n1)))"
| "th_step net dumps loads (Failed c q s reused) (p, n) =
     (if reused then Connecting c q else Finished None, p, snd (n_close net s n))"
| "th_step net dumps loads (Dropping h pt) (p, n) =
     (case map_of (th_dict p) (peer_address h pt) of
        None \<Rightarrow> (Finished None, p, n)
      | Some q \<Rightarrow> (Draining q, p\<lparr>th_dict := AList.delete (peer_address h pt) (th_dict p)\<rparr>, n))"
| "th_step net dumps loads (Draining q) (p, n) =
     (case lifo_get (th_heap p q) of
        None \<Rightarrow> (Finished None, p, n)
      | Some (s, xs) \<Rightarrow> (Closing q s, th_set q xs p, n))"
| "th_step net dumps loads (Closing q s) (p, n) =
     (case n_close net s n of (Inl e, n1) \<Rightarrow> (Finished None, p, n1) | (Inr _, n1) \<Rightarrow> (Draining q, p, n1))"
| "th_step net dumps loads (Finished r) (p, n) = (Finished r, p, n)"
| "th_step net dumps loads Raised (p, n) = (Raised, p, n)"

text \<open>
  The machine: a thread that has finished starts a call, a thread takes its step, or the network
  changes, where peers may close connections but nobody opens one. A thread waits for the lock
  while another one holds it.
\<close>

inductive th_move :: "('n, rx list) net_ops \<Rightarrow> (Message \<Rightarrow> byte list) \<Rightarrow> (byte list \<Rightarrow> Message res)
    \<Rightarrow> (nat \<Rightarrow> pc) \<times> ThreadPool \<times> 'n \<Rightarrow> (nat \<Rightarrow> pc) \<times> ThreadPool \<times> 'n \<Rightarrow> bool" for net dumps loads where
  Execute: "idle (pcs t) \<Longrightarrow> th_move net dumps loads (pcs, w) (pcs(t := Looking c), w)"
| ClosePeer: "idle (pcs t) \<Longrightarrow> th_move net dumps loads (pcs, w) (pcs(t := Dropping h pt), w)"
| Step: "(locking (pcs t) \<Longrightarrow> \<forall>u. \<not> locked (pcs u)) \<Longrightarrow> th_step net dumps loads (pcs t) w = (pc', w') \<Longrightarrow>
    th_move net dumps loads (pcs, w) (pcs(t := pc'), w')"
| Net: "n_made net n \<subseteq> n_made net n' \<Longrightarrow> n_open net n' \<subseteq> n_open net n \<Longrightarrow>
    th_move net dumps loads (pcs, p, n) (pcs, p, n')"

inductive_cases th_moveE: "th_move net dumps loads w w'"

abbreviation th_moves where
  "th_moves net dumps loads \<equiv> (th_move net dumps loads)\<^sup>*\<^sup>*"

section \<open>Accounting under every interleaving\<close>

definition th_inv :: "('n, 's) net_ops \<Rightarrow> int \<Rightarrow> (nat \<Rightarrow> pc) \<times> ThreadPool \<times> 'n \<Rightarrow> bool" where
  "th_inv net mx w \<longleftrightarrow> (case w of (pcs, p, n) \<Rightarrow> shared_inv net mx (\<lambda>t. held (pcs t)) p n)"

lemma idle_held [simp]: "idle pc \<Longrightarrow> held pc = {}"
  by (cases pc) auto

lemma idle_step [simp]: "idle pc \<Longrightarrow> th_step net dumps loads pc w = (pc, w)"
  by (cases pc; cases w) auto

lemma held_update: "(\<lambda>u. held ((pcs(t := pc')) u)) = (\<lambda>u. held (pcs u))(t := held pc')"
  by (simp add: fun_eq_iff)

lemma th_talk_inv:
  assumes "pool_inv net cap f H n" and "th_talk net dumps loads s msg n = (r, n')"
  shows "pool_inv net cap f H n'"
proof (cases "send_message dumps msg")
  case (Inr bs)
  obtain r1 n1 where n1: "n_sendall net s bs n = (r1, n1)" by fastforce
  show ?thesis
    using assms(2) Inr n1 pool_inv_sendall [OF assms(1) n1] pool_inv_advance [OF pool_inv_sendall [OF assms(1) n1]]
    by (auto simp: th_talk_def split: sum.splits prod.splits)
qed (use assms in \<open>auto simp: th_talk_def\<close>)

text \<open>A step of one thread, beside the connections \<open>H\<close> the others hold.\<close>

lemma th_step_inv:
  assumes "pool_inv net (queue_cap mx) (th_heap p) (held pc \<union> H) n" and "held pc \<inter> H = {}" and "th_max p = mx"
    and "th_step net dumps loads pc (p, n) = (pc', p', n')"
  shows "pool_inv net (queue_cap mx) (th_heap p') (held pc' \<union> H) n' \<and> held pc' \<inter> H = {} \<and> th_max p' = mx"
proof (cases pc)
  case (Looking c)
  then show ?thesis using assms by (auto split: option.splits)
next
  case (Creating c)
  then show ?thesis using assms by (auto split: option.splits)
next
  case (Fetching c)
  then show ?thesis using assms by (auto split: option.splits)
next
  case (Have c q)
  then show ?thesis
    using assms pool_inv_take [of net "queue_cap mx" "th_heap p" H n q "[]"]
    by (auto simp: lifo_get_def split: list.splits)
next
  case (Connecting c q)
  then obtain h pt msg r n1 where c: "c = Call h pt msg" "n_connect net h pt n = (r, n1)"
    by (metis call.exhaust prod.exhaust)
  then show ?thesis
    using assms Connecting pool_inv_connect [of net "queue_cap mx" "th_heap p" H n h pt _ n1]
      pool_inv_refused [of net "queue_cap mx" "th_heap p" H n h pt _ n1]
    by (auto split: sum.splits)
next
  case (Talking c q s reused)
  then obtain h pt msg r n1 where c: "c = Call h pt msg" "th_talk net dumps loads s msg n = (r, n1)"
    by (metis call.exhaust prod.exhaust)
  then show ?thesis
    using assms Talking th_talk_inv [OF assms(1) c(2)] by (auto split: sum.splits)
next
  case (Returning c q s reused response)
  then have inv: "pool_inv net (queue_cap mx) (th_heap p) (insert s H) n" and s: "s \<notin> H"
    using assms(1,2) by auto
  obtain r n1 where close: "n_close net s n = (r, n1)" by fastforce
  show ?thesis
  proof (cases "lifo_put (th_max p) s (th_heap p q)")
    case (Some xs)
    then show ?thesis
      using assms(3,4) Returning lifo_put_fits [OF Some] pool_inv_put [OF inv s, of q "[]" "th_heap p q"] by auto
  next
    case None
    then show ?thesis
      using assms(3,4) Returning close s pool_inv_close [OF inv close] pool_inv_close_any [OF inv close]
      by (auto split: sum.splits)
  qed
next
  case (Failed c q s reused)
  obtain r n1 where "n_close net s n = (r, n1)" by fastforce
  then show ?thesis
    using assms Failed pool_inv_close [of net "queue_cap mx" "th_heap p" s H n r n1]
    by (cases reused) auto
next
  case (Dropping h pt)
  then show ?thesis using assms by (auto split: option.splits)
next
  case (Draining q)
  then show ?thesis
    using assms pool_inv_take [of net "queue_cap mx" "th_heap p" H n q "[]"]
    by (auto simp: lifo_get_def split: list.splits)
next
  case (Closing q s)
  obtain r n1 where "n_close net s n = (r, n1)" by fastforce
  then show ?thesis
    using assms Closing pool_inv_close [of net "queue_cap mx" "th_heap p" s H n r n1] by (auto split: sum.splits)
next
  case (Finished r)
  then show ?thesis using assms by auto
next
  case Raised
  then show ?thesis using assms by auto
qed

lemma th_move_inv: "th_move net dumps loads w w' \<Longrightarrow> th_inv net mx w \<Longrightarrow> th_inv net mx w'"
proof (induction rule: th_move.induct)
  case (Execute pcs t w c)
  then have "(\<lambda>u. held (pcs u))(t := {}) = (\<lambda>u. held (pcs u))" by (auto simp: fun_eq_iff)
  then show ?case using Execute by (simp add: th_inv_def held_update split: prod.splits del: fun_upd_apply)
next
  case (ClosePeer pcs t w h pt)
  then have "(\<lambda>u. held (pcs u))(t := {}) = (\<lambda>u. held (pcs u))" by (auto simp: fun_eq_iff)
  then show ?case using ClosePeer by (simp add: th_inv_def held_update split: prod.splits del: fun_upd_apply)
next
  case (Step pcs t w pc' w')
  obtain p n p' n' where w: "w = (p, n)" "w' = (p', n')" by (metis prod.exhaust)
  have "shared_inv net mx (\<lambda>t. held (pcs t)) p n" using Step.prems w by (simp add: th_inv_def)
  from shared_inv_step [OF this th_step_inv [OF _ _ _ Step.hyps(2) [unfolded w]]]
  show ?case using w by (simp add: th_inv_def held_update del: fun_upd_apply)
next
  case (Net n n' pcs p)
  then show ?case by (auto simp: th_inv_def intro: shared_inv_net)
qed

lemma th_moves_inv: "th_moves net dumps loads w w' \<Longrightarrow> th_inv net mx w \<Longrightarrow> th_inv net mx w'"
  by (induction rule: rtranclp_induct) (auto intro: th_move_inv)

lemma th_inv_init:
  assumes "net_laws net" and "n_open net n = {}"
  shows "th_inv net mx ((\<lambda>t. Finished None), th_init mx, n)"
  using shared_inv_init [OF assms] by (simp add: th_inv_def)

text \<open>C11.
  Whatever threads share a blocking pool, and however their calls of \<open>execute\<close> and \<open>close_peer\<close>
  interleave with each other and with the network: no two calls ever use the same connection, a connection
  in use is in no queue, a queue holds it once and within its bound, no connection is in two queues, and every
  open connection is in use or in some queue object. That object may be one \<open>close_peer\<close> has taken
  out of the dictionary, where no later call finds it.
\<close>

theorem threads_accounting:
  assumes "net_laws net" and "n_open net n0 = {}" and "0 < mx"
    and "th_moves net dumps loads ((\<lambda>t. Finished None), th_init mx, n0) (pcs, p, n)"
  shows "(\<forall>t u. t \<noteq> u \<longrightarrow> held (pcs t) \<inter> held (pcs u) = {})
    \<and> (\<forall>t q. held (pcs t) \<inter> set (th_heap p q) = {})
    \<and> (\<forall>q. distinct (th_heap p q) \<and> length (th_heap p q) \<le> nat mx)
    \<and> (\<forall>q q'. q \<noteq> q' \<longrightarrow> set (th_heap p q) \<inter> set (th_heap p q') = {})
    \<and> n_open net n \<subseteq> (\<Union>t. held (pcs t)) \<union> (\<Union>q. set (th_heap p q))"
  using th_moves_inv [OF assms(4) th_inv_init [OF assms(1,2)]] shared_inv_facts [OF _ assms(3)]
  by (simp only: th_inv_def prod.case)

section \<open>A queue that is dropped while in use\<close>












section \<open>A call on its own\<close>

fun th_run :: "('n, rx list) net_ops \<Rightarrow> (Message \<Rightarrow> byte list) \<Rightarrow> (byte list \<Rightarrow> Message res)
    \<Rightarrow> nat \<Rightarrow> pc \<times> ThreadPool \<times> 'n \<Rightarrow> pc \<times> ThreadPool \<times> 'n" where
  "th_run net dumps loads 0 x = x"
| "th_run net dumps loads (Suc k) (pc, w) = th_run net dumps loads k (th_step net dumps loads pc w)"

text \<open>The pool as \<open>Sync_Pool\<close> has it.\<close>

definition atomic :: "ThreadPool \<Rightarrow> SyncPool" where
  "atomic p = \<lparr>sp_max = th_max p, sp_queues = stored p\<rparr>"

lemma th_run_add: "th_run net dumps loads (j + k) x = th_run net dumps loads k (th_run net dumps loads j x)"
proof (induction j arbitrary: x)
  case (Suc j)
  then show ?case by (cases x) simp
qed simp

lemma atomic_sel [simp]: "sp_max (atomic p) = th_max p" "sp_queues (atomic p) = stored p"
  by (simp_all add: atomic_def)

lemma atomic_fresh: "map_of (th_dict p) a = None \<Longrightarrow> th_wf p \<Longrightarrow> atomic (th_new a p) = sp_queue a (atomic p)"
  by (simp add: atomic_def sp_queue_def map_of_stored stored_new)

lemma atomic_set: "map_of (th_dict p) a = Some q \<Longrightarrow> th_wf p \<Longrightarrow> atomic (th_set q xs p) = sp_put a xs (atomic p)"
  by (simp add: atomic_def sp_put_def stored_set)

text \<open>An attempt: the exchange, then the return of the connection.\<close>

lemma sp_attempt_talk:
  "sp_attempt net dumps loads a s msg (p, n) =
     (case th_talk net dumps loads s msg n of
        (Inl e, n1) \<Rightarrow> (Inl e, p, n1)
      | (Inr response, n1) \<Rightarrow>
         (case lifo_put (sp_max p) s (q_of (sp_queues p) a) of
            Some q \<Rightarrow> (Inr response, sp_put a q p, n1)
          | None \<Rightarrow>
             (case n_close net s n1 of (Inl e, n2) \<Rightarrow> (Inl e, p, n2) | (Inr _, n2) \<Rightarrow> (Inr response, p, n2))))"
  by (auto simp: sp_attempt_def th_talk_def Let_def split: sum.splits prod.splits)

lemma attempt_alone:
  assumes "th_wf p" and "map_of (th_dict p) (peer_address h pt) = Some q"
    and "sp_attempt net dumps loads (peer_address h pt) s msg (atomic p, n) = (r, w1)"
  shows "\<exists>k p1 n1. w1 = (atomic p1, n1) \<and> th_wf p1 \<and> th_dict p1 = th_dict p
    \<and> th_run net dumps loads k (Talking (Call h pt msg) q s b, p, n) =
        (case r of Inl e \<Rightarrow> Failed (Call h pt msg) q s b | Inr m \<Rightarrow> Finished (Some m), p1, n1)"
proof -
  obtain t n1 where t: "th_talk net dumps loads s msg n = (t, n1)" by fastforce
  show ?thesis
  proof (cases t)
    case (Inl e)
    then show ?thesis
      using assms t by (intro exI [of _ 1] exI [of _ p] exI [of _ n1]) (auto simp: sp_attempt_talk)
  next
    case (Inr m)
    show ?thesis
    proof (cases "lifo_put (th_max p) s (th_heap p q)")
      case (Some xs)
      then have "(r, w1) = (Inr m, atomic (th_set q xs p), n1)"
        using assms t Inr by (simp add: sp_attempt_talk q_of_stored atomic_set)
      then show ?thesis
        using assms t Inr Some
        by (intro exI [of _ 2] exI [of _ "th_set q xs p"] exI [of _ n1])
          (auto simp: numeral_2_eq_2 th_wf_set [OF assms(1) th_wf_known [OF assms(1,2)]])
    next
      case None
      obtain x n2 where x: "n_close net s n1 = (x, n2)" by fastforce
      then show ?thesis
        using assms t Inr None
        by (intro exI [of _ 2] exI [of _ p] exI [of _ n2])
          (auto simp: sp_attempt_talk q_of_stored numeral_2_eq_2 split: sum.splits)
    qed
  qed
qed

lemma first_alone:
  assumes "th_wf p" and "map_of (th_dict p) (peer_address h pt) = Some q"
    and "sp_first net dumps loads h pt msg b s (atomic p, n) = (r, w1)"
  shows "\<exists>k p1 n1. w1 = (atomic p1, n1) \<and> th_wf p1
    \<and> th_run net dumps loads k (Talking (Call h pt msg) q s b, p, n) = (Finished r, p1, n1)"
proof -
  let ?c = "Call h pt msg"
  obtain r1 v1 where v1: "sp_attempt net dumps loads (peer_address h pt) s msg (atomic p, n) = (r1, v1)"
    by (rule prod.exhaust)
  from attempt_alone [OF assms(1,2) this, of b] obtain k p1 n1 where one: "v1 = (atomic p1, n1)" "th_wf p1"
    "th_dict p1 = th_dict p" "th_run net dumps loads k (Talking ?c q s b, p, n) =
      (case r1 of Inl e \<Rightarrow> Failed ?c q s b | Inr m \<Rightarrow> Finished (Some m), p1, n1)" by blast
  show ?thesis
  proof (cases r1)
    case (Inr m)
    then show ?thesis using one v1 assms(3) by (auto simp: sp_first_def)
  next
    case (Inl e)
    let ?n2 = "snd (n_close net s n1)"
    show ?thesis
    proof (cases b)
      case False
      then have "th_run net dumps loads (k + 1) (Talking ?c q s b, p, n) = (Finished None, p1, ?n2)"
        using one Inl by (simp only: th_run_add) simp
      moreover have "r = None \<and> w1 = (atomic p1, ?n2)" using one v1 Inl False assms(3) by (auto simp: sp_first_def)
      ultimately show ?thesis using one(2) by blast
    next
      case True
      obtain x n3 where x: "n_connect net h pt ?n2 = (x, n3)" by fastforce
      show ?thesis
      proof (cases x)
        case (Inl e2)
        then have "th_run net dumps loads (k + 2) (Talking ?c q s b, p, n) = (Finished None, p1, n3)"
          using one \<open>r1 = Inl e\<close> True x by (simp only: th_run_add) (simp add: numeral_2_eq_2)
        moreover have "r = None \<and> w1 = (atomic p1, n3)"
          using one v1 Inl \<open>r1 = Inl e\<close> True x assms(3) by (auto simp: sp_first_def)
        ultimately show ?thesis using one(2) by blast
      next
        case (Inr s2)
        have two: "th_run net dumps loads (k + 2) (Talking ?c q s b, p, n) = (Talking ?c q s2 False, p1, n3)"
          using one Inr \<open>r1 = Inl e\<close> True x by (simp only: th_run_add) (simp add: numeral_2_eq_2)
        obtain r4 v4 where v4: "sp_attempt net dumps loads (peer_address h pt) s2 msg (atomic p1, n3) = (r4, v4)"
          by (rule prod.exhaust)
        from attempt_alone [OF one(2) _ this, of q False] assms(2) one(3) obtain k4 p4 n4 where
          three: "v4 = (atomic p4, n4)" "th_wf p4" "th_run net dumps loads k4 (Talking ?c q s2 False, p1, n3) =
            (case r4 of Inl e \<Rightarrow> Failed ?c q s2 False | Inr m \<Rightarrow> Finished (Some m), p4, n4)" by auto
        have "th_run net dumps loads (k + 2 + k4 + 1) (Talking ?c q s b, p, n) =
            (case r4 of Inl e \<Rightarrow> (Finished None, p4, snd (n_close net s2 n4)) | Inr m \<Rightarrow> (Finished (Some m), p4, n4))"
          unfolding th_run_add [of net dumps loads "k + 2 + k4" 1] th_run_add [of net dumps loads "k + 2" k4] two three
          by (simp split: sum.split)
        moreover have "(r, w1) = (case r4 of Inl e \<Rightarrow> (None, atomic p4, snd (n_close net s2 n4))
            | Inr m \<Rightarrow> (Some m, atomic p4, n4))"
          using one v1 Inr \<open>r1 = Inl e\<close> True x assms(3) v4 three by (simp add: sp_first_def split: sum.splits)
        ultimately show ?thesis using three(2) by (cases r4; simp only: sum.case prod.inject) blast+
      qed
    qed
  qed
qed

lemma execute_alone_run:
  assumes "th_wf p" and "sp_execute net dumps loads h pt msg (atomic p, n) = (r, w1)"
  shows "\<exists>k p1 n1. w1 = (atomic p1, n1) \<and> th_wf p1
    \<and> th_run net dumps loads k (Looking (Call h pt msg), p, n) = (Finished r, p1, n1)"
proof -
  let ?a = "peer_address h pt" and ?c = "Call h pt msg"
  have "\<exists>k p0 q. th_run net dumps loads k (Looking ?c, p, n) = (Have ?c q, p0, n) \<and> atomic p0 = sp_queue ?a (atomic p)
      \<and> th_wf p0 \<and> map_of (th_dict p0) ?a = Some q"
  proof (cases "map_of (th_dict p) ?a")
    case (Some q)
    then show ?thesis
      using assms(1) by (intro exI [of _ 1] exI [of _ p] exI [of _ q])
        (simp add: sp_queue_def atomic_def map_of_stored)
  next
    case None
    then show ?thesis
      using atomic_fresh [OF None assms(1)] th_wf_new [OF assms(1) None]
      by (intro exI [of _ 3] exI [of _ "th_new ?a p"] exI [of _ "th_next p"]) (simp add: numeral_3_eq_3)
  qed
  then obtain k p0 q where look: "th_run net dumps loads k (Looking ?c, p, n) = (Have ?c q, p0, n)"
    "sp_queue ?a (atomic p) = atomic p0" "th_wf p0" "map_of (th_dict p0) ?a = Some q" by metis
  have stored: "q_of (sp_queues (atomic p)) ?a = th_heap p0 q"
    using q_of_stored [OF look(4)] sp_queue_simps(1) [of ?a "atomic p"] look(2) by (metis atomic_sel(2))
  show ?thesis
  proof (cases "lifo_get (th_heap p0 q)")
    case (Some sx)
    obtain s xs where sx: "lifo_get (th_heap p0 q) = Some (s, xs)" using Some by (cases sx) auto
    have "sp_first net dumps loads h pt msg True s (atomic (th_set q xs p0), n) = (r, w1)"
      using assms(2) look sx stored by (simp add: sp_execute_def Let_def atomic_set)
    from first_alone [OF th_wf_set [OF look(3) th_wf_known [OF look(3,4)]] _ this] look(4) obtain j p1 n1 where
      rest: "w1 = (atomic p1, n1)" "th_wf p1"
      "th_run net dumps loads j (Talking ?c q s True, th_set q xs p0, n) = (Finished r, p1, n1)" by auto
    have "th_run net dumps loads (k + 1 + j) (Looking ?c, p, n) = (Finished r, p1, n1)"
      by (simp only: th_run_add look(1)) (simp add: sx rest(3))
    then show ?thesis using rest by blast
  next
    case None
    obtain x n2 where x: "n_connect net h pt n = (x, n2)" by fastforce
    show ?thesis
    proof (cases x)
      case (Inl e)
      have "th_run net dumps loads (k + 2) (Looking ?c, p, n) = (Finished None, p0, n2)"
        by (simp only: th_run_add look(1)) (simp add: None x Inl numeral_2_eq_2)
      moreover have "r = None \<and> w1 = (atomic p0, n2)"
        using assms(2) look None x Inl stored by (auto simp: sp_execute_def Let_def)
      ultimately show ?thesis using look(3) by blast
    next
      case (Inr s)
      have "sp_first net dumps loads h pt msg False s (atomic p0, n2) = (r, w1)"
        using assms(2) look None x Inr stored by (simp add: sp_execute_def Let_def)
      from first_alone [OF look(3,4) this] obtain j p1 n1 where
        rest: "w1 = (atomic p1, n1)" "th_wf p1"
        "th_run net dumps loads j (Talking ?c q s False, p0, n2) = (Finished r, p1, n1)" by auto
      have "th_run net dumps loads (k + 2 + j) (Looking ?c, p, n) = (Finished r, p1, n1)"
        by (simp only: th_run_add look(1)) (simp add: None x Inr rest(3) numeral_2_eq_2)
      then show ?thesis using rest by blast
    qed
  qed
qed

text \<open>While nobody holds the lock, the steps of one thread are moves of the machine.\<close>

lemma th_run_moves:
  assumes "\<forall>u. u \<noteq> t \<longrightarrow> \<not> locked (pcs u)"
  shows "pcs t = pc \<Longrightarrow> th_run net dumps loads k (pc, w) = (pc', w') \<Longrightarrow>
    th_moves net dumps loads (pcs, w) (pcs(t := pc'), w')"
  using assms
proof (induction k arbitrary: pcs pc w)
  case 0
  then show ?case by (metis fun_upd_triv prod.inject rtranclp.rtrancl_refl th_run.simps(1))
next
  case (Suc k)
  obtain pc1 w1 where step: "th_step net dumps loads pc w = (pc1, w1)" by (rule prod.exhaust)
  have "locking (pcs t) \<Longrightarrow> \<not> locked (pcs u)" for u using Suc.prems(3) by (cases "u = t"; cases "pcs t") auto
  then have "th_move net dumps loads (pcs, w) (pcs(t := pc1), w1)"
    using th_move.Step [of pcs t net dumps loads w pc1 w1] step Suc.prems(1) by simp
  moreover have "th_moves net dumps loads (pcs(t := pc1), w1) (pcs(t := pc1, t := pc'), w')"
    using Suc.prems step by (intro Suc.IH) simp_all
  ultimately show ?case by (simp only: fun_upd_upd)
qed

text \<open>
  A call that no other thread disturbs runs exactly as the single-caller model of the pool says:
  its steps end with the same response, the same queues and the same network.
\<close>

theorem execute_alone:
  assumes "th_wf p" and "pcs t = Looking (Call h pt msg)" and "\<forall>u. u \<noteq> t \<longrightarrow> \<not> locked (pcs u)"
    and "sp_execute net dumps loads h pt msg (atomic p, n) = (r, w1)"
  shows "\<exists>p1 n1. w1 = (atomic p1, n1) \<and> th_wf p1
    \<and> th_moves net dumps loads (pcs, p, n) (pcs(t := Finished r), p1, n1)"
  using execute_alone_run [OF assms(1,4)] th_run_moves [where pcs = pcs and t = t, OF assms(3,2)] by blast

section \<open>Calls end\<close>

text \<open>The steps a call has still to do, whatever the others do meanwhile.\<close>

fun th_rank :: "pc \<Rightarrow> nat" where
  "th_rank (Looking c) = 11"
| "th_rank (Creating c) = 10"
| "th_rank (Fetching c) = 9"
| "th_rank (Have c q) = 8"
| "th_rank (Talking c q s reused) = (if reused then 7 else 3)"
| "th_rank (Returning c q s reused m) = (if reused then 6 else 2)"
| "th_rank (Failed c q s reused) = (if reused then 5 else 1)"
| "th_rank (Connecting c q) = 4"
| "th_rank _ = 0"

fun executing :: "pc \<Rightarrow> bool" where
  "executing (Dropping h pt) = False"
| "executing (Draining q) = False"
| "executing (Closing q s) = False"
| "executing _ = True"

lemma th_step_rank:
  assumes "executing pc" and "th_step net dumps loads pc (p, n) = (pc', p', n')"
  shows "executing pc' \<and> (th_rank pc' < th_rank pc \<or> idle pc \<and> pc' = pc)"
  using assms
proof (cases pc)
  case (Connecting c q)
  then show ?thesis using assms by (cases c) (auto split: sum.splits prod.splits)
next
  case (Talking c q s reused)
  then show ?thesis using assms by (cases c) (auto split: sum.splits prod.splits)
qed (auto simp: lifo_get_def split: option.splits list.splits sum.splits prod.splits if_splits)

text \<open>The program points of one thread when its \<open>i\<close>-th step finds the pool and the network as \<open>env i\<close>.\<close>

fun th_trace :: "('n, rx list) net_ops \<Rightarrow> (Message \<Rightarrow> byte list) \<Rightarrow> (byte list \<Rightarrow> Message res)
    \<Rightarrow> (nat \<Rightarrow> ThreadPool \<times> 'n) \<Rightarrow> nat \<Rightarrow> pc \<Rightarrow> pc" where
  "th_trace net dumps loads env 0 pc = pc"
| "th_trace net dumps loads env (Suc i) pc = fst (th_step net dumps loads (th_trace net dumps loads env i pc) (env i))"

lemma th_trace_rank:
  "executing pc \<Longrightarrow> executing (th_trace net dumps loads env i pc) \<and>
     (idle (th_trace net dumps loads env i pc) \<or> th_rank (th_trace net dumps loads env i pc) + i \<le> th_rank pc)"
proof (induction i)
  case (Suc i)
  let ?pc = "th_trace net dumps loads env i pc"
  obtain p n pc' p' n' where env: "env i = (p, n)" "th_step net dumps loads ?pc (p, n) = (pc', p', n')"
    by (metis prod.exhaust)
  have "executing ?pc" using Suc by simp
  from th_step_rank [OF this env(2)] show ?case using Suc env by (cases "idle ?pc") auto
qed simp

lemma th_rank_0: "executing pc \<Longrightarrow> th_rank pc = 0 \<Longrightarrow> idle pc"
  by (cases pc) (auto split: if_splits)

text \<open>C22.
  A call of \<open>execute\<close> ends after at most eleven of its own steps, whatever the other threads and the
  network have made of the pool before each of them: it retries at most once, and waits for another
  thread only where it takes the lock of \<open>_queue\<close>.
\<close>

theorem execute_wait_free:
  "idle (th_trace net dumps loads env 11 (Looking c))"
proof -
  have "executing (Looking c)" by simp
  from th_trace_rank [OF this, of net dumps loads env 11] show ?thesis using th_rank_0 by force
qed

text \<open>
  \<open>execute\<close> raises when a \<open>close_peer\<close> for its address comes between the assignment and the \<open>return\<close> of
  \<open>_queue\<close>: the two threads below start on a pool that has no queue for the peer, and the call ends with
  the \<open>KeyError\<close>.
\<close>

theorem queue_lookup_race:
  assumes "t \<noteq> u" and "idle (pcs t)" and "idle (pcs u)" and "\<forall>v. \<not> locked (pcs v)"
    and "map_of (th_dict p) (peer_address h pt) = None" and "th_heap p (th_next p) = []"
  shows "\<exists>pcs' p'. th_moves net dumps loads (pcs, p, n) (pcs', p', n) \<and> pcs' t = Raised"
proof -
  let ?a = "peer_address h pt" and ?c = "Call h pt msg"
  let ?p1 = "th_new ?a p"
  let ?p2 = "?p1\<lparr>th_dict := AList.delete ?a (th_dict ?p1)\<rparr>"
  let ?pcs = "pcs(t := Fetching ?c)"
  have "th_move net dumps loads (pcs, p, n) (pcs(t := Looking ?c), p, n)"
    using th_move.Execute [of pcs t net dumps loads "(p, n)" ?c] assms(2) by simp
  moreover have "th_move net dumps loads (pcs(t := Looking ?c), p, n) (pcs(t := Creating ?c), p, n)"
    using th_move.Step [of "pcs(t := Looking ?c)" t net dumps loads "(p, n)"] assms(5) by simp
  moreover have "th_move net dumps loads (pcs(t := Creating ?c), p, n) (?pcs, ?p1, n)"
    using th_move.Step [of "pcs(t := Creating ?c)" t net dumps loads "(p, n)"] assms(4,5) by simp
  moreover have "th_move net dumps loads (?pcs, ?p1, n) (?pcs(u := Dropping h pt), ?p1, n)"
    using th_move.ClosePeer [of ?pcs u net dumps loads "(?p1, n)" h pt] assms(1,3) by simp
  moreover have "th_move net dumps loads (?pcs(u := Dropping h pt), ?p1, n) (?pcs(u := Draining (th_next p)), ?p2, n)"
    using th_move.Step [of "?pcs(u := Dropping h pt)" u net dumps loads "(?p1, n)"]
    by (simp add: dict_simps)
  moreover have "th_move net dumps loads (?pcs(u := Draining (th_next p)), ?p2, n)
      (?pcs(u := Draining (th_next p), t := Raised), ?p2, n)"
    using th_move.Step [of "?pcs(u := Draining (th_next p))" t net dumps loads "(?p2, n)"] assms(1)
    by (simp add: dict_simps)
  ultimately have "th_moves net dumps loads (pcs, p, n) (?pcs(u := Draining (th_next p), t := Raised), ?p2, n)"
    by (meson converse_rtranclp_into_rtranclp rtranclp.rtrancl_refl)
  then show ?thesis by (intro exI [of _ "?pcs(u := Draining (th_next p), t := Raised)"] exI [of _ ?p2]) auto
qed

section \<open>Witnesses\<close>

definition demo_call :: call where
  "demo_call = Call ''a'' 1 (message PING PNone)"

lemma demo_first:
  "\<exists>p. th_moves silent_net toy_dumps toy_loads ((\<lambda>t. Finished None), th_init 1, (0, []))
      ((\<lambda>t. Finished None)(0 := Talking demo_call 0 1 False), p, (1, [1]))
    \<and> th_dict p = [(peer_address ''a'' 1, 0)] \<and> th_heap p = (\<lambda>q. [])"
proof -
  let ?pcs = "(\<lambda>t. Finished None)(0 := Looking demo_call)" and ?p = "th_init 1"
  have "th_move silent_net toy_dumps toy_loads ((\<lambda>t. Finished None), ?p, (0, [])) (?pcs, ?p, (0, []))"
    using th_move.Execute [of "\<lambda>t. Finished None" 0] by simp
  moreover have "th_run silent_net toy_dumps toy_loads 5 (Looking demo_call, ?p, (0, [])) =
      (Talking demo_call 0 1 False, ?p\<lparr>th_dict := [(peer_address ''a'' 1, 0)], th_next := 1\<rparr>, (1, [1]))"
    by (simp add: eval_nat_numeral th_init_def th_new_def demo_call_def lifo_get_def demo_net_def)
  from th_run_moves [of 0 ?pcs, OF _ _ this]
  have "th_moves silent_net toy_dumps toy_loads (?pcs, ?p, (0, []))
      (?pcs(0 := Talking demo_call 0 1 False), ?p\<lparr>th_dict := [(peer_address ''a'' 1, 0)], th_next := 1\<rparr>, (1, [1]))"
    by simp
  ultimately show ?thesis
    by (intro exI [of _ "?p\<lparr>th_dict := [(peer_address ''a'' 1, 0)], th_next := 1\<rparr>"])
      (auto simp: th_init_def intro: converse_rtranclp_into_rtranclp)
qed

lemma threads_accounting_witness:
  "\<exists>pcs p n. th_moves silent_net toy_dumps toy_loads ((\<lambda>t. Finished None), th_init 1, (0, [])) (pcs, p, n)
    \<and> held (pcs 0) = {1} \<and> held (pcs 0) \<inter> set (th_heap p 0) = {}"
proof -
  obtain pcs p where p: "th_moves silent_net toy_dumps toy_loads ((\<lambda>t. Finished None), th_init 1, (0, [])) (pcs, p, (1, [1]))"
      and "pcs 0 = Talking demo_call 0 1 False"
    using demo_first by (metis fun_upd_same)
  then have "held (pcs 0) = {1}" by simp
  moreover have "held (pcs 0) \<inter> set (th_heap p 0) = {}"
    using threads_accounting [OF demo_net_laws(1,3) zero_less_one p] by blast
  ultimately show ?thesis using p by blast
qed

definition demo_pool :: ThreadPool where
  "demo_pool = \<lparr>th_max = 2, th_dict = [(peer_address ''a'' 1, 0)], th_heap = (\<lambda>q. []), th_next = 1\<rparr>"




lemma queue_lookup_race_witness:
  "\<exists>pcs' p'. th_moves silent_net toy_dumps toy_loads ((\<lambda>t. Finished None), th_init 1, (0, [])) (pcs', p', (0, []))
    \<and> pcs' 0 = Raised"
  using queue_lookup_race [of 0 1 "\<lambda>t. Finished None" "th_init 1" "''a''" 1] by (simp add: th_init_def)

lemma execute_alone_witness:
  "\<exists>r p n. th_moves silent_net toy_dumps toy_loads ((\<lambda>t. Finished None)(0 := Looking demo_call), demo_pool, (1, []))
      ((\<lambda>t. Finished None)(0 := Looking demo_call, 0 := Finished r), p, n)"
proof -
  have wf: "th_wf demo_pool" by (simp add: demo_pool_def th_wf_def wf_dict_def)
  have pcs: "((\<lambda>t. Finished None)(0 := Looking demo_call)) 0 = Looking (Call ''a'' 1 (message PING PNone))"
    "\<forall>u. u \<noteq> 0 \<longrightarrow> \<not> locked (((\<lambda>t. Finished None)(0 := Looking demo_call)) u)" by (simp_all add: demo_call_def)
  obtain r w where w: "sp_execute silent_net toy_dumps toy_loads ''a'' 1 (message PING PNone) (atomic demo_pool, (1, [])) = (r, w)"
    by (rule prod.exhaust)
  from execute_alone [OF wf pcs w] show ?thesis by blast
qed

end
