(* ===== verification/Async_Pool.thy ===== *)
theory Async_Pool
  imports Pool_Interface
begin

text \<open>
  \<open>dlstorage/connection_pool/async_.py\<close>: the asyncio pool. A connection is a reader/writer pair,
  numbered as a socket; \<open>writer.close()\<close> does not raise, so its result is not looked at. A call
  runs between the other coroutines' operations on the queues: \<open>H\<close> in the invariant is what they
  hold.
\<close>

section \<open>State and operations\<close>

record AsyncPool =
  ap_max :: int
  ap_queues :: "(string \<times> nat list) list"

definition ap_init :: "int \<Rightarrow> AsyncPool" where
  "ap_init max_per_peer = \<lparr>ap_max = max_per_peer, ap_queues = []\<rparr>"

text \<open>\<open>_queue\<close>: the peer's queue, created on first use.\<close>

definition ap_queue :: "string \<Rightarrow> AsyncPool \<Rightarrow> AsyncPool" where
  "ap_queue address p =
     (case map_of (ap_queues p) address of
        Some q \<Rightarrow> p
      | None \<Rightarrow> p\<lparr>ap_queues := AList.update address [] (ap_queues p)\<rparr>)"

definition ap_put :: "string \<Rightarrow> nat list \<Rightarrow> AsyncPool \<Rightarrow> AsyncPool" where
  "ap_put address q p = p\<lparr>ap_queues := AList.update address q (ap_queues p)\<rparr>"

text \<open>The loop that looks for an idle connection drops those whose writer is closing.\<close>

fun ap_take :: "('n, 's) net_ops \<Rightarrow> nat list \<Rightarrow> 'n \<Rightarrow> nat option \<times> nat list" where
  "ap_take net [] n = (None, [])"
| "ap_take net (s # q) n = (if n_closing net s n then ap_take net q n else (Some s, q))"

text \<open>
  One attempt of \<open>execute\<close> on a connection, a \<open>try\<close> block: send, receive, and, unless
  the writer is closing, give the connection back to the queue or close it if the queue is full.
\<close>

definition ap_attempt :: "('n, byte list \<times> rx list) net_ops \<Rightarrow> (Message \<Rightarrow> byte list)
    \<Rightarrow> (byte list \<Rightarrow> Message res) \<Rightarrow> string \<Rightarrow> nat \<Rightarrow> Message \<Rightarrow> AsyncPool \<times> 'n \<Rightarrow> Message res \<times> AsyncPool \<times> 'n" where
  "ap_attempt net dumps loads address sock msg w =
     (let (p, n) = w in
      case send_message_async dumps msg of
        Inl e \<Rightarrow> (Inl e, p, n)
      | Inr bs \<Rightarrow>
         (case n_sendall net sock bs n of
            (Inl e, n1) \<Rightarrow> (Inl e, p, n1)
          | (Inr _, n1) \<Rightarrow>
             (let (r, st) = recv_message_async loads (n_incoming net sock n1); n2 = n_advance net sock st n1
              in case r of
                 Inl e \<Rightarrow> (Inl e, p, n2)
               | Inr response \<Rightarrow>
                  if n_closing net sock n2 then (Inr response, p, n2)
                  else (case lifo_put (ap_max p) sock (q_of (ap_queues p) address) of
                          Some q \<Rightarrow> (Inr response, ap_put address q p, n2)
                        | None \<Rightarrow> (Inr response, p, snd (n_close net sock n2))))))"

text \<open>The handler after a failed first attempt closes the connection; a fresh retry if it was reused.\<close>

definition ap_first :: "('n, byte list \<times> rx list) net_ops \<Rightarrow> (Message \<Rightarrow> byte list) \<Rightarrow> (byte list \<Rightarrow> Message res)
    \<Rightarrow> string \<Rightarrow> int \<Rightarrow> Message \<Rightarrow> bool \<Rightarrow> nat \<Rightarrow> AsyncPool \<times> 'n \<Rightarrow> Message option \<times> AsyncPool \<times> 'n" where
  "ap_first net dumps loads h pt msg reused sock w =
     (case ap_attempt net dumps loads (peer_address h pt) sock msg w of
        (Inr response, p1, n1) \<Rightarrow> (Some response, p1, n1)
      | (Inl e, p1, n1) \<Rightarrow>
         (let n2 = snd (n_close net sock n1)
          in if \<not> reused then (None, p1, n2)
             else (case n_connect net h pt n2 of
                     (Inl e2, n3) \<Rightarrow> (None, p1, n3)
                   | (Inr sock2, n3) \<Rightarrow>
                      (case ap_attempt net dumps loads (peer_address h pt) sock2 msg (p1, n3) of
                         (Inr response, p4, n4) \<Rightarrow> (Some response, p4, n4)
                       | (Inl e3, p4, n4) \<Rightarrow> (None, p4, snd (n_close net sock2 n4))))))"

definition ap_execute :: "('n, byte list \<times> rx list) net_ops \<Rightarrow> (Message \<Rightarrow> byte list)
    \<Rightarrow> (byte list \<Rightarrow> Message res) \<Rightarrow> string \<Rightarrow> int \<Rightarrow> Message \<Rightarrow> AsyncPool \<times> 'n \<Rightarrow> Message option \<times> AsyncPool \<times> 'n" where
  "ap_execute net dumps loads h pt msg w =
     (let address = peer_address h pt; p = ap_queue address (fst w);
          (idle, q) = ap_take net (q_of (ap_queues p) address) (snd w); p1 = ap_put address q p
      in case idle of
           Some sock \<Rightarrow> ap_first net dumps loads h pt msg True sock (p1, snd w)
         | None \<Rightarrow>
            (case n_connect net h pt (snd w) of
               (Inl e, n1) \<Rightarrow> (None, p1, n1)
             | (Inr sock, n1) \<Rightarrow> ap_first net dumps loads h pt msg False sock (p1, n1)))"

text \<open>\<open>close_peer\<close> and \<open>close_all\<close> close the connections of one queue, of every queue.\<close>

definition ap_drain :: "('n, 's) net_ops \<Rightarrow> nat list \<Rightarrow> 'n \<Rightarrow> 'n" where
  "ap_drain net q n = fold (\<lambda>s n. snd (n_close net s n)) q n"

definition ap_close_peer :: "('n, 's) net_ops \<Rightarrow> string \<Rightarrow> int \<Rightarrow> AsyncPool \<times> 'n \<Rightarrow> AsyncPool \<times> 'n" where
  "ap_close_peer net h pt w =
     (let (p, n) = w; address = peer_address h pt
      in case map_of (ap_queues p) address of
           None \<Rightarrow> (p, n)
         | Some q \<Rightarrow> (p\<lparr>ap_queues := AList.delete address (ap_queues p)\<rparr>, ap_drain net q n))"

definition ap_close_all :: "('n, 's) net_ops \<Rightarrow> AsyncPool \<times> 'n \<Rightarrow> AsyncPool \<times> 'n" where
  "ap_close_all net w =
     (let (p, n) = w
      in (p\<lparr>ap_queues := []\<rparr>, fold (ap_drain net) (map snd (ap_queues p)) n))"

text \<open>The pool as its clients see it: \<open>execute\<close> never raises.\<close>

definition async_pool_ops :: "('n, byte list \<times> rx list) net_ops \<Rightarrow> (Message \<Rightarrow> byte list) \<Rightarrow> (byte list \<Rightarrow> Message res)
    \<Rightarrow> (AsyncPool \<times> 'n) pool_ops" where
  "async_pool_ops net dumps loads =
     \<lparr>p_exec = (\<lambda>h pt m w. case ap_execute net dumps loads h pt m w of (r, w') \<Rightarrow> (Inr r, w')),
      p_close_peer = ap_close_peer net, p_close_all = ap_close_all net\<rparr>"

section \<open>Accounting\<close>

definition ap_inv :: "('n, 's) net_ops \<Rightarrow> int \<Rightarrow> nat set \<Rightarrow> AsyncPool \<times> 'n \<Rightarrow> bool" where
  "ap_inv net mx H w \<longleftrightarrow> ap_max (fst w) = mx
     \<and> wf_dict (ap_queues (fst w))
     \<and> pool_inv net (queue_cap mx) (q_of (ap_queues (fst w))) H (snd w)"

definition ap_idle :: "AsyncPool \<times> 'n \<Rightarrow> string \<Rightarrow> nat list" where
  "ap_idle w = q_of (ap_queues (fst w))"

lemma ap_queue_simps [simp]:
  "q_of (ap_queues (ap_queue a p)) = q_of (ap_queues p)" "ap_max (ap_queue a p) = ap_max p"
  "wf_dict (ap_queues p) \<Longrightarrow> wf_dict (ap_queues (ap_queue a p))"
  by (auto simp: ap_queue_def q_of_def fun_eq_iff dict_simps split: option.splits)

lemma ap_put_simps [simp]:
  "q_of (ap_queues (ap_put a q p)) = (q_of (ap_queues p))(a := q)" "ap_max (ap_put a q p) = ap_max p"
  "wf_dict (ap_queues p) \<Longrightarrow> wf_dict (ap_queues (ap_put a q p))"
  by (simp_all add: ap_put_def)

text \<open>
  An attempt that returns has put the connection back or closed it; one that raises leaves it to
  the handler. It touches the queue of its own address only.
\<close>

lemma ap_attempt_inv:
  assumes "ap_inv net mx (insert s H) (p, n)" and "s \<notin> H"
    and "ap_attempt net dumps loads a s msg (p, n) = (r, w')"
  shows "(case r of Inl e \<Rightarrow> ap_inv net mx (insert s H) w' | Inr m \<Rightarrow> ap_inv net mx H w')
    \<and> (\<forall>b. b \<noteq> a \<longrightarrow> ap_idle w' b = ap_idle (p, n) b)"
proof -
  note inv = assms(1) [unfolded ap_inv_def, simplified]
  show ?thesis
  proof (cases "send_message_async dumps msg")
    case (Inl e)
    then show ?thesis using assms by (auto simp: ap_attempt_def)
  next
    case (Inr bs)
    obtain r1 n1 where n1: "n_sendall net s bs n = (r1, n1)" by fastforce
    note inv1 = pool_inv_sendall [OF conjunct2 [OF conjunct2 [OF inv]] n1]
    show ?thesis
    proof (cases r1)
      case (Inl e)
      then show ?thesis using assms(3) inv inv1 Inr n1 by (auto simp: ap_attempt_def ap_inv_def ap_idle_def)
    next
      case ok: (Inr u)
      obtain r2 st where r2: "recv_message_async loads (n_incoming net s n1) = (r2, st)" by (metis prod.collapse)
      note inv2 = pool_inv_advance [OF inv1, of s st]
      show ?thesis
      proof (cases r2)
        case (Inl e)
        then show ?thesis using assms(3) inv inv2 Inr n1 ok r2
          by (auto simp: ap_attempt_def ap_inv_def ap_idle_def)
      next
        case resp: (Inr m)
        show ?thesis
        proof (cases "n_closing net s (n_advance net s st n1)")
          case True
          then show ?thesis
            using assms(3) inv Inr n1 ok r2 resp pool_inv_forget [OF inv2]
              law_closing [OF pool_inv_laws [OF inv2] True]
            by (auto simp: ap_attempt_def ap_inv_def ap_idle_def)
        next
        case live: False
        show ?thesis
        proof (cases "lifo_put (ap_max p) s (q_of (ap_queues p) a)")
          case (Some q)
          then show ?thesis
            using live assms(2,3) inv Inr n1 ok r2 resp lifo_put_fits [OF Some]
              pool_inv_put [OF inv2, of a "[]" "q_of (ap_queues p) a"]
            by (auto simp: ap_attempt_def ap_inv_def ap_idle_def)
        next
          case None
          obtain r3 n3 where n3: "n_close net s (n_advance net s st n1) = (r3, n3)" by fastforce
          then show ?thesis
            using live assms(3) inv Inr n1 ok r2 resp None pool_inv_close [OF inv2 n3]
            by (auto simp: ap_attempt_def ap_inv_def ap_idle_def)
        qed
        qed
      qed
    qed
  qed
qed

lemma ap_close_held:
  "ap_inv net mx (insert s H) w \<Longrightarrow> ap_inv net mx H (fst w, snd (n_close net s (snd w)))"
  using pool_inv_close [of net "queue_cap mx" "q_of (ap_queues (fst w))" s H "snd w"] by (auto simp: ap_inv_def prod_eq_iff)

lemma ap_connect_held:
  assumes "ap_inv net mx H (p, n)" and "n_connect net h pt n = (r, n')"
  shows "case r of Inl e \<Rightarrow> ap_inv net mx H (p, n') | Inr s \<Rightarrow> ap_inv net mx (insert s H) (p, n') \<and> s \<notin> H"
proof (cases r)
  case (Inl e)
  then show ?thesis using assms pool_inv_refused [of net "queue_cap mx" "q_of (ap_queues p)"] by (auto simp: ap_inv_def)
next
  case (Inr s)
  then show ?thesis using assms pool_inv_connect [of net "queue_cap mx" "q_of (ap_queues p)"] by (auto simp: ap_inv_def)
qed

lemma ap_first_inv:
  assumes "ap_inv net mx (insert s H) (p, n)" and "s \<notin> H"
  shows "ap_inv net mx H (snd (ap_first net dumps loads h pt msg reused s (p, n)))
    \<and> (\<forall>b. b \<noteq> peer_address h pt \<longrightarrow>
          ap_idle (snd (ap_first net dumps loads h pt msg reused s (p, n))) b = ap_idle (p, n) b)"
proof -
  let ?a = "peer_address h pt"
  obtain r1 p1 n1 where w1: "ap_attempt net dumps loads ?a s msg (p, n) = (r1, p1, n1)" by (metis prod_cases3)
  note a1 = ap_attempt_inv [OF assms w1]
  show ?thesis
  proof (cases r1)
    case (Inr m)
    then show ?thesis using a1 w1 by (simp add: ap_first_def)
  next
    case (Inl e)
    obtain u n2 where n2: "n_close net s n1 = (u, n2)" by fastforce
    have inv2: "ap_inv net mx H (p1, n2)" using a1 Inl n2 ap_close_held [of net mx s H "(p1, n1)"] by simp
    obtain r3 n3 where n3: "n_connect net h pt n2 = (r3, n3)" by fastforce
    show ?thesis
    proof (cases "reused \<and> \<not> isl r3")
      case False
      then show ?thesis using Inl w1 n2 n3 inv2 a1 ap_connect_held [OF inv2 n3]
        by (cases r3; cases reused) (simp_all add: ap_first_def ap_idle_def Let_def)
    next
      case True
      then obtain s2 where s2: "r3 = Inr s2" by (cases r3) auto
      have inv3: "ap_inv net mx (insert s2 H) (p1, n3)" "s2 \<notin> H"
        using ap_connect_held [OF inv2 n3] s2 by auto
      obtain r4 p4 n4 where w4: "ap_attempt net dumps loads ?a s2 msg (p1, n3) = (r4, p4, n4)"
        by (metis prod_cases3)
      show ?thesis
        using ap_attempt_inv [OF inv3 w4] a1 Inl w1 n2 n3 s2 w4 True ap_close_held [of net mx s2 H "(p4, n4)"]
        by (cases r4) (simp_all add: ap_first_def ap_idle_def Let_def)
    qed
  qed
qed

lemma ap_take_inv:
  assumes "pool_inv net cap f H n" and "f a = q" and "ap_take net q n = (r, q')"
  shows "case r of None \<Rightarrow> pool_inv net cap (f(a := q')) H n
    | Some s \<Rightarrow> pool_inv net cap (f(a := q')) (insert s H) n \<and> s \<notin> H"
  using assms
proof (induction q arbitrary: f)
  case Nil
  then show ?case by (auto simp: fun_upd_idem)
next
  case (Cons s q)
  show ?case
  proof (cases "n_closing net s n")
    case True
    then have "pool_inv net cap (f(a := q)) H n"
      using pool_inv_drop [OF Cons.prems(1,2)] law_closing [OF pool_inv_laws [OF Cons.prems(1)] True] by simp
    then show ?thesis using Cons.IH [of "f(a := q)", unfolded fun_upd_upd] Cons.prems(3) True
      by (simp del: fun_upd_apply add: fun_upd_same)
  next
    case False
    then show ?thesis using Cons.prems pool_inv_take [of net cap f H n a "[]" s q] by auto
  qed
qed

lemma ap_execute_inv:
  assumes "ap_inv net mx H (p, n)"
  shows "ap_inv net mx H (snd (ap_execute net dumps loads h pt msg (p, n)))
    \<and> (\<forall>b. b \<noteq> peer_address h pt \<longrightarrow>
          ap_idle (snd (ap_execute net dumps loads h pt msg (p, n))) b = ap_idle (p, n) b)"
proof -
  let ?a = "peer_address h pt" and ?p = "ap_queue (peer_address h pt) p"
  obtain r q where q: "ap_take net (q_of (ap_queues p) ?a) n = (r, q)" by fastforce
  have "pool_inv net (queue_cap mx) (q_of (ap_queues p)) H n" using assms by (simp add: ap_inv_def)
  note take = ap_take_inv [OF this refl q]
  show ?thesis
  proof (cases r)
    case None
    then have inv: "ap_inv net mx H (ap_put ?a q ?p, n)" using take assms by (simp add: ap_inv_def)
    obtain r1 n1 where n1: "n_connect net h pt n = (r1, n1)" by fastforce
    show ?thesis
      using None q n1 ap_connect_held [OF inv n1]
        ap_first_inv [of net mx _ H "ap_put ?a q ?p" n1 dumps loads h pt msg False]
      by (cases r1) (simp_all add: ap_execute_def ap_idle_def Let_def)
  next
    case (Some s)
    then have "ap_inv net mx (insert s H) (ap_put ?a q ?p, n)" "s \<notin> H"
      using take assms by (simp_all add: ap_inv_def)
    then show ?thesis
      using Some q ap_first_inv [of net mx s H "ap_put ?a q ?p" n dumps loads h pt msg True]
      by (simp add: ap_execute_def ap_idle_def Let_def)
  qed
qed

lemma ap_drain_inv:
  "pool_inv net cap f (set q \<union> H) n \<Longrightarrow> pool_inv net cap f H (ap_drain net q n)"
proof (induction q arbitrary: n)
  case (Cons s q)
  then have "pool_inv net cap f (set q \<union> H) (snd (n_close net s n))"
    using pool_inv_close [of net cap f s "set q \<union> H" n "fst (n_close net s n)"] by simp
  then show ?case using Cons.IH by (simp add: ap_drain_def)
qed (simp add: ap_drain_def)

lemma ap_close_peer_inv:
  assumes "ap_inv net mx H (p, n)"
  shows "ap_inv net mx H (ap_close_peer net h pt (p, n))
    \<and> ap_idle (ap_close_peer net h pt (p, n)) = (ap_idle (p, n))(peer_address h pt := [])"
proof -
  let ?f = "q_of (ap_queues p)" and ?a = "peer_address h pt"
  have inv: "pool_inv net (queue_cap mx) ?f H n"
    using assms by (simp add: ap_inv_def)
  have "pool_inv net (queue_cap mx) (?f(?a := [])) (set (?f ?a) \<union> H) n"
    by (rule pool_inv_move [OF inv]) (auto simp: fits_def split: option.splits)
  then have "pool_inv net (queue_cap mx) (?f(?a := [])) H (ap_drain net (?f ?a) n)"
    by (rule ap_drain_inv)
  moreover have "?f ?a = []" if "map_of (ap_queues p) ?a = None" using that by (simp add: q_of_def)
  moreover have "?f ?a = q" if "map_of (ap_queues p) ?a = Some q" for q using that by (simp add: q_of_def)
  ultimately show ?thesis using assms
    by (auto simp: ap_close_peer_def ap_inv_def ap_idle_def Let_def fun_eq_iff split: option.splits)
qed

interpretation async_pool: conn_pool "ap_inv net mx" "ap_execute net dumps loads" "ap_close_peer net" ap_idle
    "\<lambda>w. n_open net (snd w)" "queue_cap mx"
  for net :: "('n, byte list \<times> rx list) net_ops" and mx dumps loads
proof
  fix H h pt msg a and w :: "AsyncPool \<times> 'n"
  assume inv: "ap_inv net mx H w"
  obtain p n where w: "w = (p, n)" by fastforce
  note ex = ap_execute_inv [OF inv [unfolded w], of dumps loads h pt msg]
  note cl = ap_close_peer_inv [OF inv [unfolded w], of h pt]
  show "ap_inv net mx H (snd (ap_execute net dumps loads h pt msg w))" using ex w by simp
  show "ap_inv net mx H (ap_close_peer net h pt w)" using cl w by simp
  show "ap_idle (ap_close_peer net h pt w) (peer_address h pt) = []" using cl w by simp
  show "n_open net (snd w) \<subseteq> H \<union> (\<Union>a. set (ap_idle w a))"
    using inv by (simp add: ap_inv_def pool_inv_def ap_idle_def)
  show "fits (queue_cap mx) (ap_idle w a)" using inv by (simp add: ap_inv_def pool_inv_def ap_idle_def)
  show "ap_idle (snd (ap_execute net dumps loads h pt msg w)) a = ap_idle w a" if "a \<noteq> peer_address h pt"
    using ex w that by simp
  show "ap_idle (ap_close_peer net h pt w) a = ap_idle w a" if "a \<noteq> peer_address h pt"
    using cl w that by simp
qed

lemma ap_drain_all_inv:
  "pool_inv net cap f (\<Union>(set ` set qs) \<union> H) n \<Longrightarrow>
    pool_inv net cap f H (fold (ap_drain net) qs n)"
proof (induction qs arbitrary: n)
  case (Cons q qs)
  then show ?case using ap_drain_inv [of net cap f q "\<Union>(set ` set qs) \<union> H" n] by (simp add: Un_assoc)
qed simp

section \<open>Properties\<close>

text \<open>
  After any sequence of requests and peer drops on a new pool of \<open>max_per_peer = mx > 0\<close>, at most
  \<open>mx\<close> connections per address contacted are open, whatever the network did to each request; and
  \<open>close_all\<close> then leaves none open. Hypothesis: the socket layer keeps its documented laws.
\<close>

theorem async_pool_accounting:
  assumes "net_laws net" and "n_open net n = {}" and "0 < mx"
    and "w = pool_run (ap_execute net dumps loads) (ap_close_peer net) ops (ap_init mx, n)"
  shows "card (n_open net (snd w)) \<le> nat mx * card (set (map op_address ops))
    \<and> n_open net (snd (ap_close_all net w)) = {}"
proof
  have init: "ap_inv net mx {} (ap_init mx, n)"
    using assms(1,2) by (simp add: ap_inv_def ap_init_def pool_inv_def fits_def split: option.splits)
  show "card (n_open net (snd w)) \<le> nat mx * card (set (map op_address ops))"
    unfolding assms(4) using assms(3)
    by (intro async_pool.run_opened [OF init]) (simp_all add: ap_idle_def ap_init_def queue_cap_def)
  have "ap_inv net mx {} w" unfolding assms(4) by (rule async_pool.run_invar [OF init])
  then have inv: "pool_inv net (queue_cap mx) (q_of (ap_queues (fst w))) {} (snd w)"
    and wf: "wf_dict (ap_queues (fst w))"
    by (simp_all add: ap_inv_def)
  have "pool_inv net (queue_cap mx) (\<lambda>a. []) (\<Union>(set ` set (map snd (ap_queues (fst w)))) \<union> {}) (snd w)"
    unfolding queues_union [OF wf] using pool_inv_give_up [OF inv] by simp
  from ap_drain_all_inv [OF this]
  show "n_open net (snd (ap_close_all net w)) = {}"
    by (cases w) (simp add: ap_close_all_def pool_inv_def)
qed

lemma async_pool_accounting_witness:
  "card (n_open silent_streams (snd (pool_run (ap_execute silent_streams toy_dumps toy_loads)
      (ap_close_peer silent_streams) [Exec ''a'' 1 (message PING PNone), ClosePeer ''a'' 1]
      (ap_init 2, (0, []))))) \<le> 2 * card {peer_address ''a'' 1}"
  using async_pool_accounting [OF demo_net_laws(1,3), of 2 _ "([], [])" "([], [])" toy_dumps toy_loads
      "[Exec ''a'' 1 (message PING PNone), ClosePeer ''a'' 1]" 0]
  by simp

text \<open>A fresh connection to a peer that serves answers the request.\<close>

lemma ap_attempt_fresh:
  assumes "send_message_async dumps msg = Inr bs" and "n_sendall net s bs n = (Inr (), n1)"
    and "send_message rdumps response = Inr reply" and "loads (rdumps response) = Inr response"
    and "case n_incoming net s n1 of (buf, st) \<Rightarrow> prefix reply (buf @ avail st)"
  shows "fst (ap_attempt net dumps loads a s msg (p, n)) = Inr response"
proof -
  obtain buf st where st: "n_incoming net s n1 = (buf, st)" by fastforce
  obtain st' where "recv_message_async loads (n_incoming net s n1) = (Inr response, st')"
    using recv_reply(2) [where loads = loads, OF assms(3,4), of buf st] assms(5) st
    by (metis (no_types, lifting) case_prod_conv prod.collapse)
  then show ?thesis using assms(1,2) by (simp add: ap_attempt_def Let_def split: option.splits)
qed

text \<open>
  A request to a peer that answers on every new connection is answered, whatever has become of the
  pooled connections (the peer may have restarted): closing ones are skipped, the reply comes from the
  first live pooled connection if that one works, and otherwise from the single retry on a fresh one.
  It never comes back as \<open>None\<close>.
\<close>

theorem async_execute_recovers:
  assumes "send_message_async dumps msg = Inr bs"
    and "send_message rdumps response = Inr reply" and "loads (rdumps response) = Inr response"
    and "fresh_serves net h pt bs (\<lambda>(buf, st). prefix reply (buf @ avail st))"
  shows "case ap_take net (ap_idle (p, n) (peer_address h pt)) n of
      (None, q) \<Rightarrow> fst (ap_execute net dumps loads h pt msg (p, n)) = Some response
    | (Some s, q) \<Rightarrow> fst (ap_execute net dumps loads h pt msg (p, n)) =
        Some (case fst (ap_attempt net dumps loads (peer_address h pt) s msg
                (ap_put (peer_address h pt) q (ap_queue (peer_address h pt) p), n)) of
              Inr m \<Rightarrow> m | Inl e \<Rightarrow> response)"
proof -
  have fresh: "\<exists>s n1. n_connect net h pt n = (Inr s, n1)
      \<and> (\<forall>p. fst (ap_attempt net dumps loads (peer_address h pt) s msg (p, n1)) = Inr response)" for n
  proof -
    obtain s n1 n2 where "n_connect net h pt n = (Inr s, n1)" "n_sendall net s bs n1 = (Inr (), n2)"
        "case n_incoming net s n2 of (buf, st) \<Rightarrow> prefix reply (buf @ avail st)"
      using assms(4) [unfolded fresh_serves_def, rule_format, of n] by auto
    with ap_attempt_fresh [where loads = loads, OF assms(1) _ assms(2,3)] show ?thesis by metis
  qed
  obtain r q where take: "ap_take net (ap_idle (p, n) (peer_address h pt)) n = (r, q)" by fastforce
  let ?w = "(ap_put (peer_address h pt) q (ap_queue (peer_address h pt) p), n)"
  show ?thesis
  proof (cases r)
    case None
    obtain s n1 where "n_connect net h pt n = (Inr s, n1)"
        "\<forall>p. fst (ap_attempt net dumps loads (peer_address h pt) s msg (p, n1)) = Inr response"
      using fresh by blast
    then show ?thesis using None take
      by (auto simp: ap_execute_def ap_idle_def ap_first_def Let_def
          split: sum.splits prod.splits dest!: spec [of _ "fst ?w"])
  next
    case (Some s)
    obtain r1 p1 n1 where w1: "ap_attempt net dumps loads (peer_address h pt) s msg ?w = (r1, p1, n1)"
      by (metis prod_cases3)
    obtain s2 n3 where s2: "n_connect net h pt (snd (n_close net s n1)) = (Inr s2, n3)"
        "fst (ap_attempt net dumps loads (peer_address h pt) s2 msg (p1, n3)) = Inr response"
      using fresh by blast
    then obtain w4 where "ap_attempt net dumps loads (peer_address h pt) s2 msg (p1, n3) = (Inr response, w4)"
      by (metis prod.collapse)
    then show ?thesis using Some take w1 s2(1)
      by (cases r1; cases w4) (simp_all add: ap_execute_def ap_idle_def ap_first_def Let_def)
  qed
qed

text \<open>Connection 0 is in the pool and its peer has gone; a fresh connection answers.\<close>

lemma async_execute_recovers_witness:
  "fst (ap_execute (demo_net ([0, 0, 0, 2], [Data [9, 9]]) ([], [])) toy_dumps toy_loads ''a'' 1
      (message PING PNone) (\<lparr>ap_max = 2, ap_queues = [(''a:1'', [0])]\<rparr>, (Suc 0, [0])))
     = Some (message OK PNone)"
proof -
  let ?net = "demo_net ([0, 0, 0, 2], [Data [9, 9]]) ([], [])"
  let ?p = "\<lparr>ap_max = 2, ap_queues = [(''a:1'', [0])]\<rparr>"
  have addr: "peer_address ''a'' 1 = ''a:1''" by code_simp
  have serves: "fresh_serves ?net ''a'' 1 [0, 0, 0, 1, 7]
      (\<lambda>(buf, st). prefix [0, 0, 0, 2, 9, 9] (buf @ avail st))"
    by (rule demo_net_serves) simp
  have send: "send_message_async toy_dumps (message PING PNone) = Inr [0, 0, 0, 1, 7]"
    using toy_sends(1) by (simp add: send_message_def send_message_async_def)
  have q0: "ap_idle (?p, (Suc 0, [0])) ''a:1'' = [0]" by (simp add: ap_idle_def q_of_def)
  have live: "ap_take ?net [0] (Suc 0, [0]) = (Some 0, [])" by (simp add: demo_net_def)
  have stale: "fst (ap_attempt ?net toy_dumps toy_loads ''a:1'' 0 (message PING PNone)
      (ap_put ''a:1'' [] (ap_queue ''a:1'' ?p), (Suc 0, [0]))) = Inl IncompleteReadError"
    by (simp add: ap_attempt_def send demo_net_def recv_message_async_def recv_message_with_def header_size_Suc)
  have "toy_loads (toy_dumps (message OK PNone)) = Inr (message OK PNone)"
    by (simp add: toy_loads_def toy_dumps_def)
  from async_execute_recovers [where loads = toy_loads, OF send toy_sends(2) this serves, of ?p "(Suc 0, [0])"]
  show ?thesis by (simp only: addr q0 live stale prod.case option.case sum.case)
qed

end
