(* ===== verification/Mux_Pool.thy ===== *)
theory Mux_Pool
  imports Pool_Interface "HOL-Library.Multiset"
begin

text \<open>
  \<open>dlstorage/connection_pool/mux.py\<close>: calling threads send, one selector thread reads. A
  caller's half of \<open>execute\<close> ends when it has queued its socket; the selector thread's halves
  are the registration of queued sockets and the handler of a readable socket. A run of the pool is any
  interleaving of these, of \<open>close_peer\<close> and of what the network does.
\<close>

section \<open>State\<close>

text \<open>
  \<open>_InFlight\<close>; \<open>if_ticket\<close> stands for the identity of the event the caller waits on. A
  ticket in \<open>mx_done\<close> is an event that is set, with the result written before.
\<close>

record InFlight =
  if_ticket :: nat
  if_address :: string
  if_buf :: "byte list"
  if_expected :: nat
  if_hdr_done :: bool

definition new_inflight :: "nat \<Rightarrow> string \<Rightarrow> InFlight" where
  "new_inflight ticket address =
     \<lparr>if_ticket = ticket, if_address = address, if_buf = [], if_expected = HEADER_SIZE, if_hdr_done = False\<rparr>"

text \<open>The deques of \<open>_idle\<close> with their left end first; \<open>mx_sel\<close> is the selector's map.\<close>

record MuxPool =
  mx_max :: int
  mx_idle :: "(string \<times> nat list) list"
  mx_reg :: "(nat \<times> InFlight) list"
  mx_sel :: "(nat \<times> InFlight) list"
  mx_done :: "(nat \<times> Message option) list"
  mx_next :: nat
  mx_running :: bool

definition mx_init :: "int \<Rightarrow> MuxPool" where
  "mx_init max_per_peer = \<lparr>mx_max = max_per_peer, mx_idle = [], mx_reg = [], mx_sel = [], mx_done = [],
     mx_next = 0, mx_running = True\<rparr>"

section \<open>The caller's half of execute\<close>

text \<open>\<open>_acquire\<close>: pop the right end of the peer's deque, or open a connection.\<close>

definition mx_acquire :: "('n, 's) net_ops \<Rightarrow> string \<Rightarrow> int \<Rightarrow> MuxPool \<times> 'n \<Rightarrow> nat option \<times> MuxPool \<times> 'n" where
  "mx_acquire net h pt w =
     (let (p, n) = w; address = peer_address h pt; pool = q_of (mx_idle p) address
      in if pool \<noteq> []
         then (Some (last pool), p\<lparr>mx_idle := AList.update address (butlast pool) (mx_idle p)\<rparr>, n)
         else (case n_connect net h pt n of
                 (Inr s, n1) \<Rightarrow> (Some s, p, n1)
               | (Inl e, n1) \<Rightarrow> (None, p, n1)))"

text \<open>
  \<open>encoded\<close> is what \<open>pickle.dumps\<close> and \<open>to_bytes\<close> give: the bytes of the frame or an exception of either.
  \<open>Inl e\<close>: the call raises \<open>e\<close>, outside every \<open>try\<close> and after the connection was acquired.
  \<open>Inr None\<close>: it returns \<open>None\<close> at once. \<open>Inr (Some t)\<close>: it waits for the event \<open>t\<close>.
\<close>

definition mx_submit_encoded :: "('n, 's) net_ops \<Rightarrow> byte list res \<Rightarrow> string \<Rightarrow> int
    \<Rightarrow> MuxPool \<times> 'n \<Rightarrow> nat option res \<times> MuxPool \<times> 'n" where
  "mx_submit_encoded net encoded h pt w =
     (case mx_acquire net h pt w of
        (None, p, n) \<Rightarrow> (Inr None, p, n)
      | (Some sock, p, n) \<Rightarrow>
         (case encoded of
            Inl e \<Rightarrow> (Inl e, p, n)
          | Inr bs \<Rightarrow>
             (case n_sendall net sock bs n of
                (Inl e, n1) \<Rightarrow> (Inr None, p, snd (n_close net sock n1))
              | (Inr _, n1) \<Rightarrow>
                 (Inr (Some (mx_next p)),
                  p\<lparr>mx_reg := mx_reg p @ [(sock, new_inflight (mx_next p) (peer_address h pt))],
                    mx_next := Suc (mx_next p)\<rparr>, n1))))"

text \<open>The call for a message that \<open>pickle\<close> can encode.\<close>

definition mx_submit :: "('n, 's) net_ops \<Rightarrow> (Message \<Rightarrow> byte list) \<Rightarrow> string \<Rightarrow> int \<Rightarrow> Message
    \<Rightarrow> MuxPool \<times> 'n \<Rightarrow> nat option res \<times> MuxPool \<times> 'n" where
  "mx_submit net dumps h pt msg w = mx_submit_encoded net (send_message dumps msg) h pt w"

lemmas mx_submit_unfold = mx_submit_def mx_submit_encoded_def

text \<open>What \<open>execute\<close> returns once the wait ends, by the event or by the timeout.\<close>

definition mx_result :: "nat \<Rightarrow> MuxPool \<Rightarrow> Message option" where
  "mx_result ticket p = (case map_of (mx_done p) ticket of Some r \<Rightarrow> r | None \<Rightarrow> None)"

section \<open>The selector thread\<close>

text \<open>The wake-up branch of \<open>_io_loop\<close>: register every queued socket.\<close>

definition mx_wake :: "MuxPool \<Rightarrow> MuxPool" where
  "mx_wake p = p\<lparr>mx_sel := mx_sel p @ mx_reg p, mx_reg := []\<rparr>"

definition mx_unregister :: "nat \<Rightarrow> MuxPool \<Rightarrow> MuxPool" where
  "mx_unregister sock p = p\<lparr>mx_sel := AList.delete sock (mx_sel p)\<rparr>"

definition mx_set_event :: "InFlight \<Rightarrow> Message option \<Rightarrow> MuxPool \<Rightarrow> MuxPool" where
  "mx_set_event inflight r p = p\<lparr>mx_done := (if_ticket inflight, r) # mx_done p\<rparr>"

text \<open>\<open>_return\<close>: to the left end of the deque, or closed when the deque is full.\<close>

definition mx_return :: "('n, 's) net_ops \<Rightarrow> string \<Rightarrow> nat \<Rightarrow> MuxPool \<times> 'n \<Rightarrow> MuxPool \<times> 'n" where
  "mx_return net address sock w =
     (let (p, n) = w; pool = q_of (mx_idle p) address
      in if int (length pool) < mx_max p
         then (p\<lparr>mx_idle := AList.update address (sock # pool) (mx_idle p)\<rparr>, n)
         else (p\<lparr>mx_idle := AList.update address pool (mx_idle p)\<rparr>, snd (n_close net sock n)))"

text \<open>\<open>_fail\<close>: the caller goes on with the result it had, \<open>None\<close>.\<close>

definition mx_fail :: "('n, 's) net_ops \<Rightarrow> nat \<Rightarrow> InFlight \<Rightarrow> MuxPool \<times> 'n \<Rightarrow> MuxPool \<times> 'n" where
  "mx_fail net sock inflight w =
     (mx_set_event inflight None (mx_unregister sock (fst w)), snd (n_close net sock (snd w)))"

text \<open>What \<open>_handle_read\<close> makes of what \<open>recv\<close> gave it: wait on, give up, or deliver.\<close>

datatype mx_step = MxKeep InFlight | MxFail | MxDeliver Message

definition mx_feed :: "(byte list \<Rightarrow> Message res) \<Rightarrow> InFlight \<Rightarrow> byte list res \<Rightarrow> mx_step" where
  "mx_feed loads inflight r =
     (case r of
        Inl e \<Rightarrow> if e = BlockingIOError then MxKeep inflight else MxFail
      | Inr chunk \<Rightarrow>
          if chunk = [] then MxFail
          else (let buf = if_buf inflight @ chunk
                in if length buf < if_expected inflight then MxKeep (inflight\<lparr>if_buf := buf\<rparr>)
                   else if \<not> if_hdr_done inflight
                   then MxKeep (inflight\<lparr>if_expected := from_bytes_big (take HEADER_SIZE buf),
                                         if_buf := [], if_hdr_done := True\<rparr>)
                   else (case loads buf of Inl e \<Rightarrow> MxFail | Inr msg \<Rightarrow> MxDeliver msg)))"

definition mx_handle_read :: "('n, rx list) net_ops \<Rightarrow> (byte list \<Rightarrow> Message res) \<Rightarrow> nat \<Rightarrow> InFlight
    \<Rightarrow> MuxPool \<times> 'n \<Rightarrow> MuxPool \<times> 'n" where
  "mx_handle_read net loads sock inflight w =
     (let (p, n) = w;
          (r, st) = sock_recv (if_expected inflight - length (if_buf inflight)) (n_incoming net sock n);
          n1 = n_advance net sock st n
      in case mx_feed loads inflight r of
           MxKeep inflight' \<Rightarrow> (p\<lparr>mx_sel := AList.update sock inflight' (mx_sel p)\<rparr>, n1)
         | MxFail \<Rightarrow> mx_fail net sock inflight (p, n1)
         | MxDeliver msg \<Rightarrow>
             (let (p2, n2) = mx_return net (if_address inflight) sock (mx_unregister sock p, n1)
              in (mx_set_event inflight (Some msg) p2, n2)))"

section \<open>Closing\<close>

definition mx_close_list :: "('n, 's) net_ops \<Rightarrow> nat list \<Rightarrow> 'n \<Rightarrow> 'n" where
  "mx_close_list net socks n = fold (\<lambda>s n. snd (n_close net s n)) socks n"

definition mx_close_peer :: "('n, 's) net_ops \<Rightarrow> string \<Rightarrow> int \<Rightarrow> MuxPool \<times> 'n \<Rightarrow> MuxPool \<times> 'n" where
  "mx_close_peer net h pt w =
     (let (p, n) = w; address = peer_address h pt; socks = q_of (mx_idle p) address
      in (p\<lparr>mx_idle := AList.delete address (mx_idle p)\<rparr>, mx_close_list net socks n))"

text \<open>The end of \<open>_io_loop\<close>: the event of every registered socket is set, with the result it has, \<open>None\<close>.\<close>

definition mx_end_loop :: "MuxPool \<Rightarrow> MuxPool" where
  "mx_end_loop p =
     p\<lparr>mx_sel := [], mx_done := map (\<lambda>(s, inflight). (if_ticket inflight, None)) (mx_sel p) @ mx_done p\<rparr>"

declare mx_end_loop_def [simp]

text \<open>
  \<open>close_all\<close>: its first statement clears the flag that the selector thread tests; the thread ends, setting
  the event of every registered socket without closing it; then the idle sockets are closed. What is still
  in \<open>_reg_queue\<close> stays there. \<open>Mux_Shutdown\<close> has the three parts as separate steps.
\<close>

definition mx_stop_flag :: "MuxPool \<Rightarrow> MuxPool" where
  "mx_stop_flag p = p\<lparr>mx_running := False\<rparr>"

definition mx_close_idle :: "('n, 's) net_ops \<Rightarrow> MuxPool \<times> 'n \<Rightarrow> MuxPool \<times> 'n" where
  "mx_close_idle net w =
     (let (p, n) = w in (p\<lparr>mx_idle := []\<rparr>, fold (mx_close_list net) (map snd (mx_idle p)) n))"

definition mx_close_all :: "('n, 's) net_ops \<Rightarrow> MuxPool \<times> 'n \<Rightarrow> MuxPool \<times> 'n" where
  "mx_close_all net w = (let (p, n) = w in mx_close_idle net (mx_end_loop (mx_stop_flag p), n))"

lemmas mx_close_defs = mx_close_all_def mx_close_idle_def mx_stop_flag_def

section \<open>The selector's reader computes the blocking reader's message\<close>

text \<open>
  The reads of one in-flight request, one after the other, on everything its socket will receive; a
  spurious wake-up is a \<open>BlockingIOError\<close> in that list. \<open>rx_size\<close> counts the bytes and the errors.
\<close>

fun rx_size :: "rx list \<Rightarrow> nat" where
  "rx_size [] = 0"
| "rx_size (Fault e # st) = Suc (rx_size st)"
| "rx_size (Data bs # st) = length bs + rx_size st"

lemma sock_recv_shrinks: "sock_recv k st = (r, st') \<Longrightarrow> r \<noteq> Inr [] \<Longrightarrow> rx_size st' < rx_size st"
  by (induction k st rule: sock_recv.induct) (auto split: if_splits)

function mx_reads :: "(byte list \<Rightarrow> Message res) \<Rightarrow> InFlight \<Rightarrow> rx list \<Rightarrow> Message option" where
  "mx_reads loads inflight st =
     (let (r, st') = sock_recv (if_expected inflight - length (if_buf inflight)) st
      in case mx_feed loads inflight r of
           MxKeep inflight' \<Rightarrow> mx_reads loads inflight' st'
         | MxFail \<Rightarrow> None
         | MxDeliver msg \<Rightarrow> Some msg)"
  by pat_completeness auto
termination
proof (relation "measure (\<lambda>(loads, inflight, st). rx_size st)")
  fix loads inflight st x r st' inflight'
  assume "x = sock_recv (if_expected inflight - length (if_buf inflight)) st" "(r, st') = x"
    and "mx_feed loads inflight r = MxKeep inflight'"
  moreover from this(3) have "r \<noteq> Inr []" by (auto simp: mx_feed_def)
  ultimately show "((loads, inflight', st'), (loads, inflight, st)) \<in> measure (\<lambda>(loads, inflight, st). rx_size st)"
    by simp (metis sock_recv_shrinks)
qed simp

declare mx_reads.simps [simp del]

definition ready_only :: "rx list \<Rightarrow> rx list" where
  "ready_only st = filter (\<lambda>e. e \<noteq> Fault BlockingIOError) st"

definition delivered :: "'a res \<Rightarrow> 'a option" where
  "delivered r = (case r of Inl e \<Rightarrow> None | Inr x \<Rightarrow> Some x)"

text \<open>The value of \<open>mx_reads\<close> from the state of the reader and the bytes still to come.\<close>

definition mx_value :: "(byte list \<Rightarrow> Message res) \<Rightarrow> InFlight \<Rightarrow> byte list \<Rightarrow> Message option" where
  "mx_value loads inflight rest =
     (let bs = if_buf inflight @ rest
      in if length bs < if_expected inflight then None
         else if if_hdr_done inflight then delivered (loads (take (if_expected inflight) bs))
         else (let l = from_bytes_big (take HEADER_SIZE bs)
               in if length bs < HEADER_SIZE + l then None
                  else delivered (loads (take l (drop HEADER_SIZE bs)))))"

definition mx_reader_ok :: "InFlight \<Rightarrow> bool" where
  "mx_reader_ok inflight \<longleftrightarrow> (if_hdr_done inflight \<or> if_expected inflight = HEADER_SIZE)
     \<and> (length (if_buf inflight) < if_expected inflight \<or> if_expected inflight = 0 \<and> if_buf inflight = [])"

lemma sock_recv_ready:
  "0 < k \<Longrightarrow> case sock_recv k st of
      (Inl e, st') \<Rightarrow> if e = BlockingIOError then ready_only st = ready_only st'
        else avail (ready_only st) = []
    | (Inr bs, st') \<Rightarrow> length bs \<le> k \<and>
        (if bs = [] then avail (ready_only st) = [] else avail (ready_only st) = bs @ avail (ready_only st'))"
  by (induction k st rule: sock_recv.induct) (auto simp: ready_only_def simp flip: append_assoc)

lemma sock_recv_zero: "sock_recv 0 st = (Inr bs, st') \<Longrightarrow> bs = []"
  by (induction "0::nat" st rule: sock_recv.induct) (auto split: if_splits)

text \<open>One delivered chunk moves bytes from the stream into the reader and keeps its value.\<close>

lemma mx_feed_value:
  assumes "mx_reader_ok inflight" and "chunk \<noteq> []"
    and "length chunk \<le> if_expected inflight - length (if_buf inflight)" and "\<exists>e. loads [] = Inl e"
  shows "case mx_feed loads inflight (Inr chunk) of
      MxKeep inflight' \<Rightarrow> mx_reader_ok inflight' \<and> mx_value loads inflight (chunk @ rest) = mx_value loads inflight' rest
    | MxFail \<Rightarrow> mx_value loads inflight (chunk @ rest) = None
    | MxDeliver msg \<Rightarrow> mx_value loads inflight (chunk @ rest) = Some msg"
proof -
  let ?buf = "if_buf inflight @ chunk"
  have pos: "0 < length chunk" using assms(2) by simp
  show ?thesis
  proof (cases "length ?buf < if_expected inflight")
    case True
    then show ?thesis using assms(1,2) by (auto simp: mx_feed_def mx_reader_ok_def mx_value_def Let_def)
  next
    case False
    then have full: "length ?buf = if_expected inflight" using assms(1,3) pos by (auto simp: mx_reader_ok_def)
    show ?thesis
    proof (cases "if_hdr_done inflight")
      case True
      then show ?thesis using full assms(2)
        by (auto simp: mx_feed_def mx_value_def Let_def delivered_def simp flip: append_assoc split: sum.splits)
    next
      case hdr: False
      then have four: "if_expected inflight = HEADER_SIZE" using assms(1) by (simp add: mx_reader_ok_def)
      let ?l = "from_bytes_big ?buf"
      have feed: "mx_feed loads inflight (Inr chunk)
          = MxKeep (inflight\<lparr>if_expected := ?l, if_buf := [], if_hdr_done := True\<rparr>)"
        using hdr full four assms(2) by (simp add: mx_feed_def Let_def)
      have "mx_value loads inflight (chunk @ rest)
          = (if length rest < ?l then None else delivered (loads (take ?l rest)))"
        using hdr full four by (simp add: mx_value_def Let_def flip: append_assoc)
      then show ?thesis using feed by (auto simp: mx_value_def mx_reader_ok_def Let_def)
    qed
  qed
qed

lemma sock_recv_fault: "sock_recv k st = (Inl e, st') \<Longrightarrow> st = Fault e # st'"
  by (induction k st rule: sock_recv.induct) (auto split: if_splits)

lemma mx_value_empty:
  "mx_reader_ok inflight \<Longrightarrow> \<exists>e. loads [] = Inl e \<Longrightarrow>
    rest = [] \<or> if_expected inflight \<le> length (if_buf inflight) \<Longrightarrow> mx_value loads inflight rest = None"
  by (auto simp: mx_value_def mx_reader_ok_def delivered_def HEADER_SIZE_def Let_def)

lemma mx_reads_value:
  assumes "\<exists>e. loads [] = Inl e" and "mx_reader_ok inflight"
  shows "mx_reads loads inflight st = mx_value loads inflight (avail (ready_only st))"
  using assms
proof (induction loads inflight st rule: mx_reads.induct)
  case (1 loads inflight st)
  let ?k = "if_expected inflight - length (if_buf inflight)"
  obtain r st' where r: "sock_recv ?k st = (r, st')" by fastforce
  have step: "mx_reads loads inflight st = (case mx_feed loads inflight r of
      MxKeep inflight' \<Rightarrow> mx_reads loads inflight' st' | MxFail \<Rightarrow> None | MxDeliver msg \<Rightarrow> Some msg)"
    using r by (subst mx_reads.simps) simp
  note ih = 1(1) [OF refl r [symmetric] _ 1(2)]
  note none = mx_value_empty [where loads = loads, OF 1(3) 1(2)]
  show ?case
  proof (cases r)
    case (Inl e)
    then have "st = Fault e # st'" using r sock_recv_fault by simp
    then show ?thesis using step Inl ih [of inflight] 1(3) none [of "[]"]
      by (auto simp: mx_feed_def ready_only_def)
  next
    case (Inr chunk)
    show ?thesis
    proof (cases "chunk = []")
      case True
      then have "avail (ready_only st) = [] \<or> if_expected inflight \<le> length (if_buf inflight)"
        using sock_recv_ready [of ?k st] r Inr by (cases "0 < ?k") auto
      then show ?thesis using step Inr True none by (simp add: mx_feed_def)
    next
      case False
      then have k: "0 < ?k" using r Inr sock_recv_zero by (cases "?k = 0") auto
      then have "avail (ready_only st) = chunk @ avail (ready_only st')" "length chunk \<le> ?k"
        using sock_recv_ready [OF k, of st] r Inr False by auto
      then show ?thesis
        using step Inr ih mx_feed_value [where loads = loads, OF 1(3) False _ 1(2), of "avail (ready_only st')"]
        by (auto split: mx_step.splits)
    qed
  qed
qed

lemma mx_reads_blocking:
  assumes "\<exists>e. loads [] = Inl e"
  shows "mx_reads loads (new_inflight ticket address) st = delivered (fst (recv_message loads (ready_only st)))"
proof -
  note recv = sync_source.recv_value [of loads "ready_only st", folded recv_message_def]
  have "mx_reader_ok (new_inflight ticket address)"
    by (simp add: mx_reader_ok_def new_inflight_def HEADER_SIZE_def)
  then show ?thesis
    by (auto simp: mx_reads_value [where loads = loads, OF assms] recv mx_value_def new_inflight_def delivered_def Let_def)
qed

text \<open>C10.
  The selector thread's incremental reader delivers exactly the message the blocking
  \<open>recv_message\<close> returns on the same stream, and gives up exactly when that one raises: for every
  way of cutting the bytes into chunks, with any number of spurious wake-ups in between, for streams
  that end or fail anywhere. The hypothesis is that \<open>pickle.loads(b"")\<close> raises.
\<close>

theorem mux_reader_equals_blocking:
  assumes "\<exists>e. loads [] = Inl e"
  shows "mx_reads loads (new_inflight ticket address) st = delivered (fst (recv_message loads (ready_only st)))"
  using assms by (rule mx_reads_blocking)

section \<open>Accounting over all interleavings\<close>

definition mx_inflight :: "MuxPool \<Rightarrow> (nat \<times> InFlight) list" where
  "mx_inflight p = mx_sel p @ mx_reg p"

definition mx_tickets :: "MuxPool \<Rightarrow> nat list" where
  "mx_tickets p = map (if_ticket \<circ> snd) (mx_inflight p) @ map fst (mx_done p)"

definition mx_inv :: "('n, 's) net_ops \<Rightarrow> int \<Rightarrow> nat set \<Rightarrow> MuxPool \<times> 'n \<Rightarrow> bool" where
  "mx_inv net mx H w \<longleftrightarrow> mx_max (fst w) = mx \<and> wf_dict (mx_idle (fst w)) \<and> distinct (map fst (mx_inflight (fst w)))
     \<and> fst ` set (mx_inflight (fst w)) \<inter> H = {}
     \<and> distinct (mx_tickets (fst w)) \<and> (\<forall>t \<in> set (mx_tickets (fst w)). t < mx_next (fst w))
     \<and> pool_inv net (Some (nat mx)) (q_of (mx_idle (fst w))) (fst ` set (mx_inflight (fst w)) \<union> H) (snd w)"

text \<open>One interleaving step that leaves every connection with an owner.\<close>

inductive mux_step :: "('n, rx list) net_ops \<Rightarrow> (Message \<Rightarrow> byte list) \<Rightarrow> (byte list \<Rightarrow> Message res)
    \<Rightarrow> MuxPool \<times> 'n \<Rightarrow> MuxPool \<times> 'n \<Rightarrow> bool" for net dumps loads where
  Submit: "mx_submit net dumps h pt msg w = (Inr r, w') \<Longrightarrow> mux_step net dumps loads w w'"
| Wake: "mux_step net dumps loads (p, n) (mx_wake p, n)"
| Read: "map_of (mx_sel p) s = Some inflight \<Longrightarrow>
    mux_step net dumps loads (p, n) (mx_handle_read net loads s inflight (p, n))"
| Drop: "mux_step net dumps loads w (mx_close_peer net h pt w)"
| Net: "n_made net n \<subseteq> n_made net n' \<Longrightarrow> n_open net n' \<subseteq> n_open net n \<Longrightarrow>
    mux_step net dumps loads (p, n) (p, n')"

text \<open>
  The states of a pool under these steps and under calls that raise, because \<open>pickle\<close> cannot encode the
  message or the frame is too long for its prefix. The list has the connections such calls had acquired.
\<close>

inductive mux_reachable :: "('n, rx list) net_ops \<Rightarrow> (Message \<Rightarrow> byte list) \<Rightarrow> (byte list \<Rightarrow> Message res)
    \<Rightarrow> int \<Rightarrow> 'n \<Rightarrow> nat list \<Rightarrow> MuxPool \<times> 'n \<Rightarrow> bool" for net dumps loads mx n0 where
  init: "mux_reachable net dumps loads mx n0 [] (mx_init mx, n0)"
| step: "mux_reachable net dumps loads mx n0 L w \<Longrightarrow> mux_step net dumps loads w w' \<Longrightarrow>
    mux_reachable net dumps loads mx n0 L w'"
| raised: "mux_reachable net dumps loads mx n0 L w \<Longrightarrow> mx_submit_encoded net (Inl e) h pt w = (Inl e, w') \<Longrightarrow>
    fst (mx_acquire net h pt w) = Some s \<Longrightarrow> mux_reachable net dumps loads mx n0 (s # L) w'"

inductive_cases mux_stepE: "mux_step net dumps loads w w'"

lemma mx_acquire_inv:
  assumes "mx_inv net mx H (p, n)" and "mx_acquire net h pt (p, n) = (r, p', n')"
  shows "mx_inflight p' = mx_inflight p \<and> mx_next p' = mx_next p \<and> mx_done p' = mx_done p \<and>
    (case r of None \<Rightarrow> mx_inv net mx H (p', n')
     | Some s \<Rightarrow> mx_inv net mx (insert s H) (p', n') \<and> s \<notin> H)"
proof -
  let ?a = "peer_address h pt" and ?H = "fst ` set (mx_inflight p) \<union> H"
  have inv: "pool_inv net (Some (nat mx)) (q_of (mx_idle p)) ?H n" using assms(1) by (simp add: mx_inv_def)
  show ?thesis
  proof (cases "q_of (mx_idle p) ?a = []")
    case True
    obtain c n1 where n1: "n_connect net h pt n = (c, n1)" by fastforce
    show ?thesis
      using assms n1 True pool_inv_refused [OF inv, of h pt] pool_inv_connect [OF inv, of h pt]
      by (cases c) (auto simp: mx_acquire_def mx_inv_def mx_inflight_def mx_tickets_def Let_def)
  next
    case False
    then have q: "q_of (mx_idle p) ?a = butlast (q_of (mx_idle p) ?a) @ [last (q_of (mx_idle p) ?a)]" by simp
    from pool_inv_take [OF inv q] show ?thesis
      using assms False
      by (auto simp: mx_acquire_def mx_inv_def mx_inflight_def mx_tickets_def Let_def)
  qed
qed

lemma mx_close_held:
  assumes "mx_inv net mx (insert s H) (p, n)" and "s \<notin> H" and "n_close net s n = (r, n')"
  shows "mx_inv net mx H (p, n')"
  using assms pool_inv_close [of net "Some (nat mx)" "q_of (mx_idle p)" s "fst ` set (mx_inflight p) \<union> H" n]
  by (auto simp: mx_inv_def)

lemma mx_inv_net:
  "mx_inv net mx H (p, n) \<Longrightarrow> n_made net n \<subseteq> n_made net n' \<Longrightarrow> n_open net n' \<subseteq> n_open net n \<Longrightarrow>
    mx_inv net mx H (p, n')"
  using pool_inv_net [of net "Some (nat mx)" "q_of (mx_idle p)" _ n n'] by (auto simp: mx_inv_def)

lemma mx_submit_inv:
  assumes "mx_inv net mx H (p, n)" and "mx_submit net dumps h pt msg (p, n) = (Inr r, p', n')"
  shows "mx_inv net mx H (p', n')"
proof -
  obtain a p1 n1 where a: "mx_acquire net h pt (p, n) = (a, p1, n1)" by (metis prod_cases3)
  note acq = mx_acquire_inv [OF assms(1) a]
  show ?thesis
  proof (cases a)
    case None
    then show ?thesis using assms(2) a acq by (simp add: mx_submit_unfold)
  next
    case (Some s)
    then have inv: "mx_inv net mx (insert s H) (p1, n1)" and s: "s \<notin> H" using acq by auto
    obtain bs where bs: "send_message dumps msg = Inr bs"
      using assms(2) a Some by (cases "send_message dumps msg") (auto simp: mx_submit_unfold)
    obtain u n2 where n2: "n_sendall net s bs n1 = (u, n2)" by fastforce
    have laws: "net_laws net" using inv by (auto simp: mx_inv_def pool_inv_laws)
    note inv2 = mx_inv_net [OF inv, of n2] law_sendall [OF laws n2]
    show ?thesis
    proof (cases u)
      case (Inl e)
      obtain c n3 where n3: "n_close net s n2 = (c, n3)" by fastforce
      show ?thesis
        using assms(2) a Some bs n2 n3 Inl inv2 mx_close_held [of net mx s H p1 n2 c n3] s
        by (auto simp: mx_submit_unfold)
    next
      case (Inr v)
      have p': "n' = n2" "p' = p1\<lparr>mx_reg := mx_reg p1 @ [(s, new_inflight (mx_next p1) (peer_address h pt))],
          mx_next := Suc (mx_next p1)\<rparr>"
        using assms(2) a Some bs n2 Inr by (auto simp: mx_submit_unfold)
      have "mx_inflight p' = mx_inflight p1 @ [(s, new_inflight (mx_next p1) (peer_address h pt))]"
        unfolding p' by (simp add: mx_inflight_def)
      moreover have "mx_inv net mx (insert s H) (p1, n2)" using inv2 by auto
      ultimately show ?thesis using s unfolding p'
        by (auto simp: mx_inv_def mx_tickets_def new_inflight_def less_Suc_eq)
    qed
  qed
qed

lemma map_of_split:
  assumes "distinct (map fst xs)" and "map_of xs k = Some v"
  obtains as bs where "xs = as @ (k, v) # bs" and "AList.delete k xs = as @ bs"
    and "\<And>v'. AList.update k v' xs = as @ (k, v') # bs"
proof -
  from assms(2) obtain as bs where xs: "xs = as @ (k, v) # bs"
    by (metis map_of_SomeD split_list)
  have k: "k \<notin> fst ` set as" "k \<notin> fst ` set bs" using assms(1) xs by auto
  then have "AList.delete k xs = as @ bs" unfolding xs by (induction as) (auto simp: delete_idem)
  moreover have "AList.update k v' xs = as @ (k, v') # bs" for v'
    using k(1) unfolding xs by (induction as) auto
  ultimately show thesis using that xs by blast
qed

text \<open>A request leaves the selector: its socket is held by the selector thread, its event is set.\<close>

lemma mx_leave_inv:
  assumes "mx_inv net mx H (p, n)" and "map_of (mx_sel p) s = Some inflight"
    and "p1 = mx_set_event inflight r (mx_unregister s p)"
  shows "mx_inv net mx (insert s H) (p1, n)" and "s \<notin> H"
proof -
  have d: "distinct (map fst (mx_sel p))" using assms(1) by (simp add: mx_inv_def mx_inflight_def)
  obtain as bs where sel: "mx_sel p = as @ (s, inflight) # bs" "AList.delete s (mx_sel p) = as @ bs"
    using map_of_split [OF d assms(2)] by metis
  have fields: "mx_max p1 = mx_max p" "mx_idle p1 = mx_idle p" "mx_next p1 = mx_next p"
      "mx_inflight p1 = as @ bs @ mx_reg p" "mx_inflight p = as @ (s, inflight) # bs @ mx_reg p"
      "mx_done p1 = (if_ticket inflight, r) # mx_done p"
    using sel by (simp_all add: assms(3) mx_set_event_def mx_unregister_def mx_inflight_def)
  have held: "fst ` set (mx_inflight p1) \<union> insert s H = fst ` set (mx_inflight p) \<union> H"
    unfolding fields by auto
  have tickets: "mset (mx_tickets p1) = mset (mx_tickets p)"
    by (simp add: mx_tickets_def fields)
  have t: "distinct (mx_tickets p1)" "set (mx_tickets p1) = set (mx_tickets p)"
    using assms(1) mset_eq_imp_distinct_iff [OF tickets] mset_eq_setD [OF tickets] by (simp_all add: mx_inv_def)
  have "distinct (map fst (mx_inflight p1))" "fst ` set (mx_inflight p1) \<inter> insert s H = {}"
    using assms(1) unfolding mx_inv_def fst_conv fields(4,5) by auto
  then show "mx_inv net mx (insert s H) (p1, n)"
    using assms(1) t unfolding mx_inv_def fst_conv snd_conv held fields(1-3) by simp
  show "s \<notin> H" using assms(1) unfolding mx_inv_def fst_conv fields(5) by auto
qed

lemma mx_return_inv:
  assumes "mx_inv net mx (insert s H) (p, n)" and "s \<notin> H" and "mx_return net a s (p, n) = (p', n')"
  shows "mx_inv net mx H (p', n')"
proof -
  let ?H = "fst ` set (mx_inflight p) \<union> H"
  have inv: "pool_inv net (Some (nat mx)) (q_of (mx_idle p)) (insert s ?H) n"
    and s: "s \<notin> ?H" and mx: "mx_max p = mx"
    using assms(1,2) by (auto simp: mx_inv_def)
  have rest: "mx_inv net mx H (p', n')"
    if "wf_dict (mx_idle p')" "mx_inflight p' = mx_inflight p" "mx_done p' = mx_done p" "mx_next p' = mx_next p" "mx_max p' = mx_max p"
      "pool_inv net (Some (nat mx)) (q_of (mx_idle p')) ?H n'"
    using assms(1) that by (simp add: mx_inv_def mx_tickets_def)
  have wf: "wf_dict (mx_idle p)" using assms(1) by (simp add: mx_inv_def)
  show ?thesis
  proof (cases "int (length (q_of (mx_idle p) a)) < mx_max p")
    case True
    have "pool_inv net (Some (nat mx)) ((q_of (mx_idle p))(a := [] @ s # q_of (mx_idle p) a)) ?H n"
      using True mx by (intro pool_inv_put [OF inv s]) (auto simp: fits_def)
    then show ?thesis using assms(3) True
      by (intro rest) (auto simp: mx_return_def mx_inflight_def Let_def wf)
  next
    case False
    obtain c n1 where n1: "n_close net s n = (c, n1)" by fastforce
    then show ?thesis using pool_inv_close [OF inv n1] assms(3) False
      by (intro rest) (auto simp: mx_return_def mx_inflight_def Let_def fun_upd_idem wf)
  qed
qed

lemma mx_feed_ticket: "mx_feed loads inflight r = MxKeep inflight' \<Longrightarrow> if_ticket inflight' = if_ticket inflight"
  by (auto simp: mx_feed_def Let_def split: sum.splits if_splits)

lemma mx_return_set_event:
  "mx_return net a s (mx_set_event i r p, n) = (case mx_return net a s (p, n) of (p', n') \<Rightarrow> (mx_set_event i r p', n'))"
  by (simp add: mx_return_def mx_set_event_def Let_def)

lemma mx_handle_read_inv:
  assumes "mx_inv net mx H (p, n)" and "map_of (mx_sel p) s = Some inflight"
  shows "mx_inv net mx H (mx_handle_read net loads s inflight (p, n))"
proof -
  obtain r st where r: "sock_recv (if_expected inflight - length (if_buf inflight)) (n_incoming net s n) = (r, st)"
    by fastforce
  let ?n = "n_advance net s st n"
  have laws: "net_laws net" using assms(1) by (auto simp: mx_inv_def pool_inv_laws)
  have inv: "mx_inv net mx H (p, ?n)" using mx_inv_net [OF assms(1)] law_advance [OF laws, of s st n] by auto
  show ?thesis
  proof (cases "mx_feed loads inflight r")
    case (MxKeep inflight')
    let ?p = "p\<lparr>mx_sel := AList.update s inflight' (mx_sel p)\<rparr>"
    have d: "distinct (map fst (mx_sel p))" using assms(1) by (simp add: mx_inv_def mx_inflight_def)
    obtain as bs where sel: "mx_sel p = as @ (s, inflight) # bs"
        "AList.update s inflight' (mx_sel p) = as @ (s, inflight') # bs"
      using map_of_split [OF d assms(2)] by metis
    have "map fst (mx_inflight ?p) = map fst (mx_inflight p)" "mx_tickets ?p = mx_tickets p"
      using mx_feed_ticket [OF MxKeep] unfolding mx_tickets_def mx_inflight_def
      by (simp_all add: sel(1) sel(2) [unfolded sel(1)])
    moreover from this(1) have "fst ` set (mx_inflight ?p) = fst ` set (mx_inflight p)"
      by (metis list.set_map)
    ultimately have "mx_inv net mx H (?p, ?n)" using inv by (simp add: mx_inv_def)
    then show ?thesis using r MxKeep by (simp add: mx_handle_read_def)
  next
    case MxFail
    obtain c n2 where n2: "n_close net s ?n = (c, n2)" by fastforce
    show ?thesis using mx_leave_inv(1) [OF inv assms(2) refl, of None] mx_leave_inv(2) [OF inv assms(2) refl] r MxFail n2 mx_close_held [OF _ _ n2]
      by (simp add: mx_handle_read_def mx_fail_def)
  next
    case (MxDeliver msg)
    obtain p2 n2 where ret: "mx_return net (if_address inflight) s (mx_unregister s p, ?n) = (p2, n2)" by fastforce
    have "mx_return net (if_address inflight) s (mx_set_event inflight (Some msg) (mx_unregister s p), ?n)
        = (mx_set_event inflight (Some msg) p2, n2)"
      by (simp add: mx_return_set_event ret)
    from mx_return_inv [OF mx_leave_inv [OF inv assms(2) refl] this] show ?thesis
      using r MxDeliver ret by (simp add: mx_handle_read_def)
  qed
qed

lemma mx_close_list_inv:
  "pool_inv net cap f (set q \<union> H) n \<Longrightarrow> pool_inv net cap f H (mx_close_list net q n)"
proof (induction q arbitrary: n)
  case (Cons s q)
  then have "pool_inv net cap f (set q \<union> H) (snd (n_close net s n))"
    using pool_inv_close [of net cap f s "set q \<union> H" n "fst (n_close net s n)"] by simp
  then show ?case using Cons.IH by (simp add: mx_close_list_def)
qed (simp add: mx_close_list_def)

lemma mx_close_peer_inv:
  assumes "mx_inv net mx H (p, n)" shows "mx_inv net mx H (mx_close_peer net h pt (p, n))"
proof -
  let ?f = "q_of (mx_idle p)" and ?a = "peer_address h pt" and ?H = "fst ` set (mx_inflight p) \<union> H"
  have inv: "pool_inv net (Some (nat mx)) ?f ?H n" using assms by (simp add: mx_inv_def)
  have "pool_inv net (Some (nat mx)) (?f(?a := [])) (set (?f ?a) \<union> ?H) n"
    by (rule pool_inv_move [OF inv]) (auto simp: fits_def)
  then have "pool_inv net (Some (nat mx)) (?f(?a := [])) ?H (mx_close_list net (?f ?a) n)"
    by (rule mx_close_list_inv)
  then show ?thesis using assms
    by (simp add: mx_close_peer_def mx_inv_def mx_inflight_def mx_tickets_def Let_def)
qed

lemma mux_step_inv: "mux_step net dumps loads w w' \<Longrightarrow> mx_inv net mx H w \<Longrightarrow> mx_inv net mx H w'"
proof (induction rule: mux_step.induct)
  case (Submit h pt msg w r w')
  then show ?case using mx_submit_inv [of net mx H "fst w" "snd w" dumps h pt msg r "fst w'" "snd w'"] by simp
next
  case (Wake p n)
  then show ?case by (simp add: mx_inv_def mx_wake_def mx_inflight_def mx_tickets_def)
next
  case (Read p s inflight n)
  then show ?case by (intro mx_handle_read_inv)
next
  case (Drop w h pt)
  then show ?case by (cases w) (simp add: mx_close_peer_inv)
next
  case (Net n n' p)
  from mx_inv_net [OF Net(3,1,2)] show ?case .
qed

section \<open>Properties of the pool\<close>

lemma mux_reachable_inv:
  assumes "net_laws net" and "n_open net n0 = {}"
  shows "mux_reachable net dumps loads mx n0 L w \<Longrightarrow> mx_inv net mx (set L) w \<and> distinct L"
proof (induction rule: mux_reachable.induct)
  case init
  then show ?case using assms
    by (simp add: mx_inv_def mx_init_def mx_inflight_def mx_tickets_def pool_inv_def fits_def)
next
  case (step L w w')
  then show ?case using mux_step_inv by blast
next
  case (raised L w e h pt w' s)
  obtain p n a p' n' where w: "w = (p, n)" "mx_acquire net h pt w = (a, p', n')" by (metis prod_cases3 surj_pair)
  then show ?case
    using mx_acquire_inv [of net mx "set L" p n h pt a p' n'] raised by (auto simp: mx_submit_encoded_def)
qed

text \<open>C17.
  In every interleaving of callers, selector thread, peer drops and network events, each open
  connection is idle in one deque, or belongs to one in-flight request, or was left behind by a call that
  raised (the list \<open>L\<close>: the message could not be encoded once the connection was acquired), and never two of
  these; a peer has at most \<open>max_per_peer\<close> idle connections; and no request is answered twice or
  still in flight once answered (the tickets in flight and answered are pairwise different).
\<close>

theorem mux_reachable_accounting:
  assumes "net_laws net" and "n_open net n0 = {}" and "mux_reachable net dumps loads mx n0 L (p, n)"
  shows "n_open net n \<subseteq> fst ` set (mx_inflight p) \<union> (\<Union>a. set (q_of (mx_idle p) a)) \<union> set L
    \<and> (\<forall>a. (fst ` set (mx_inflight p) \<union> set L) \<inter> set (q_of (mx_idle p) a) = {}
         \<and> distinct (q_of (mx_idle p) a) \<and> length (q_of (mx_idle p) a) \<le> nat mx
         \<and> (\<forall>b. a \<noteq> b \<longrightarrow> set (q_of (mx_idle p) a) \<inter> set (q_of (mx_idle p) b) = {}))
    \<and> fst ` set (mx_inflight p) \<inter> set L = {} \<and> distinct (map fst (mx_inflight p)) \<and> distinct L
    \<and> distinct (mx_tickets p)"
proof -
  have inv: "mx_inv net mx (set L) (p, n)" and L: "distinct L" using mux_reachable_inv [OF assms] by auto
  then have pool: "pool_inv net (Some (nat mx)) (q_of (mx_idle p)) (fst ` set (mx_inflight p) \<union> set L) n"
    by (simp add: mx_inv_def)
  have "(fst ` set (mx_inflight p) \<union> set L) \<inter> set (q_of (mx_idle p) a) = {}" for a
    using pool_inv_queue [OF pool, of a] by blast
  then show ?thesis using inv L pool pool_inv_queue [OF pool] by (auto simp: mx_inv_def pool_inv_def fits_def)
qed

text \<open>One request is sent and its socket registered.\<close>

definition mux_demo :: "MuxPool \<times> nat \<times> nat list" where
  "mux_demo = (mx_wake ((mx_init 4)\<lparr>mx_reg := [(1, new_inflight 0 ''a:1'')], mx_next := 1\<rparr>), (1, [1]))"

lemma mux_demo_reachable: "mux_reachable silent_net toy_dumps toy_loads 4 (0, []) [] mux_demo"
proof -
  let ?p = "(mx_init 4)\<lparr>mx_reg := [(1, new_inflight 0 ''a:1'')], mx_next := 1\<rparr>"
  have addr: "peer_address ''a'' 1 = ''a:1''" by code_simp
  have "mx_submit silent_net toy_dumps ''a'' 1 (message PING PNone) (mx_init 4, (0, []))
      = (Inr (Some 0), ?p, (1, [1]))"
    by (simp add: mx_submit_unfold mx_acquire_def demo_net_def toy_sends mx_init_def addr)
  then have "mux_step silent_net toy_dumps toy_loads (mx_init 4, (0, [])) (?p, (1, [1]))"
    by (rule mux_step.Submit)
  then show ?thesis unfolding mux_demo_def
    using mux_reachable.init mux_reachable.step mux_step.Wake by metis
qed

text \<open>A second call then raises: the connection it has opened, 2, is in \<open>L\<close>.\<close>

lemma mux_reachable_accounting_witness:
  "\<exists>w. mux_reachable silent_net toy_dumps toy_loads 4 (0, []) [2] w \<and> n_open silent_net (snd w) = {1, 2}
   \<and> n_open silent_net (snd w) \<subseteq> fst ` set (mx_inflight (fst w)) \<union> (\<Union>a. set (q_of (mx_idle (fst w)) a)) \<union> {2}
   \<and> distinct (mx_tickets (fst w))"
proof -
  let ?w = "(fst mux_demo, (2::nat, [2::nat, 1]))"
  have "mux_reachable silent_net toy_dumps toy_loads 4 (0, []) [2] ?w"
    by (rule mux_reachable.raised [OF mux_demo_reachable, of TypeError "''b''" 1])
      (simp_all add: mx_submit_encoded_def mx_acquire_def demo_net_def mux_demo_def mx_wake_def mx_init_def q_of_def)
  from mux_reachable_accounting [OF demo_net_laws(1,3) this] this show ?thesis
    by (intro exI [of _ ?w]) (simp add: demo_net_def insert_commute)
qed

lemma mux_reader_equals_blocking_witness:
  "mx_reads toy_loads (new_inflight 0 ''a:1'')
      [Data [0, 0], Fault BlockingIOError, Data [0, 2, 9], Fault BlockingIOError, Data [9]]
   = delivered (fst (recv_message toy_loads [Data [0, 0], Data [0, 2, 9], Data [9]]))"
  using mux_reader_equals_blocking [of toy_loads 0 "''a:1''"
      "[Data [0, 0], Fault BlockingIOError, Data [0, 2, 9], Fault BlockingIOError, Data [9]]"]
  by (simp add: toy_loads_def ready_only_def)

text \<open>
  The idle deque hands out the connection that was returned first, not the one used last: with
  \<open>_return\<close> at the left end and \<open>_acquire\<close> at the right end, a connection just returned to a
  deque that holds others is the last to be used again.
\<close>

theorem mux_pool_is_fifo:
  assumes "q_of (mx_idle p) (peer_address h pt) = newer @ [oldest]"
    and "int (length (newer @ [oldest])) < mx_max p"
    and "mx_return net (peer_address h pt) sock (p, n) = w1" and "mx_acquire net h pt w1 = (r, p2, n2)"
  shows "r = Some oldest \<and> q_of (mx_idle p2) (peer_address h pt) = sock # newer"
  using assms by (auto simp: mx_return_def mx_acquire_def Let_def butlast_append)

lemma mux_pool_is_fifo_witness:
  "fst (mx_acquire silent_net ''a'' 1 (mx_return silent_net (peer_address ''a'' 1) 7
      ((mx_init 4)\<lparr>mx_idle := [(peer_address ''a'' 1, [3])]\<rparr>, (9, [3, 7])))) = Some 3"
proof -
  let ?w = "mx_return silent_net (peer_address ''a'' 1) 7
      ((mx_init 4)\<lparr>mx_idle := [(peer_address ''a'' 1, [3])]\<rparr>, (9, [3, 7]))"
  obtain r p2 n2 where "mx_acquire silent_net ''a'' 1 ?w = (r, p2, n2)" by (metis prod_cases3)
  with mux_pool_is_fifo [OF _ _ refl this, of "[]" 3] show ?thesis
    by (simp add: q_of_def mx_init_def)
qed

text \<open>
  A pooled connection that the peer has closed costs the caller its answer: the bytes are sent
  without an error, the selector thread reads the end of the stream, and the call ends with \<open>None\<close>
  and no retry, where the other pools would have opened a fresh connection.
\<close>

theorem mux_stale_connection:
  assumes "q_of (mx_idle p) (peer_address h pt) = q @ [s]" and "send_message dumps msg = Inr bs"
    and "n_sendall net s bs n = (Inr (), n1)" and "n_incoming net s n1 = []"
    and "mx_submit net dumps h pt msg (p, n) = (r, p1, n2)" and "mx_reg p = []" and "s \<notin> fst ` set (mx_sel p)"
  shows "r = Inr (Some (mx_next p))
    \<and> (\<exists>inflight. map_of (mx_sel (mx_wake p1)) s = Some inflight
        \<and> (let w3 = mx_handle_read net loads s inflight (mx_wake p1, n2)
           in map_of (mx_done (fst w3)) (mx_next p) = Some None \<and> mx_result (mx_next p) (fst w3) = None))"
proof -
  let ?i = "new_inflight (mx_next p) (peer_address h pt)"
  have sub: "r = Inr (Some (mx_next p))" "n2 = n1"
      "p1 = p\<lparr>mx_idle := AList.update (peer_address h pt) q (mx_idle p), mx_reg := [(s, ?i)],
               mx_next := Suc (mx_next p)\<rparr>"
    using assms(1-3,5,6) by (auto simp: mx_submit_unfold mx_acquire_def Let_def butlast_append)
  have "map_of (mx_sel (mx_wake p1)) s = Some ?i"
    using assms(7) by (simp add: sub mx_wake_def map_add_Some_iff map_of_eq_None_iff)
  moreover have "map_of (mx_done (fst (mx_handle_read net loads s ?i (mx_wake p1, n2)))) (mx_next p) = Some None"
    using assms(4) by (simp add: sub mx_handle_read_def mx_feed_def mx_fail_def mx_set_event_def new_inflight_def)
  ultimately show ?thesis using sub(1) by (auto simp: mx_result_def Let_def)
qed

text \<open>Connection 0 is pooled and its peer has gone, although every fresh connection is answered.\<close>

lemma mux_stale_connection_witness:
  "let net = demo_net [Data [0, 0, 0, 2, 9, 9]] [];
       (r, p1, n2) = mx_submit net toy_dumps ''a'' 1 (message PING PNone)
         ((mx_init 4)\<lparr>mx_idle := [(peer_address ''a'' 1, [0])]\<rparr>, (1, [0]))
   in fresh_serves net ''a'' 1 [0, 0, 0, 1, 7] (\<lambda>st. prefix [0, 0, 0, 2, 9, 9] (avail st))
      \<and> (\<exists>inflight. map_of (mx_sel (mx_wake p1)) 0 = Some inflight
           \<and> mx_result 0 (fst (mx_handle_read net toy_loads 0 inflight (mx_wake p1, n2))) = None)"
proof -
  let ?net = "demo_net [Data [0, 0, 0, 2, 9, 9]] []"
  let ?p = "(mx_init 4)\<lparr>mx_idle := [(peer_address ''a'' 1, [0])]\<rparr>"
  obtain r p1 n2 where sub: "mx_submit ?net toy_dumps ''a'' 1 (message PING PNone) (?p, (1, [0])) = (r, p1, n2)"
    by (metis prod_cases3)
  have serves: "fresh_serves ?net ''a'' 1 [0, 0, 0, 1, 7] (\<lambda>st. prefix [0, 0, 0, 2, 9, 9] (avail st))"
    by (rule demo_net_serves) simp
  from mux_stale_connection [OF _ toy_sends(1) _ _ sub, of "[]" 0 "(1, [0])" toy_loads] serves sub
  show ?thesis by (auto simp: Let_def q_of_def mx_init_def demo_net_def)
qed

text \<open>
  A request too large for the length prefix raises out of \<open>execute\<close> after the connection was
  acquired and outside every \<open>try\<close>: the connection stays open, and it is neither idle nor in
  flight any more.
\<close>

theorem mux_oversize_leaks:
  assumes "mx_inv net mx {} (p, n)" and "q_of (mx_idle p) (peer_address h pt) = q @ [s]"
    and "2 ^ 32 \<le> length (dumps msg)" and "s \<in> n_open net n"
    and "mx_submit net dumps h pt msg (p, n) = (r, p1, n1)"
  shows "r = Inl OverflowError \<and> s \<in> n_open net n1
    \<and> s \<notin> fst ` set (mx_inflight p1) \<and> (\<forall>a. s \<notin> set (q_of (mx_idle p1) a))"
proof -
  have big: "send_message dumps msg = Inl OverflowError"
    using assms(3) by (simp add: send_message_def to_bytes_big_def HEADER_SIZE_def Let_def)
  obtain a p' n' where acq: "mx_acquire net h pt (p, n) = (a, p', n')" by (metis prod_cases3)
  have a: "a = Some s" "n' = n" using acq assms(2) by (auto simp: mx_acquire_def Let_def)
  then have inv: "mx_inv net mx {s} (p', n')" using mx_acquire_inv [OF assms(1) acq] by simp
  have eq: "r = Inl OverflowError" "p1 = p'" "n1 = n'" using assms(5) acq a big by (auto simp: mx_submit_unfold)
  have "pool_inv net (Some (nat mx)) (q_of (mx_idle p')) (fst ` set (mx_inflight p') \<union> {s}) n'"
    using inv by (simp add: mx_inv_def)
  from pool_inv_queue [OF this] show ?thesis using inv assms(4) a(2) by (auto simp: eq mx_inv_def)
qed

lemma mux_oversize_leaks_witness:
  "snd (mx_submit silent_net (\<lambda>m. replicate (2 ^ 32) 0) ''a'' 1 (message PING PNone)
      ((mx_init 4)\<lparr>mx_idle := [(peer_address ''a'' 1, [0])]\<rparr>, (1, [0])))
   = ((mx_init 4)\<lparr>mx_idle := [(peer_address ''a'' 1, [])]\<rparr>, (1, [0]))
   \<and> (\<forall>a. 0 \<notin> set (q_of [(peer_address ''a'' 1, [])] a)) \<and> 0 \<in> n_open silent_net (1, [0])"
proof -
  let ?p = "(mx_init 4)\<lparr>mx_idle := [(peer_address ''a'' 1, [0])]\<rparr>"
  obtain r p1 n1 where sub: "mx_submit silent_net (\<lambda>m. replicate (2 ^ 32) 0) ''a'' 1 (message PING PNone)
      (?p, (1, [0])) = (r, p1, n1)"
    by (metis prod_cases3)
  have inv: "mx_inv silent_net 4 {} (?p, (1, [0]))"
    using demo_net_laws(1) [of "[]" "[]"]
    by (auto simp: mx_inv_def mx_init_def mx_inflight_def mx_tickets_def pool_inv_def fits_def q_of_def wf_dict_def
        demo_net_def split: if_splits)
  have acq: "mx_acquire silent_net ''a'' 1 (?p, (1, [0]))
      = (Some 0, (mx_init 4)\<lparr>mx_idle := [(peer_address ''a'' 1, [])]\<rparr>, (1, [0]))"
    by (simp add: mx_acquire_def q_of_def mx_init_def)
  have big: "send_message (\<lambda>m. replicate (2 ^ 32) 0) (message PING PNone) = Inl OverflowError"
    by (simp add: send_message_def to_bytes_big_def HEADER_SIZE_def Let_def)
  have "mx_submit silent_net (\<lambda>m. replicate (2 ^ 32) 0) ''a'' 1 (message PING PNone) (?p, (1, [0]))
      = (Inl OverflowError, (mx_init 4)\<lparr>mx_idle := [(peer_address ''a'' 1, [])]\<rparr>, (1, [0]))"
    by (simp only: mx_submit_unfold acq big prod.case option.case sum.case)
  then have eq: "p1 = (mx_init 4)\<lparr>mx_idle := [(peer_address ''a'' 1, [])]\<rparr>" "n1 = (1, [0])"
    using sub by simp_all
  have q: "q_of (mx_idle ?p) (peer_address ''a'' 1) = [] @ [0]" by (simp add: q_of_def mx_init_def)
  have opened: "0 \<in> n_open silent_net (1, [0])" by (simp add: demo_net_def)
  from mux_oversize_leaks [OF inv q _ opened sub] sub show ?thesis
    by (simp add: eq mx_init_def)
qed

text \<open>
  \<open>close_all\<close> closes every idle connection and lets every registered caller go on with
  \<open>None\<close>; the connections of the requests in flight and of calls that have raised are the only ones that may stay open.
\<close>

theorem mux_close_all_waiters:
  assumes "mux_reachable net dumps loads mx n0 L (p, n)" and "net_laws net" and "n_open net n0 = {}"
    and "mx_close_all net (p, n) = (p1, n1)"
  shows "mx_idle p1 = [] \<and> n_open net n1 \<subseteq> fst ` set (mx_inflight p) \<union> set L
    \<and> (\<forall>(s, inflight) \<in> set (mx_sel p). mx_result (if_ticket inflight) p1 = None
         \<and> if_ticket inflight \<in> fst ` set (mx_done p1))"
proof -
  have inv: "mx_inv net mx (set L) (p, n)" using mux_reachable_inv [OF assms(2,3,1)] by simp
  then have pool: "pool_inv net (Some (nat mx)) (q_of (mx_idle p)) (fst ` set (mx_inflight p) \<union> set L) n"
    and wf: "wf_dict (mx_idle p)"
    by (simp_all add: mx_inv_def)
  have drain: "pool_inv net cap f (\<Union>(set ` set qs) \<union> H) n \<Longrightarrow> pool_inv net cap f H (fold (mx_close_list net) qs n)"
    for cap f qs H n
  proof (induction qs arbitrary: n)
    case (Cons q qs)
    then show ?case using mx_close_list_inv [of net cap f q "\<Union>(set ` set qs) \<union> H" n] by (simp add: Un_assoc)
  qed simp
  have "pool_inv net (Some (nat mx)) (\<lambda>a. []) (\<Union>(set ` set (map snd (mx_idle p))) \<union> (fst ` set (mx_inflight p) \<union> set L)) n"
    unfolding queues_union [OF wf] using pool_inv_give_up [OF pool] .
  from drain [OF this] have opened: "n_open net n1 \<subseteq> fst ` set (mx_inflight p) \<union> set L"
    using assms(4) by (simp add: mx_close_defs pool_inv_def split: prod.splits)
  have p1: "mx_idle p1 = []" "mx_done p1 = map (\<lambda>(s, i). (if_ticket i, None)) (mx_sel p) @ mx_done p"
    using assms(4) by (auto simp: mx_close_defs)
  have "mx_result (if_ticket i) p1 = None \<and> if_ticket i \<in> fst ` set (mx_done p1)" if "(s, i) \<in> set (mx_sel p)" for s i
  proof -
    have mem: "if_ticket i \<in> fst ` set (map (\<lambda>(s, i). (if_ticket i, None :: Message option)) (mx_sel p))"
      using that by force
    have "map_of (map (\<lambda>(s, i). (if_ticket i, None :: Message option)) xs) t \<in> {None, Some None}" for xs t
      by (induction xs) auto
    with mem have "map_of (map (\<lambda>(s, i). (if_ticket i, None :: Message option)) (mx_sel p)) (if_ticket i) = Some None"
      by (metis insertE map_of_eq_None_iff singletonD)
    then show ?thesis using mem unfolding mx_result_def p1 by (simp add: map_add_Some_iff image_Un)
  qed
  then show ?thesis using p1(1) opened by auto
qed

lemma mux_close_all_waiters_witness:
  "mx_result 0 (fst (mx_close_all silent_net mux_demo)) = None
   \<and> 0 \<in> fst ` set (mx_done (fst (mx_close_all silent_net mux_demo)))
   \<and> n_open silent_net (snd (mx_close_all silent_net mux_demo)) \<subseteq> {1}"
proof -
  obtain p1 n1 where c: "mx_close_all silent_net mux_demo = (p1, n1)"
    by (cases "mx_close_all silent_net mux_demo") blast
  have r: "mux_reachable silent_net toy_dumps toy_loads 4 (0, []) [] (fst mux_demo, snd mux_demo)"
    using mux_demo_reachable by simp
  from mux_close_all_waiters [OF r demo_net_laws(1,3), of p1 n1] c show ?thesis
    by (simp add: mux_demo_def mx_wake_def mx_init_def mx_inflight_def new_inflight_def)
qed

end
