(* ===== verification/Mux_Liveness.thy ===== *)
theory Mux_Liveness
  imports Mux_Pool
begin

text \<open>
  What becomes of one request of the selector pool. The selector thread handles read events of a
  registered socket until it is no longer registered; the number of events this takes is bounded by what the
  socket receives, and the caller's event is set with the message the blocking reader would have returned.
\<close>

text \<open>The first \<open>k\<close> read events of socket \<open>s\<close>, as far as it is registered.\<close>

fun mx_serve :: "('n, rx list) net_ops \<Rightarrow> (byte list \<Rightarrow> Message res) \<Rightarrow> nat \<Rightarrow> nat \<Rightarrow> MuxPool \<times> 'n \<Rightarrow> MuxPool \<times> 'n" where
  "mx_serve net loads s 0 w = w"
| "mx_serve net loads s (Suc k) w =
     (case map_of (mx_sel (fst w)) s of
        None \<Rightarrow> w
      | Some inflight \<Rightarrow> mx_serve net loads s k (mx_handle_read net loads s inflight w))"

lemma mx_serve_idle: "map_of (mx_sel (fst w)) s = None \<Longrightarrow> mx_serve net loads s k w = w"
  by (cases k) auto

lemma mx_feed_keep_chunk: "mx_feed loads inflight r = MxKeep inflight' \<Longrightarrow> r \<noteq> Inr []"
  by (auto simp: mx_feed_def)

lemma mx_finish:
  "mx_fail net s inflight (p, n) = (p', n') \<Longrightarrow>
     map_of (mx_sel p') s = None \<and> map_of (mx_done p') (if_ticket inflight) = Some None
     \<and> (\<forall>s'. s' \<noteq> s \<longrightarrow> map_of (mx_sel p') s' = map_of (mx_sel p) s') \<and> n' = snd (n_close net s n)"
  "mx_return net a s (mx_unregister s p, n) = (p', n') \<Longrightarrow>
     map_of (mx_sel (mx_set_event inflight (Some msg) p')) s = None
     \<and> map_of (mx_done (mx_set_event inflight (Some msg) p')) (if_ticket inflight) = Some (Some msg)
     \<and> (\<forall>s'. s' \<noteq> s \<longrightarrow> map_of (mx_sel (mx_set_event inflight (Some msg) p')) s' = map_of (mx_sel p) s')"
  by (auto simp: mx_fail_def mx_unregister_def mx_set_event_def mx_return_def dict_simps Let_def split: if_splits)

lemma mx_serve_reads:
  assumes "net_laws net" and "reads_on net s"
    and "map_of (mx_sel p) s = Some inflight" and "rx_size (n_incoming net s n) < k"
    and "mx_serve net loads s k (p, n) = (p', n')"
    and "mx_reads loads inflight (n_incoming net s n) = r"
  shows "map_of (mx_sel p') s = None \<and> map_of (mx_done p') (if_ticket inflight) = Some r
    \<and> (\<forall>s'. s' \<noteq> s \<longrightarrow> map_of (mx_sel p') s' = map_of (mx_sel p) s') \<and> (r = None \<longrightarrow> s \<notin> n_open net n')"
  using assms(3-)
proof (induction k arbitrary: p n inflight)
  case (Suc k)
  let ?k = "if_expected inflight - length (if_buf inflight)"
  obtain x st' where x: "sock_recv ?k (n_incoming net s n) = (x, st')" by fastforce
  let ?n = "n_advance net s st' n"
  have step: "mx_serve net loads s k (mx_handle_read net loads s inflight (p, n)) = (p', n')"
    using Suc.prems(1,3) by simp
  have reads: "r = (case mx_feed loads inflight x of
      MxKeep inflight' \<Rightarrow> mx_reads loads inflight' st' | MxFail \<Rightarrow> None | MxDeliver msg \<Rightarrow> Some msg)"
    using Suc.prems(4) x by (subst (asm) mx_reads.simps) simp
  show ?case
  proof (cases "mx_feed loads inflight x")
    case (MxKeep inflight')
    have "rx_size st' < k"
      using sock_recv_shrinks [OF x mx_feed_keep_chunk [OF MxKeep]] Suc.prems(2) by simp
    moreover have "mx_handle_read net loads s inflight (p, n) = (p\<lparr>mx_sel := AList.update s inflight' (mx_sel p)\<rparr>, ?n)"
      using x MxKeep by (simp add: mx_handle_read_def)
    moreover have "n_incoming net s ?n = st'" using assms(2) by (simp add: reads_on_def)
    ultimately show ?thesis
      using Suc.IH [of "p\<lparr>mx_sel := AList.update s inflight' (mx_sel p)\<rparr>" inflight' ?n] step reads MxKeep
        mx_feed_ticket [OF MxKeep]
      by (simp add: dict_simps)
  next
    case MxFail
    obtain p1 n1 where w1: "mx_fail net s inflight (p, ?n) = (p1, n1)" by fastforce
    have "mx_handle_read net loads s inflight (p, n) = (p1, n1)"
      using x MxFail w1 by (simp add: mx_handle_read_def)
    then show ?thesis
      using mx_finish(1) [OF w1] step reads MxFail mx_serve_idle [of "(p1, n1)" s net loads k]
        law_close [OF assms(1), of s ?n] by auto
  next
    case (MxDeliver msg)
    obtain p1 n1 where w1: "mx_return net (if_address inflight) s (mx_unregister s p, ?n) = (p1, n1)"
      by fastforce
    have "mx_handle_read net loads s inflight (p, n) = (mx_set_event inflight (Some msg) p1, n1)"
      using x MxDeliver w1 by (simp add: mx_handle_read_def)
    then show ?thesis
      using mx_finish(2) [OF w1, of inflight msg] step reads MxDeliver
        mx_serve_idle [of "(mx_set_event inflight (Some msg) p1, n1)" s net loads k] by auto
  qed
qed simp

text \<open>C18.
  A request that the selector thread has registered completes: after at most one read event more than its
  socket has bytes and errors to deliver (\<open>rx_size\<close>), the socket is no longer registered and the caller's event is set,
  with the message the blocking \<open>recv_message\<close> would have returned on the same stream, or with
  \<open>None\<close> and the socket closed when that one would have raised; the other requests are untouched.
\<close>

theorem mux_request_completes:
  assumes "net_laws net" and "reads_on net s" and "\<exists>e. loads [] = Inl e"
    and "map_of (mx_sel p) s = Some (new_inflight ticket address)"
    and "mx_serve net loads s (Suc (rx_size (n_incoming net s n))) (p, n) = (p', n')"
  shows "let answer = delivered (fst (recv_message loads (ready_only (n_incoming net s n))))
    in map_of (mx_sel p') s = None \<and> ticket \<in> fst ` set (mx_done p') \<and> mx_result ticket p' = answer
      \<and> (answer = None \<longrightarrow> s \<notin> n_open net n')
      \<and> (\<forall>s'. s' \<noteq> s \<longrightarrow> map_of (mx_sel p') s' = map_of (mx_sel p) s')"
proof -
  have "mx_reads loads (new_inflight ticket address) (n_incoming net s n)
      = delivered (fst (recv_message loads (ready_only (n_incoming net s n))))"
    by (rule mx_reads_blocking [where loads = loads, OF assms(3)])
  from mx_serve_reads [where loads = loads, OF assms(1,2,4) lessI assms(5) this] show ?thesis
    by (auto simp: Let_def mx_result_def new_inflight_def dest: map_of_SomeD intro: image_eqI [rotated])
qed

text \<open>A network of one open socket whose reads are recorded, for the witness.\<close>

definition stream_net :: "(nat list \<times> (nat \<Rightarrow> rx list), rx list) net_ops" where
  "stream_net =
     \<lparr>n_connect = (\<lambda>h p n. (Inl OSError, n)),
      n_sendall = (\<lambda>s bs n. (Inr (), n)),
      n_incoming = (\<lambda>s (socks, f). f s),
      n_advance = (\<lambda>s st (socks, f). (socks, f(s := st))),
      n_close = (\<lambda>s (socks, f). (Inr (), removeAll s socks, f)),
      n_closing = (\<lambda>s (socks, f). s \<notin> set socks),
      n_made = (\<lambda>n. UNIV),
      n_open = (\<lambda>(socks, f). set socks)\<rparr>"

lemma stream_net_laws: "net_laws stream_net" "reads_on stream_net s"
  by (auto simp: net_laws_def reads_on_def stream_net_def)

definition served_pool :: MuxPool where
  "served_pool = (mx_init 4)\<lparr>mx_sel := [(1, new_inflight 0 ''a:1'')], mx_next := 1\<rparr>"

definition served_stream :: "rx list" where
  "served_stream = [Data [0, 0], Fault BlockingIOError, Data [0, 1], Data [7]]"

lemma mux_request_completes_witness:
  "mx_result 0 (fst (mx_serve stream_net toy_loads 1 (Suc (rx_size served_stream))
      (served_pool, [1], \<lambda>_. served_stream)))
   = Some (message PING PNone)"
proof -
  have answer: "fst (recv_message toy_loads (ready_only served_stream)) = Inr (message PING PNone)"
    using recv_reply(1) [OF toy_sends(1), where loads = toy_loads and st = "ready_only served_stream"]
    by (simp add: toy_loads_def toy_dumps_def served_stream_def ready_only_def)
  obtain p' n' where w: "mx_serve stream_net toy_loads 1 (Suc (rx_size served_stream))
      (served_pool, [1], \<lambda>_. served_stream) = (p', n')" by (rule prod.exhaust)
  have "n_incoming stream_net 1 ([1], \<lambda>_. served_stream) = served_stream" by (simp add: stream_net_def)
  with mux_request_completes [OF stream_net_laws(1,2), where s = 1 and p = served_pool and ticket = 0 and address = "''a:1''"
      and n = "([1], \<lambda>_. served_stream)" and loads = toy_loads and p' = p' and n' = n'] w
  show ?thesis by (simp add: answer delivered_def served_pool_def toy_loads_def Let_def)
qed

end
