(* ===== verification/Mux_Loop.thy ===== *)
theory Mux_Loop
  imports Mux_Pool
begin

text \<open>
  \<open>_io_loop\<close> of \<open>connection_pool/mux.py\<close> as it is written: while the pool runs, an iteration takes the ready
  sockets \<open>select\<close> returns, one after the other; the wake-up socket registers the queued requests, any other
  is read. \<open>mux_step\<close> has these as separate steps, between which callers run.
\<close>

datatype mx_event = WakeUp | Readable nat

text \<open>A socket that an earlier event of the batch has unregistered cannot occur: each socket is listed once.\<close>

fun mx_events :: "('n, rx list) net_ops \<Rightarrow> (byte list \<Rightarrow> Message res) \<Rightarrow> mx_event list \<Rightarrow> MuxPool \<times> 'n \<Rightarrow> MuxPool \<times> 'n" where
  "mx_events net loads [] w = w"
| "mx_events net loads (WakeUp # es) w = mx_events net loads es (mx_wake (fst w), snd w)"
| "mx_events net loads (Readable s # es) w =
     (case map_of (mx_sel (fst w)) s of
        None \<Rightarrow> mx_events net loads es w
      | Some inflight \<Rightarrow> mx_events net loads es (mx_handle_read net loads s inflight w))"

text \<open>One iteration, or the end of the loop; an exception of \<open>select\<close> is an iteration without events.\<close>

definition mx_iteration :: "('n, rx list) net_ops \<Rightarrow> (byte list \<Rightarrow> Message res) \<Rightarrow> mx_event list \<Rightarrow> MuxPool \<times> 'n \<Rightarrow> MuxPool \<times> 'n" where
  "mx_iteration net loads es w =
     (if mx_running (fst w) then mx_events net loads es w else (mx_end_loop (fst w), snd w))"

lemma mx_events_steps: "(mux_step net dumps loads)\<^sup>*\<^sup>* w (mx_events net loads es w)"
proof (induction es arbitrary: w)
  case (Cons e es)
  obtain p n where w: "w = (p, n)" by fastforce
  show ?case
  proof (cases e)
    case WakeUp
    have "mux_step net dumps loads w (mx_wake p, n)" unfolding w by (rule mux_step.Wake)
    from converse_rtranclp_into_rtranclp [OF this Cons.IH] show ?thesis unfolding WakeUp w by simp
  next
    case (Readable s)
    show ?thesis
    proof (cases "map_of (mx_sel p) s")
      case None
      then show ?thesis using Cons.IH [of w] Readable w by simp
    next
      case (Some inflight)
      then have "mux_step net dumps loads w (mx_handle_read net loads s inflight w)" unfolding w by (rule mux_step.Read)
      from converse_rtranclp_into_rtranclp [OF this Cons.IH] show ?thesis using Some w Readable by simp
    qed
  qed
qed simp

lemma mux_reachable_runs:
  "(mux_step net dumps loads)\<^sup>*\<^sup>* w w' \<Longrightarrow> mux_reachable net dumps loads mx n0 L w \<Longrightarrow> mux_reachable net dumps loads mx n0 L w'"
  by (induction rule: rtranclp_induct) (auto intro: mux_reachable.step)

text \<open>An event leaves the requests of other sockets as they are, and the wake-up only adds some.\<close>

lemma mx_handle_read_others:
  "s' \<noteq> s \<Longrightarrow> map_of (mx_sel (fst (mx_handle_read net loads s inflight (p, n)))) s' = map_of (mx_sel p) s'"
  by (auto simp: mx_handle_read_def mx_fail_def mx_return_def mx_unregister_def mx_set_event_def dict_simps Let_def
      split: prod.splits mx_step.splits)

lemma mx_events_others:
  "Readable s \<notin> set es \<Longrightarrow> map_of (mx_sel (fst w)) s = Some inflight \<Longrightarrow>
     map_of (mx_sel (fst (mx_events net loads es w))) s = Some inflight"
proof (induction es arbitrary: w)
  case (Cons e es)
  obtain p n where w: "w = (p, n)" by fastforce
  show ?case
  proof (cases e)
    case WakeUp
    then show ?thesis using Cons.prems Cons.IH [of "(mx_wake p, n)"] by (simp add: w mx_wake_def map_add_Some_iff)
  next
    case (Readable s')
    then show ?thesis
      using Cons.prems Cons.IH mx_handle_read_others [of s s' net loads _ p n]
      by (cases "map_of (mx_sel p) s'") (auto simp: w)
  qed
qed simp

text \<open>
  Every iteration of the selector thread's loop, whatever sockets \<open>select\<close> reports, is a run of the pool's
  step relation, so the accounting of every interleaving covers the loop as written; a registered request
  whose socket is not reported is untouched; and once the pool is closed the loop ends with no socket
  registered and every waiting caller let go.
\<close>

theorem mux_loop_iteration:
  assumes "mux_reachable net dumps loads mx n0 L w"
  shows "(mx_running (fst w) \<longrightarrow> mux_reachable net dumps loads mx n0 L (mx_iteration net loads es w)
      \<and> (\<forall>s inflight. Readable s \<notin> set es \<longrightarrow> map_of (mx_sel (fst w)) s = Some inflight \<longrightarrow>
           map_of (mx_sel (fst (mx_iteration net loads es w))) s = Some inflight))
    \<and> (\<not> mx_running (fst w) \<longrightarrow> mx_sel (fst (mx_iteration net loads es w)) = []
      \<and> (\<forall>s inflight. (s, inflight) \<in> set (mx_sel (fst w)) \<longrightarrow>
           if_ticket inflight \<in> fst ` set (mx_done (fst (mx_iteration net loads es w)))))"
proof (cases "mx_running (fst w)")
  case True
  then show ?thesis
    using mux_reachable_runs [OF mx_events_steps assms] mx_events_others [where w = w] by (simp add: mx_iteration_def)
next
  case False
  have "if_ticket inflight \<in> fst ` (\<lambda>(s, inflight). (if_ticket inflight, None :: Message option)) ` set (mx_sel (fst w))"
    if "(s, inflight) \<in> set (mx_sel (fst w))" for s inflight
    using imageI [OF imageI [OF that, of "\<lambda>(s, inflight). (if_ticket inflight, None :: Message option)"], of fst] by simp
  then show ?thesis using False by (simp add: mx_iteration_def image_Un)
qed

lemma mux_loop_iteration_witness:
  "mx_running (fst mux_demo)
   \<and> mux_reachable silent_net toy_dumps toy_loads 4 (0, []) [] (mx_iteration silent_net toy_loads [WakeUp, Readable 1] mux_demo)"
proof -
  have "mx_running (fst mux_demo)" by (simp add: mux_demo_def mx_wake_def mx_init_def)
  then show ?thesis using mux_loop_iteration [OF mux_demo_reachable, of "[WakeUp, Readable 1]"] by blast
qed

end
