(* ===== verification/Mux_Shutdown.thy ===== *)
theory Mux_Shutdown
  imports Mux_Loop
begin

text \<open>
  The selector pool while \<open>close_all\<close> runs and after it, with the selector thread as it is written: it tests
  the flag \<open>_running\<close>, works off a batch of events, and tests again; when the flag is cleared it sets the
  events of the registered sockets and ends. The object stays usable after \<open>close_all\<close>: \<open>execute\<close> still opens
  connections, sends, queues its socket and waits, but no thread reads the queue. This concerns a pool that
  several users share, as the nodes of one process do that take the default argument of \<open>StorageNode\<close>: the
  first \<open>stop\<close> closes it.
\<close>

text \<open>The selector thread is before \<open>while self._running\<close>, in the body of the loop, or at its end.\<close>

datatype sel_pc = LoopTest | LoopBody | LoopEnded

definition mx_loop_test :: "MuxPool \<times> 'n \<Rightarrow> sel_pc \<times> MuxPool \<times> 'n" where
  "mx_loop_test w =
     (if mx_running (fst w) then (LoopBody, w) else (LoopEnded, mx_end_loop (fst w), snd w))"

text \<open>
  Callers, peer drops and the network go on whatever the selector thread does. \<open>close_all\<close> clears the
  flag, and closes the idle connections after the join, which waits two seconds at most.
\<close>

inductive mux_thread :: "('n, rx list) net_ops \<Rightarrow> (byte list \<Rightarrow> Message res)
    \<Rightarrow> sel_pc \<times> MuxPool \<times> 'n \<Rightarrow> sel_pc \<times> MuxPool \<times> 'n \<Rightarrow> bool" for net loads where
  Test: "mux_thread net loads (LoopTest, w) (mx_loop_test w)"
| Event: "mux_thread net loads (LoopBody, w) (LoopBody, mx_events net loads [e] w)"
| Again: "mux_thread net loads (LoopBody, w) (LoopTest, w)"
| Submit: "mx_submit_encoded net encoded h pt w = (r, w') \<Longrightarrow> mux_thread net loads (pc, w) (pc, w')"
| Drop: "mux_thread net loads (pc, w) (pc, mx_close_peer net h pt w)"
| Flag: "mux_thread net loads (pc, p, n) (pc, mx_stop_flag p, n)"
| Idle: "\<not> mx_running p \<Longrightarrow> mux_thread net loads (pc, p, n) (pc, mx_close_idle net (p, n))"
| Net: "mux_thread net loads (pc, p, n) (pc, p, n')"

abbreviation mux_threads where
  "mux_threads net loads \<equiv> (mux_thread net loads)\<^sup>*\<^sup>*"

text \<open>The three parts of \<open>close_all\<close>, with nothing between them.\<close>

lemma mux_close_all_threads:
  "mux_threads net loads (LoopTest, p, n) (LoopEnded, mx_close_all net (p, n))"
proof -
  have "mux_thread net loads (LoopTest, mx_stop_flag p, n) (mx_loop_test (mx_stop_flag p, n))"
    by (rule mux_thread.Test)
  then have test: "mux_thread net loads (LoopTest, mx_stop_flag p, n) (LoopEnded, mx_end_loop (mx_stop_flag p), n)"
    by (simp add: mx_loop_test_def mx_stop_flag_def)
  have idle: "mux_thread net loads (LoopEnded, mx_end_loop (mx_stop_flag p), n) (LoopEnded, mx_close_all net (p, n))"
    using mux_thread.Idle [of "mx_end_loop (mx_stop_flag p)" net loads LoopEnded n]
    by (simp add: mx_close_all_def mx_stop_flag_def)
  show ?thesis
    using mux_thread.Flag [of net loads LoopTest p n] test idle by (meson converse_rtranclp_into_rtranclp rtranclp.rtrancl_refl)
qed

section \<open>What a step keeps\<close>

lemma mx_submit_frame:
  assumes "mx_submit_encoded net encoded h pt (p, n) = (r, p', n')"
  obtains d where "p' = p\<lparr>mx_idle := d\<rparr>" and "\<forall>t. r \<noteq> Inr (Some t)"
  | d s where "p' = p\<lparr>mx_idle := d, mx_reg := mx_reg p @ [(s, new_inflight (mx_next p) (peer_address h pt))],
      mx_next := Suc (mx_next p)\<rparr>" and "r = Inr (Some (mx_next p))"
proof -
  obtain a p1 n1 where a: "mx_acquire net h pt (p, n) = (a, p1, n1)" by (metis prod_cases3)
  then have "p1 = p\<lparr>mx_idle := mx_idle p1\<rparr>"
    by (auto simp: mx_acquire_def Let_def split: if_splits sum.splits prod.splits)
  then obtain d where d: "p1 = p\<lparr>mx_idle := d\<rparr>" ..
  show thesis
    using assms a d that by (auto simp: mx_submit_encoded_def split: option.splits sum.splits prod.splits)
qed

text \<open>The tickets of a pool are those it has given out.\<close>

definition mx_issued :: "MuxPool \<Rightarrow> bool" where
  "mx_issued p \<longleftrightarrow> (\<forall>t \<in> set (mx_tickets p). t < mx_next p)"

lemma set_dict_update: "set (AList.update k v d) \<subseteq> insert (k, v) (set d)"
  by (induction d) auto

lemma set_dict_delete: "set (AList.delete k d) \<subseteq> set d"
  by (induction d) auto

lemma mx_tickets_simps:
  "set (mx_tickets p) = (if_ticket \<circ> snd) ` (set (mx_sel p) \<union> set (mx_reg p)) \<union> fst ` set (mx_done p)"
  by (simp add: mx_tickets_def mx_inflight_def image_Un Un_assoc)

lemma mx_issued_iff:
  "mx_issued p \<longleftrightarrow> (\<forall>s i. (s, i) \<in> set (mx_sel p) \<longrightarrow> if_ticket i < mx_next p)
     \<and> (\<forall>s i. (s, i) \<in> set (mx_reg p) \<longrightarrow> if_ticket i < mx_next p) \<and> (\<forall>t \<in> fst ` set (mx_done p). t < mx_next p)"
proof -
  have "(\<forall>t \<in> (if_ticket \<circ> snd) ` set d. t < k) \<longleftrightarrow> (\<forall>s i. (s, i) \<in> set d \<longrightarrow> if_ticket i < k)" for d :: "(nat \<times> InFlight) list" and k
    by (force simp: Ball_def)
  then show ?thesis by (simp only: mx_issued_def mx_tickets_simps image_Un ball_Un conj_assoc)
qed

lemma mx_handle_read_tickets:
  assumes "map_of (mx_sel p) s = Some inflight" and "mx_handle_read net loads s inflight (p, n) = (p', n')"
  shows "set (mx_tickets p') \<subseteq> set (mx_tickets p) \<and> mx_next p' = mx_next p \<and> mx_running p' = mx_running p"
proof -
  have mem: "(s, inflight) \<in> set (mx_sel p)" using assms(1) by (rule map_of_SomeD)
  obtain r st where r: "sock_recv (if_expected inflight - length (if_buf inflight)) (n_incoming net s n) = (r, st)"
    by fastforce
  note del = set_dict_delete [of s "mx_sel p"]
  show ?thesis
  proof (cases "mx_feed loads inflight r")
    case (MxKeep inflight')
    then have p': "p' = p\<lparr>mx_sel := AList.update s inflight' (mx_sel p)\<rparr>"
      using assms(2) r by (simp add: mx_handle_read_def)
    have "if_ticket inflight' \<in> (if_ticket \<circ> snd) ` set (mx_sel p)"
      using mem mx_feed_ticket [OF MxKeep] by force
    then have "(if_ticket \<circ> snd) ` set (AList.update s inflight' (mx_sel p)) \<subseteq> (if_ticket \<circ> snd) ` set (mx_sel p)"
      using image_mono [OF set_dict_update [of s inflight' "mx_sel p"], of "if_ticket \<circ> snd"] by (simp add: insert_absorb)
    then show ?thesis unfolding mx_tickets_simps image_Un p' by auto
  next
    case MxFail
    then have "p' = mx_set_event inflight None (mx_unregister s p)"
      using assms(2) r by (simp add: mx_handle_read_def mx_fail_def)
    then show ?thesis using mem del unfolding mx_tickets_simps
      by (force simp: mx_set_event_def mx_unregister_def)
  next
    case (MxDeliver msg)
    then have "p' = (mx_set_event inflight (Some msg) (mx_unregister s p))\<lparr>mx_idle := mx_idle p'\<rparr>"
      using assms(2) r by (auto simp: mx_handle_read_def mx_return_def mx_set_event_def mx_unregister_def Let_def split: if_splits)
    then obtain d where "p' = (mx_set_event inflight (Some msg) (mx_unregister s p))\<lparr>mx_idle := d\<rparr>" ..
    then show ?thesis using mem del unfolding mx_tickets_simps
      by (force simp: mx_set_event_def mx_unregister_def)
  qed
qed

lemma mx_event_tickets:
  "mx_events net loads [e] (p, n) = (p', n') \<Longrightarrow>
     set (mx_tickets p') \<subseteq> set (mx_tickets p) \<and> mx_next p' = mx_next p \<and> mx_running p' = mx_running p"
proof (cases e)
  case WakeUp
  then show "mx_events net loads [e] (p, n) = (p', n') \<Longrightarrow> ?thesis" by (auto simp: mx_tickets_simps mx_wake_def)
next
  case (Readable s)
  then show "mx_events net loads [e] (p, n) = (p', n') \<Longrightarrow> ?thesis"
    using mx_handle_read_tickets [where net = net and loads = loads and p = p and n = n and p' = p' and n' = n' and s = s]
    by (cases "map_of (mx_sel p) s") auto
qed

lemma mx_end_loop_tickets: "set (mx_tickets (mx_end_loop p)) = set (mx_tickets p)"
  by (auto simp: mx_tickets_simps image_Un image_image case_prod_beta)

lemma mux_thread_issued:
  "mux_thread net loads c c' \<Longrightarrow> mx_issued (fst (snd c)) \<Longrightarrow> mx_issued (fst (snd c'))"
proof (induction rule: mux_thread.induct)
  case (Test w)
  then show ?case using mx_end_loop_tickets [of "fst w"] by (auto simp: mx_loop_test_def mx_issued_def)
next
  case (Event w e)
  obtain p n p' n' where "w = (p, n)" "mx_events net loads [e] (p, n) = (p', n')" by (metis surj_pair)
  then show ?case using mx_event_tickets Event by (fastforce simp: mx_issued_def)
next
  case (Drop pc w h pt)
  then show ?case by (cases w) (simp add: mx_issued_iff mx_close_peer_def Let_def)
next
  case (Submit encoded h pt w r w' pc)
  then have "mx_submit_encoded net encoded h pt (fst w, snd w) = (r, fst w', snd w')" by simp
  then show ?case
    using Submit by (cases rule: mx_submit_frame) (auto simp: mx_issued_iff new_inflight_def less_Suc_eq)
qed (simp_all add: mx_issued_iff mx_close_idle_def mx_stop_flag_def)

lemma mux_thread_stopped:
  "mux_thread net loads c c' \<Longrightarrow> \<not> mx_running (fst (snd c)) \<Longrightarrow> \<not> mx_running (fst (snd c'))"
proof (induction rule: mux_thread.induct)
  case (Event w e)
  obtain p n p' n' where "w = (p, n)" "mx_events net loads [e] (p, n) = (p', n')" by (metis surj_pair)
  then show ?case using mx_event_tickets Event by fastforce
next
  case (Submit encoded h pt w r w' pc)
  then have "mx_submit_encoded net encoded h pt (fst w, snd w) = (r, fst w', snd w')" by simp
  then show ?case using Submit by (cases rule: mx_submit_frame) simp_all
qed (auto simp: mx_loop_test_def mx_close_peer_def mx_close_idle_def mx_stop_flag_def Let_def split: prod.splits)

lemma mux_threads_keep:
  "mux_threads net loads c c' \<Longrightarrow> mx_issued (fst (snd c)) \<Longrightarrow> mx_issued (fst (snd c'))"
  "mux_threads net loads c c' \<Longrightarrow> \<not> mx_running (fst (snd c)) \<Longrightarrow> \<not> mx_running (fst (snd c'))"
  by (induction rule: rtranclp_induct) (blast dest: mux_thread_issued mux_thread_stopped)+

section \<open>After close_all\<close>

text \<open>The flag is cleared, the thread has left its last batch, and the request of ticket \<open>t\<close> waits in the queue.\<close>

definition mx_waits :: "nat \<Rightarrow> string \<Rightarrow> sel_pc \<times> MuxPool \<times> 'n \<Rightarrow> bool" where
  "mx_waits t a c \<longleftrightarrow> (case c of (pc, p, n) \<Rightarrow>
     \<not> mx_running p \<and> pc \<noteq> LoopBody \<and> t < mx_next p \<and> t \<notin> (if_ticket \<circ> snd) ` set (mx_sel p) \<and> t \<notin> fst ` set (mx_done p)
     \<and> (\<exists>s. (s, new_inflight t a) \<in> set (mx_reg p)))"

lemma mux_thread_waits: "mux_thread net loads c c' \<Longrightarrow> mx_waits t a c \<Longrightarrow> mx_waits t a c'"
proof (induction rule: mux_thread.induct)
  case (Test w)
  then have "t \<notin> fst ` set (mx_done (mx_end_loop (fst w)))"
    by (cases w) (auto simp: mx_waits_def image_Un image_image case_prod_beta)
  then show ?case using Test by (cases w) (auto simp: mx_waits_def mx_loop_test_def)
next
  case (Submit encoded h pt w r w' pc)
  then have "mx_submit_encoded net encoded h pt (fst w, snd w) = (r, fst w', snd w')" by simp
  then show ?case using Submit by (cases rule: mx_submit_frame) (auto simp: mx_waits_def split: prod.splits)
qed (auto simp: mx_waits_def mx_close_peer_def mx_close_idle_def mx_stop_flag_def Let_def split: prod.splits)

lemma mux_threads_waits: "mux_threads net loads c c' \<Longrightarrow> mx_waits t a c \<Longrightarrow> mx_waits t a c'"
  by (induction rule: rtranclp_induct) (blast dest: mux_thread_waits)+

text \<open>C39.
  A request that is sent through a pool on which \<open>close_all\<close> was called, once the selector thread has left the
  batch of events it was in (it has, when its join succeeds), is never answered: whatever the selector
  thread, other callers and the network do afterwards, its event is not set, so that the call waits the full
  five seconds and returns \<open>None\<close> although the request was sent, and its socket stays in the
  registration queue.
\<close>

theorem mux_closed_never_answers:
  assumes "mux_threads net loads (LoopTest, mx_init mx, n0) (pc, p, n)"
    and "mux_threads net loads (pc, mx_stop_flag p, n) (pc1, p1, n1)" and "pc1 \<noteq> LoopBody"
    and "mx_submit net dumps h pt msg (p1, n1) = (Inr (Some t), p2, n2)"
    and "mux_threads net loads (pc1, p2, n2) (pc3, p3, n3)"
  shows "mx_result t p3 = None \<and> t \<notin> fst ` set (mx_done p3) \<and> (\<exists>s. (s, new_inflight t (peer_address h pt)) \<in> set (mx_reg p3))"
proof -
  have "mx_issued (mx_init mx)" by (simp add: mx_issued_def mx_init_def mx_tickets_simps)
  then have "mx_issued p" using mux_threads_keep(1) [OF assms(1)] by simp
  then have "mx_issued (mx_stop_flag p)" by (simp add: mx_issued_def mx_stop_flag_def mx_tickets_simps)
  then have issued: "mx_issued p1" using mux_threads_keep(1) [OF assms(2)] by simp
  have stopped: "\<not> mx_running p1" using mux_threads_keep(2) [OF assms(2)] by (simp add: mx_stop_flag_def)
  have "mx_waits t (peer_address h pt) (pc1, p2, n2)"
    using assms(4) [unfolded mx_submit_def]
  proof (cases rule: mx_submit_frame)
    case (2 d s)
    then show ?thesis using issued stopped assms(3) by (fastforce simp: mx_waits_def mx_issued_iff)
  qed simp
  from mux_threads_waits [OF assms(5) this] show ?thesis
    by (auto simp: mx_waits_def mx_result_def map_of_eq_None_iff [THEN iffD2])
qed

text \<open>The request of ticket 0 is registered when \<open>close_all\<close> runs; the one of ticket 1 comes afterwards.\<close>

lemma mux_demo_threads: "mux_threads silent_net toy_loads (LoopTest, mx_init 4, (0, [])) (LoopTest, mux_demo)"
proof -
  let ?p = "(mx_init 4)\<lparr>mx_reg := [(1, new_inflight 0 ''a:1'')], mx_next := 1\<rparr>"
  have addr: "peer_address ''a'' 1 = ''a:1''" by code_simp
  have "mx_submit_encoded silent_net (send_message toy_dumps (message PING PNone)) ''a'' 1 (mx_init 4, (0, []))
      = (Inr (Some 0), ?p, (1, [1]))"
    by (simp add: mx_submit_encoded_def mx_acquire_def demo_net_def toy_sends mx_init_def addr)
  then have one: "mux_thread silent_net toy_loads (LoopTest, mx_init 4, (0, [])) (LoopTest, ?p, (1, [1]))"
    by (rule mux_thread.Submit)
  have "mux_thread silent_net toy_loads (LoopTest, ?p, (1, [1])) (mx_loop_test (?p, (1, [1])))" by (rule mux_thread.Test)
  then have two: "mux_thread silent_net toy_loads (LoopTest, ?p, (1, [1])) (LoopBody, ?p, (1, [1]))"
    by (simp add: mx_loop_test_def mx_init_def)
  have "mux_thread silent_net toy_loads (LoopBody, ?p, (1, [1])) (LoopBody, mx_events silent_net toy_loads [WakeUp] (?p, (1, [1])))"
    by (rule mux_thread.Event)
  then have three: "mux_thread silent_net toy_loads (LoopBody, ?p, (1, [1])) (LoopBody, mux_demo)"
    by (simp add: mux_demo_def)
  show ?thesis
    using one two three mux_thread.Again [of silent_net toy_loads mux_demo]
    by (meson converse_rtranclp_into_rtranclp rtranclp.rtrancl_refl)
qed

lemma mux_closed_never_answers_witness:
  "\<exists>w. mx_submit silent_net toy_dumps ''a'' 1 (message PING PNone) (mx_close_all silent_net mux_demo) = (Inr (Some 1), w)
    \<and> mx_result 1 (fst w) = None \<and> 1 \<notin> fst ` set (mx_done (fst w))"
proof -
  have closed: "mx_close_all silent_net mux_demo = ((mx_init 4)\<lparr>mx_running := False, mx_done := [(0, None)], mx_next := 1\<rparr>, (1, [1]))"
    by (simp add: mx_close_defs mux_demo_def mx_wake_def mx_init_def new_inflight_def)
  obtain p2 n2 where w: "mx_submit silent_net toy_dumps ''a'' 1 (message PING PNone) (mx_close_all silent_net mux_demo)
      = (Inr (Some 1), p2, n2)"
    unfolding closed by (simp add: mx_submit_unfold mx_acquire_def demo_net_def toy_sends mx_init_def q_of_def)
  have r: "mux_threads silent_net toy_loads (LoopTest, mx_init 4, (0, [])) (LoopTest, fst mux_demo, snd mux_demo)"
    using mux_demo_threads by simp
  have "mux_threads silent_net toy_loads (LoopTest, mx_stop_flag (fst mux_demo), snd mux_demo)
      (LoopEnded, fst (mx_close_all silent_net mux_demo), snd (mx_close_all silent_net mux_demo))"
    using mux_close_all_threads [of silent_net toy_loads "mx_stop_flag (fst mux_demo)" "snd mux_demo"]
    by (simp add: mx_close_defs mux_demo_def)
  from mux_closed_never_answers [OF r this sel_pc.distinct(6) _ rtranclp.rtrancl_refl] w show ?thesis
    by fastforce
qed

end
