(* ===== verification/Gossip.thy ===== *)
theory Gossip
  imports Rendezvous Discovery Dispatcher Consistency Pool_Interface
begin

text \<open>
  \<open>dlstorage/peer_comm/gossip.py\<close>: membership. A gossip endpoint shares the node's ring and
  discovery back end; its pool is a \<open>pool_ops\<close> acting on some state \<open>'w\<close>, so every
  lemma holds for each of the three pools and for any network behind them. The random choice of peers
  in a round is an argument.
\<close>

section \<open>State\<close>

record Gossip =
  g_info :: NodeInfo
  g_ring :: RendezvousRing
  g_disc :: DiscoveryState

definition GOSSIP_FANOUT :: nat where
  "GOSSIP_FANOUT = 3"

text \<open>\<open>self._ring.add(n)\<close> with \<open>discovery.add_peer\<close> when it is a \<open>GossipDiscovery\<close>, and the reverse.\<close>

definition gossip_add :: "NodeInfo \<Rightarrow> Gossip \<Rightarrow> Gossip" where
  "gossip_add n g = g\<lparr>g_ring := rr_add n (g_ring g), g_disc := disc_add n (g_disc g)\<rparr>"

definition gossip_remove :: "NodeInfo \<Rightarrow> Gossip \<Rightarrow> Gossip" where
  "gossip_remove n g = g\<lparr>g_ring := rr_remove n (g_ring g), g_disc := disc_remove n (g_disc g)\<rparr>"

definition evict :: "'w pool_ops \<Rightarrow> NodeInfo \<Rightarrow> Gossip \<times> 'w \<Rightarrow> Gossip \<times> 'w" where
  "evict P peer gw =
     (gossip_remove peer (fst gw), p_close_peer P (host peer) (port peer) (snd gw))"

section \<open>Exchanging peer lists\<close>

text \<open>Iterating over a value: the keys of a dictionary, the characters of a string.\<close>

fun py_iter :: "pyval \<Rightarrow> pyval list res" where
  "py_iter (PList xs) = Inr xs"
| "py_iter (PDict d) = Inr (map (PStr \<circ> fst) d)"
| "py_iter (PStr s) = Inr (map (\<lambda>c. PStr [c]) s)"
| "py_iter (PObj n) = Inl OutsideModel"
| "py_iter _ = Inl TypeError"

text \<open>
  The loop over the received list; \<open>known\<close> is taken before it. A malformed entry raises after
  the entries before it were added.
\<close>

fun merge_peers :: "NodeInfo set \<Rightarrow> pyval list \<Rightarrow> Gossip \<Rightarrow> unit res \<times> Gossip" where
  "merge_peers known [] g = (Inr (), g)"
| "merge_peers known (raw # raws) g =
     (case node_from_dict raw of
        Inl e \<Rightarrow> (Inl e, g)
      | Inr n \<Rightarrow>
          merge_peers known raws
            (if n \<noteq> g_info g \<and> n \<notin> known then gossip_add n g else g))"

definition merge_reply :: "Message \<Rightarrow> Gossip \<Rightarrow> unit res \<times> Gossip" where
  "merge_reply resp g =
     (if mtype resp = PEER_LIST
      then (case res_bind (py_dict_get (payload resp) ''peers'' (PList [])) py_iter of
              Inl e \<Rightarrow> (Inl e, g)
            | Inr raws \<Rightarrow> merge_peers (set (rr_nodes (g_ring g))) raws g)
      else (Inr (), g))"

definition peer_list_request :: "NodeInfo \<Rightarrow> Message" where
  "peer_list_request n = message PEER_LIST (PDict [(''requester'', node_to_dict n)])"

text \<open>
  An exception evicts the peer. \<open>OutsideModel\<close> is none: it marks a list with a host that is not a string or a
  port that is not an integer, which the code would take in as a peer; the exchange stops there and nothing
  is said of it.
\<close>

definition gossip_with :: "'w pool_ops \<Rightarrow> NodeInfo \<Rightarrow> Gossip \<times> 'w \<Rightarrow> Gossip \<times> 'w" where
  "gossip_with P peer gw =
     (let (g, w) = gw
      in case p_exec P (host peer) (port peer) (peer_list_request (g_info g)) w of
           (Inl e, w1) \<Rightarrow> evict P peer (g, w1)
         | (Inr None, w1) \<Rightarrow> evict P peer (g, w1)
         | (Inr (Some resp), w1) \<Rightarrow>
             (case merge_reply resp g of
                (Inl e, g1) \<Rightarrow> if e = OutsideModel then (g1, w1) else evict P peer (g1, w1)
              | (Inr _, g1) \<Rightarrow> (g1, w1)))"

text \<open>\<open>AsyncGossip\<close> runs the same code; after the awaited reply there is no further suspension.\<close>

definition async_evict :: "'w pool_ops \<Rightarrow> NodeInfo \<Rightarrow> Gossip \<times> 'w \<Rightarrow> Gossip \<times> 'w" where
  "async_evict = evict"

definition async_gossip_with :: "'w pool_ops \<Rightarrow> NodeInfo \<Rightarrow> Gossip \<times> 'w \<Rightarrow> Gossip \<times> 'w" where
  "async_gossip_with = gossip_with"

text \<open>
  One round of \<open>gossip_loop\<close>: a random sample of at most three peers (\<open>pick\<close>, their
  positions), one exchange after the other; an exception of \<open>get_peers\<close> ends the round. In
  \<open>AsyncGossip\<close> the exchanges run concurrently and complete in the order of \<open>sched\<close>.
\<close>

definition sample_ok :: "nat list \<Rightarrow> nat \<Rightarrow> bool" where
  "sample_ok pick n \<longleftrightarrow> length pick = min GOSSIP_FANOUT n \<and> distinct pick \<and> (\<forall>i \<in> set pick. i < n)"

definition round_peers :: "resolver \<Rightarrow> Gossip \<Rightarrow> NodeInfo list res" where
  "round_peers R g = res_bind (get_peers R (g_disc g)) (\<lambda>ps. Inr (filter (\<lambda>n. n \<noteq> g_info g) ps))"

definition gossip_round :: "'w pool_ops \<Rightarrow> resolver \<Rightarrow> nat list \<Rightarrow> Gossip \<times> 'w \<Rightarrow> Gossip \<times> 'w" where
  "gossip_round P R pick gw =
     (case round_peers R (fst gw) of
        Inl e \<Rightarrow> gw
      | Inr peers \<Rightarrow> if peers \<noteq> [] then fold (\<lambda>i. gossip_with P (peers ! i)) pick gw else gw)"

definition async_gossip_round :: "'w pool_ops \<Rightarrow> resolver \<Rightarrow> nat list \<Rightarrow> nat list \<Rightarrow> Gossip \<times> 'w \<Rightarrow> Gossip \<times> 'w" where
  "async_gossip_round P R pick sched gw =
     (case round_peers R (fst gw) of
        Inl e \<Rightarrow> gw
      | Inr peers \<Rightarrow>
          if peers \<noteq> [] then snd (gather sched (map (\<lambda>i gw. ((), async_gossip_with P (peers ! i) gw)) pick) gw) else gw)"

section \<open>Announcements\<close>

text \<open>\<open>_broadcast\<close> sends to the ring's other members; an exception of the pool ends the loop.\<close>

fun broadcast_to :: "'w pool_ops \<Rightarrow> Message \<Rightarrow> NodeInfo list \<Rightarrow> 'w \<Rightarrow> unit res \<times> 'w" where
  "broadcast_to P msg [] w = (Inr (), w)"
| "broadcast_to P msg (n # ns) w =
     (case p_exec P (host n) (port n) msg w of
        (Inl e, w1) \<Rightarrow> (Inl e, w1)
      | (Inr _, w1) \<Rightarrow> broadcast_to P msg ns w1)"

definition broadcast :: "'w pool_ops \<Rightarrow> Message \<Rightarrow> Gossip \<Rightarrow> 'w \<Rightarrow> unit res \<times> 'w" where
  "broadcast P msg g w = broadcast_to P msg (filter (\<lambda>n. n \<noteq> g_info g) (rr_nodes (g_ring g))) w"

text \<open>The asyncio one gathers the sends and ignores their exceptions.\<close>

definition async_broadcast :: "'w pool_ops \<Rightarrow> nat list \<Rightarrow> Message \<Rightarrow> Gossip \<Rightarrow> 'w \<Rightarrow> 'w" where
  "async_broadcast P sched msg g w =
     snd (gather sched (map (\<lambda>n. p_exec P (host n) (port n) msg)
            (filter (\<lambda>n. n \<noteq> g_info g) (rr_nodes (g_ring g)))) w)"

definition join_message :: "NodeInfo \<Rightarrow> Message" where
  "join_message n = message PEER_ANNOUNCE (PDict [(''peer'', node_to_dict n)])"

definition leave_message :: "NodeInfo \<Rightarrow> Message" where
  "leave_message n = message PEER_LEAVE (PDict [(''peer'', node_to_dict n)])"

definition announce_join :: "'w pool_ops \<Rightarrow> Gossip \<Rightarrow> 'w \<Rightarrow> unit res \<times> 'w" where
  "announce_join P g w = broadcast P (join_message (g_info g)) g w"

definition announce_leave :: "'w pool_ops \<Rightarrow> Gossip \<Rightarrow> 'w \<Rightarrow> unit res \<times> 'w" where
  "announce_leave P g w = broadcast P (leave_message (g_info g)) g w"

definition async_announce_join :: "'w pool_ops \<Rightarrow> nat list \<Rightarrow> Gossip \<Rightarrow> 'w \<Rightarrow> 'w" where
  "async_announce_join P sched g w = async_broadcast P sched (join_message (g_info g)) g w"

definition async_announce_leave :: "'w pool_ops \<Rightarrow> nat list \<Rightarrow> Gossip \<Rightarrow> 'w \<Rightarrow> 'w" where
  "async_announce_leave P sched g w = async_broadcast P sched (leave_message (g_info g)) g w"

section \<open>Answering\<close>

definition message_peer :: "Message \<Rightarrow> NodeInfo res" where
  "message_peer msg = res_bind (py_getitem (payload msg) ''peer'') node_from_dict"

definition handle_message :: "'w pool_ops \<Rightarrow> Message \<Rightarrow> Gossip \<times> 'w \<Rightarrow> Message res \<times> Gossip \<times> 'w" where
  "handle_message P msg gw =
     (let (g, w) = gw
      in case mtype msg of
           PING \<Rightarrow> (Inr (message PONG (PDict [(''node'', node_to_dict (g_info g))])), g, w)
         | PEER_LIST \<Rightarrow>
             (let peers = map node_to_dict (filter (\<lambda>n. n \<noteq> g_info g) (rr_nodes (g_ring g)))
              in (Inr (message PEER_LIST (PDict [(''peers'', PList peers)])), g, w))
         | PEER_ANNOUNCE \<Rightarrow>
             (case message_peer msg of
                Inl e \<Rightarrow> (Inl e, g, w)
              | Inr peer \<Rightarrow>
                 (Inr (message OK (PDict [])),
                  if peer \<notin> set (rr_nodes (g_ring g)) then gossip_add peer g else g, w))
         | PEER_LEAVE \<Rightarrow>
             (case message_peer msg of
                Inl e \<Rightarrow> (Inl e, g, w)
              | Inr peer \<Rightarrow>
                 (Inr (message OK (PDict [])), gossip_remove peer g, p_close_peer P (host peer) (port peer) w))
         | t \<Rightarrow> (Inr (unknown_type t), g, w))"

section \<open>Membership lemmas\<close>

definition members :: "Gossip \<Rightarrow> NodeInfo set" where
  "members g = set (rr_nodes (g_ring g))"

lemma gossip_add_simps [simp]:
  "members (gossip_add n g) = insert n (members g)" "g_info (gossip_add n g) = g_info g"
  "members (gossip_remove n g) = members g - {n}" "g_info (gossip_remove n g) = g_info g"
  by (auto simp: gossip_add_def gossip_remove_def members_def rr_add_def rr_remove_def)

definition gossip_wf :: "Gossip \<Rightarrow> bool" where
  "gossip_wf g \<longleftrightarrow> rr_wf (g_ring g)"

lemma gossip_wf_ops [wf_intros]:
  "gossip_wf g \<Longrightarrow> gossip_wf (gossip_add n g)" "gossip_wf g \<Longrightarrow> gossip_wf (gossip_remove n g)"
  using rr.invar_add rr.invar_remove by (auto simp: gossip_wf_def gossip_add_def gossip_remove_def)

lemma merge_peers_info: "g_info (snd (merge_peers known raws g)) = g_info g"
  by (induction known raws g rule: merge_peers.induct) (auto split: sum.splits)

lemma merge_peers_wf [wf_intros]: "gossip_wf g \<Longrightarrow> gossip_wf (snd (merge_peers known raws g))"
  by (induction known raws g rule: merge_peers.induct) (auto split: sum.splits simp: gossip_wf_ops)

lemma merge_peers_members: "members g \<subseteq> members (snd (merge_peers known raws g))
    \<and> g_info g \<notin> members (snd (merge_peers known raws g)) - members g"
  by (induction known raws g rule: merge_peers.induct) (auto split: sum.splits)

text \<open>A well-formed list is merged completely.\<close>

lemma merge_peers_all:
  "\<exists>g'. merge_peers known (map node_to_dict ns) g = (Inr (), g') \<and> g_info g' = g_info g
    \<and> members g' = members g \<union> {n \<in> set ns. n \<noteq> g_info g \<and> n \<notin> known}"
proof (induction ns arbitrary: g)
  case (Cons n ns)
  let ?g = "if n \<noteq> g_info g \<and> n \<notin> known then gossip_add n g else g"
  obtain g' where "merge_peers known (map node_to_dict ns) ?g = (Inr (), g')" "g_info g' = g_info ?g"
      "members g' = members ?g \<union> {n \<in> set ns. n \<noteq> g_info ?g \<and> n \<notin> known}"
    using Cons.IH by blast
  then show ?case by (auto simp: node_from_dict_to_dict)
qed simp

lemma merge_reply_info: "g_info (snd (merge_reply resp g)) = g_info g"
  by (auto simp: merge_reply_def merge_peers_info split: sum.splits)

lemma merge_reply_wf [wf_intros]: "gossip_wf g \<Longrightarrow> gossip_wf (snd (merge_reply resp g))"
  by (auto simp: merge_reply_def intro: wf_intros split: sum.splits)

lemma merge_reply_members: "members g \<subseteq> members (snd (merge_reply resp g))
    \<and> g_info g \<notin> members (snd (merge_reply resp g)) - members g"
  using merge_peers_members by (auto simp: merge_reply_def split: sum.splits)

lemma merge_reply_list:
  "\<exists>g'. merge_reply (message PEER_LIST (PDict [(''peers'', PList (map node_to_dict ns))])) g = (Inr (), g')
    \<and> g_info g' = g_info g \<and> members g' = members g \<union> (set ns - {g_info g})"
  using merge_peers_all [of "members g" ns g] by (auto simp: merge_reply_def members_def)

lemma gossip_with_cases:
  "fst (gossip_with P peer (g, w)) =
     (case fst (p_exec P (host peer) (port peer) (peer_list_request (g_info g)) w) of
        Inr (Some resp) \<Rightarrow> (case merge_reply resp g of (Inr _, g1) \<Rightarrow> g1 | (Inl e, g1) \<Rightarrow> if e = OutsideModel then g1 else gossip_remove peer g1)
      | _ \<Rightarrow> gossip_remove peer g)"
  by (auto simp: gossip_with_def evict_def split: prod.splits sum.splits option.splits)

lemma gossip_with_wf [wf_intros]: "gossip_wf g \<Longrightarrow> gossip_wf (fst (gossip_with P peer (g, w)))"
  using merge_reply_wf
  by (auto simp: gossip_with_cases intro: wf_intros split: prod.splits sum.splits option.splits)
     (metis snd_conv gossip_wf_ops(2))+

lemma gossip_with_info: "g_info (fst (gossip_with P peer (g, w))) = g_info g"
  using merge_reply_info
  by (auto simp: gossip_with_cases split: prod.splits sum.splits option.splits) (metis snd_conv)+

section \<open>Properties\<close>

text \<open>
  When the peer answers with the list its own \<open>handle_message\<close> computes, one exchange adds to
  the ring exactly the peer's members except the two ends themselves, keeps everything that was known,
  and leaves the peer as it was: the peer learns nothing about the requester.
\<close>

theorem gossip_exchange:
  assumes "handle_message P' (peer_list_request (g_info g)) (gp, wp) = (Inr reply, gp', wp')"
    and "p_exec P (host peer) (port peer) (peer_list_request (g_info g)) w = (Inr (Some reply), w1)"
    and "gossip_with P peer (g, w) = (g', w')"
  shows "members g' = members g \<union> (members gp - {g_info gp, g_info g}) \<and> g_info g' = g_info g
    \<and> w' = w1 \<and> gp' = gp \<and> wp' = wp"
proof -
  have reply: "reply = message PEER_LIST (PDict [(''peers'',
      PList (map node_to_dict (filter (\<lambda>n. n \<noteq> g_info gp) (rr_nodes (g_ring gp)))))])"
    and same: "gp' = gp" "wp' = wp"
    using assms(1) by (auto simp: handle_message_def peer_list_request_def)
  obtain g1 where g1: "merge_reply reply g = (Inr (), g1)" "g_info g1 = g_info g"
      "members g1 = members g \<union> (set (filter (\<lambda>n. n \<noteq> g_info gp) (rr_nodes (g_ring gp))) - {g_info g})"
    using merge_reply_list unfolding reply by blast
  then have "g' = g1 \<and> w' = w1" using assms(2,3) by (simp add: gossip_with_def)
  then show ?thesis using g1 same by (auto simp: members_def)
qed

text \<open>C27.
  A peer that cannot be reached, whose request raises, or whose list raises when it is read (it is no list,
  or an entry is no dictionary or has no host or no port) is taken out of the ring, and out of the known
  peers of a \<open>GossipDiscovery\<close> (its seed stays listed); its pooled connections are dropped. Any other
  member stays, and a node never adds itself. A host or port of the wrong type raises nothing and is not
  such a list.
\<close>

theorem gossip_evicts:
  assumes "\<forall>resp. fst (p_exec P (host peer) (port peer) (peer_list_request (g_info g)) w) = Inr (Some resp) \<longrightarrow>
      (\<exists>e. fst (merge_reply resp g) = Inl e \<and> e \<noteq> OutsideModel)"
    and "gossip_with P peer (g, w) = (g', w')"
  shows "peer \<notin> members g' \<and> members g - {peer} \<subseteq> members g' \<and> g_info g \<notin> members g' - members g
    \<and> (\<forall>sd ks. g_disc g' = GossipDiscovery sd ks \<longrightarrow> peer \<notin> set ks)
    \<and> (\<exists>w1. w' = p_close_peer P (host peer) (port peer) w1)"
proof -
  obtain r w1 where r: "p_exec P (host peer) (port peer) (peer_list_request (g_info g)) w = (r, w1)" by fastforce
  obtain g1 where g1: "(g', w') = evict P peer (g1, w1)" "members g \<subseteq> members g1"
      "g_info g \<notin> members g1 - members g"
  proof -
    consider "\<forall>resp. r \<noteq> Inr (Some resp)" | resp where "r = Inr (Some resp)" by blast
    then show thesis
    proof cases
      case 1
      then show ?thesis using that [of g] assms(2) r
        by (cases r) (auto simp: gossip_with_def split: option.splits)
    next
      case 2
      then obtain e g1 where "merge_reply resp g = (Inl e, g1)" "e \<noteq> OutsideModel"
        using assms(1) r by (metis fst_conv surj_pair)
      then show ?thesis using that [of g1] assms(2) r 2 merge_reply_members [of g resp]
        by (simp add: gossip_with_def)
    qed
  qed
  then have g': "g' = gossip_remove peer g1" "w' = p_close_peer P (host peer) (port peer) w1"
    by (simp_all add: evict_def)
  moreover have "\<forall>sd ks. disc_remove peer (g_disc g1) = GossipDiscovery sd ks \<longrightarrow> peer \<notin> set ks"
    by (cases "g_disc g1") (auto simp: gd_remove_peer_def)
  then have "\<forall>sd ks. g_disc g' = GossipDiscovery sd ks \<longrightarrow> peer \<notin> set ks"
    unfolding g' by (simp add: gossip_remove_def)
  ultimately show ?thesis using g1(2,3) by auto
qed

text \<open>
  Two nodes that have evicted each other stay apart: neither the exchange one starts, although the
  other answers it, nor the request it received puts a node back, since a list never names its own
  sender and the requester is not looked at. Only a new \<open>PEER_ANNOUNCE\<close> would.
\<close>

theorem gossip_split_persists:
  assumes "members ga \<subseteq> {g_info ga}" and "members gb \<subseteq> {g_info gb}"
    and "handle_message P' (peer_list_request (g_info ga)) (gb, wb) = (Inr reply, gb', wb')"
    and "p_exec P (host (g_info gb)) (port (g_info gb)) (peer_list_request (g_info ga)) w = (Inr (Some reply), w1)"
  shows "gossip_with P (g_info gb) (ga, w) = (ga, w1) \<and> gb' = gb"
proof -
  have "filter (\<lambda>n. n \<noteq> g_info gb) (rr_nodes (g_ring gb)) = []"
    using assms(2) by (auto simp: members_def filter_empty_conv)
  then have "reply = message PEER_LIST (PDict [(''peers'', PList [])])" "gb' = gb"
    using assms(3) by (auto simp: handle_message_def peer_list_request_def)
  then show ?thesis using assms(4) by (simp add: gossip_with_def merge_reply_def)
qed

text \<open>
  A dead node does not leave a cluster in which a live node still lists it: a node that has evicted it in
  one exchange of a round takes it back from the next peer that lists it, since a list is merged without
  asking whether its members answer.
\<close>

theorem gossip_readds_dead:
  assumes "p_exec P (host d) (port d) (peer_list_request (g_info g)) w = (Inr None, w1)"
    and "p_exec P (host c) (port c) (peer_list_request (g_info g)) (p_close_peer P (host d) (port d) w1)
      = (Inr (Some reply), w2)"
    and "handle_message P' (peer_list_request (g_info g)) (gc, wc) = (Inr reply, gc', wc')"
    and "d \<in> members gc" and "d \<noteq> g_info gc" and "d \<noteq> g_info g"
  shows "d \<notin> members (fst (gossip_with P d (g, w))) \<and> d \<in> members (fst (fold (gossip_with P) [d, c] (g, w)))"
proof -
  have first: "gossip_with P d (g, w) = (gossip_remove d g, p_close_peer P (host d) (port d) w1)"
    using assms(1) by (simp add: gossip_with_def evict_def)
  have reply: "reply = message PEER_LIST (PDict [(''peers'',
      PList (map node_to_dict (filter (\<lambda>n. n \<noteq> g_info gc) (rr_nodes (g_ring gc)))))])"
    using assms(3) by (auto simp: handle_message_def peer_list_request_def)
  obtain g' where g': "merge_reply reply (gossip_remove d g) = (Inr (), g')"
      "members g' = members (gossip_remove d g) \<union> (set (filter (\<lambda>n. n \<noteq> g_info gc) (rr_nodes (g_ring gc)))
        - {g_info (gossip_remove d g)})"
    using merge_reply_list [of "filter (\<lambda>n. n \<noteq> g_info gc) (rr_nodes (g_ring gc))" "gossip_remove d g"]
    unfolding reply by blast
  have "gossip_with P c (gossip_remove d g, p_close_peer P (host d) (port d) w1) = (g', w2)"
    using assms(2) g'(1) by (simp add: gossip_with_def)
  then show ?thesis using first g'(2) assms(5,6) assms(4) [unfolded members_def] by simp
qed

text \<open>
  What a node does with the membership messages of a peer: an announcement adds the peer, a departure
  removes it and drops its connections, both are acknowledged and leave the other members alone; a
  ping, a list request and an unknown type change nothing; and a malformed \<open>peer\<close> field raises
  without a change.
\<close>

theorem gossip_membership_messages:
  "(case handle_message P (join_message n) (g, w) of (r, g', w') \<Rightarrow>
      r = Inr (message OK (PDict [])) \<and> members g' = insert n (members g) \<and> w' = w)
   \<and> (case handle_message P (leave_message n) (g, w) of (r, g', w') \<Rightarrow>
      r = Inr (message OK (PDict [])) \<and> members g' = members g - {n} \<and> w' = p_close_peer P (host n) (port n) w)
   \<and> (mtype msg \<in> {PEER_ANNOUNCE, PEER_LEAVE} \<or> snd (handle_message P msg (g, w)) = (g, w))
   \<and> (case handle_message P msg (g, w) of (Inl e, g', w') \<Rightarrow> g' = g \<and> w' = w | (Inr _, g', _) \<Rightarrow>
      g_info g' = g_info g)"
proof (intro conjI)
  show "case handle_message P (join_message n) (g, w) of (r, g', w') \<Rightarrow>
      r = Inr (message OK (PDict [])) \<and> members g' = insert n (members g) \<and> w' = w"
    by (cases "n \<in> set (rr_nodes (g_ring g))")
       (simp_all add: handle_message_def join_message_def message_peer_def node_from_dict_to_dict,
        simp add: members_def insert_absorb)
  show "case handle_message P (leave_message n) (g, w) of (r, g', w') \<Rightarrow>
      r = Inr (message OK (PDict [])) \<and> members g' = members g - {n} \<and> w' = p_close_peer P (host n) (port n) w"
    by (simp add: handle_message_def leave_message_def message_peer_def node_from_dict_to_dict)
  show "mtype msg \<in> {PEER_ANNOUNCE, PEER_LEAVE} \<or> snd (handle_message P msg (g, w)) = (g, w)"
    by (cases "mtype msg") (simp_all add: handle_message_def)
  show "case handle_message P msg (g, w) of (Inl e, g', w') \<Rightarrow> g' = g \<and> w' = w | (Inr _, g', _) \<Rightarrow>
      g_info g' = g_info g"
    by (cases "mtype msg") (auto simp: handle_message_def split: sum.splits)
qed

section \<open>Witnesses\<close>

text \<open>A pool whose every request is answered by the gossip endpoint \<open>gp\<close>, and one without answers.\<close>

definition echo_pool :: "Gossip \<Rightarrow> unit pool_ops" where
  "echo_pool gp =
     \<lparr>p_exec = (\<lambda>h p m w. (case fst (handle_message \<lparr>p_exec = \<lambda>h p m w. (Inr None, w), p_close_peer = \<lambda>h p w. w,
          p_close_all = \<lambda>w. w\<rparr> m (gp, w)) of Inl e \<Rightarrow> Inr None | Inr resp \<Rightarrow> Inr (Some resp), w)),
      p_close_peer = (\<lambda>h p w. w), p_close_all = (\<lambda>w. w)\<rparr>"

definition dead_pool :: "unit pool_ops" where
  "dead_pool = \<lparr>p_exec = \<lambda>h p m w. (Inr None, w), p_close_peer = \<lambda>h p w. w, p_close_all = \<lambda>w. w\<rparr>"

definition demo_node :: "int \<Rightarrow> NodeInfo" where
  "demo_node p = \<lparr>host = ''h'', port = p\<rparr>"

definition demo_gossip :: "int \<Rightarrow> int list \<Rightarrow> Gossip" where
  "demo_gossip p ps = \<lparr>g_info = demo_node p, g_ring = \<lparr>rr_nodes = map demo_node ps\<rparr>,
     g_disc = GossipDiscovery (demo_node 1) []\<rparr>"

lemma demo_node_eq [simp]: "demo_node p = demo_node q \<longleftrightarrow> p = q"
  by (simp add: demo_node_def)

lemma gossip_exchange_witness:
  "members (fst (gossip_with (echo_pool (demo_gossip 2 [1, 2, 3])) (demo_node 2) (demo_gossip 1 [1, 2], ())))
     = {demo_node 1, demo_node 2, demo_node 3}"
proof -
  let ?g = "demo_gossip 1 [1, 2]" and ?gp = "demo_gossip 2 [1, 2, 3]"
  let ?reply = "message PEER_LIST (PDict [(''peers'', PList [node_to_dict (demo_node 1), node_to_dict (demo_node 3)])])"
  have h: "handle_message P (peer_list_request (g_info ?g)) (?gp, w) = (Inr ?reply, ?gp, w)" for P :: "unit pool_ops" and w
    by (simp add: handle_message_def peer_list_request_def demo_gossip_def)
  have e: "p_exec (echo_pool ?gp) (host (demo_node 2)) (port (demo_node 2)) (peer_list_request (g_info ?g)) ()
      = (Inr (Some ?reply), ())"
    by (simp add: echo_pool_def h)
  obtain g' w' where g': "gossip_with (echo_pool ?gp) (demo_node 2) (?g, ()) = (g', w')" by (rule prod.exhaust)
  from gossip_exchange [OF h e g'] show ?thesis
    unfolding g' by (auto simp: members_def demo_gossip_def)
qed

lemma gossip_evicts_witness:
  "demo_node 2 \<notin> members (fst (gossip_with dead_pool (demo_node 2) (demo_gossip 1 [1, 2, 3], ())))
   \<and> {demo_node 1, demo_node 3} \<subseteq> members (fst (gossip_with dead_pool (demo_node 2) (demo_gossip 1 [1, 2, 3], ())))"
proof -
  obtain g' w' where g': "gossip_with dead_pool (demo_node 2) (demo_gossip 1 [1, 2, 3], ()) = (g', w')" by (rule prod.exhaust)
  have "\<forall>resp. fst (p_exec dead_pool (host (demo_node 2)) (port (demo_node 2))
      (peer_list_request (g_info (demo_gossip 1 [1, 2, 3]))) ()) = Inr (Some resp) \<longrightarrow>
      (\<exists>e. fst (merge_reply resp (demo_gossip 1 [1, 2, 3])) = Inl e \<and> e \<noteq> OutsideModel)"
    by (simp add: dead_pool_def)
  from gossip_evicts [OF this g'] show ?thesis
    unfolding g' by (auto simp: members_def demo_gossip_def)
qed

lemma gossip_split_persists_witness:
  "gossip_with (echo_pool (demo_gossip 2 [2])) (demo_node 2) (demo_gossip 1 [1], ()) = (demo_gossip 1 [1], ())"
proof -
  let ?reply = "message PEER_LIST (PDict [(''peers'', PList [])])"
  have h: "handle_message P (peer_list_request (g_info (demo_gossip 1 [1]))) (demo_gossip 2 [2], w)
      = (Inr ?reply, demo_gossip 2 [2], w)" for P :: "unit pool_ops" and w
    by (simp add: handle_message_def peer_list_request_def demo_gossip_def)
  have e: "p_exec (echo_pool (demo_gossip 2 [2])) (host (g_info (demo_gossip 2 [2]))) (port (g_info (demo_gossip 2 [2])))
      (peer_list_request (g_info (demo_gossip 1 [1]))) () = (Inr (Some ?reply), ())"
    by (simp add: echo_pool_def h)
  have "members (demo_gossip 1 [1]) \<subseteq> {g_info (demo_gossip 1 [1])}" "members (demo_gossip 2 [2]) \<subseteq> {g_info (demo_gossip 2 [2])}"
    by (simp_all add: members_def demo_gossip_def)
  from gossip_split_persists [OF this h e] show ?thesis by (simp add: demo_gossip_def)
qed

definition partial_pool :: "NodeInfo \<Rightarrow> Gossip \<Rightarrow> unit pool_ops" where
  "partial_pool d gp = (echo_pool gp)\<lparr>p_exec :=
     (\<lambda>h p m w. if h = host d \<and> p = port d then (Inr None, w) else p_exec (echo_pool gp) h p m w)\<rparr>"

lemma gossip_readds_dead_witness:
  "demo_node 9 \<in> members (fst (fold (gossip_with (partial_pool (demo_node 9) (demo_gossip 2 [1, 2, 9])))
     [demo_node 9, demo_node 2] (demo_gossip 1 [1, 2, 9], ())))"
proof -
  let ?g = "demo_gossip 1 [1, 2, 9]" and ?gc = "demo_gossip 2 [1, 2, 9]"
  let ?P = "partial_pool (demo_node 9) ?gc"
  let ?reply = "message PEER_LIST (PDict [(''peers'', PList [node_to_dict (demo_node 1), node_to_dict (demo_node 9)])])"
  have h: "handle_message P (peer_list_request (g_info ?g)) (?gc, w) = (Inr ?reply, ?gc, w)" for P :: "unit pool_ops" and w
    by (simp add: handle_message_def peer_list_request_def demo_gossip_def)
  have dead: "p_exec ?P (host (demo_node 9)) (port (demo_node 9)) (peer_list_request (g_info ?g)) () = (Inr None, ())"
    by (simp add: partial_pool_def)
  have live: "p_exec ?P (host (demo_node 2)) (port (demo_node 2)) (peer_list_request (g_info ?g))
      (p_close_peer ?P (host (demo_node 9)) (port (demo_node 9)) ()) = (Inr (Some ?reply), ())"
    by (simp add: partial_pool_def echo_pool_def demo_node_def h)
  show ?thesis
    using gossip_readds_dead [OF dead live h] by (simp add: members_def demo_gossip_def)
qed

end
