(* ===== verification/Node.thy ===== *)
theory Node
  imports Gossip
begin

text \<open>
  \<open>dlstorage/node/sync.py\<close> and \<open>dlstorage/node/async_.py\<close>: the storage node. The
  state is the node itself with whatever its pool acts on (\<open>StorageNode \<times> 'w\<close>). The wire
  requests of a remote handle go through the \<open>pool_ops\<close>; \<open>sha\<close> is the digest of the ring.
  The two files differ in how calls to several replicas are combined, one after the other or gathered,
  and where they are the same the asyncio definitions name the blocking ones.
\<close>

section \<open>State\<close>

text \<open>
  The node and its \<open>Gossip\<close> share the ring and the discovery object: both are in
  \<open>sn_gossip\<close>.
\<close>

record StorageNode =
  sn_gossip :: Gossip
  sn_store :: LocalLWWStore
  sn_replication :: int

abbreviation sn_info :: "StorageNode \<Rightarrow> NodeInfo" where
  "sn_info s \<equiv> g_info (sn_gossip s)"

abbreviation sn_ring :: "StorageNode \<Rightarrow> RendezvousRing" where
  "sn_ring s \<equiv> g_ring (sn_gossip s)"

text \<open>\<open>__init__\<close>; the ring may come with members, since the default one is shared.\<close>

definition node_init :: "string \<Rightarrow> DiscoveryState \<Rightarrow> string option \<Rightarrow> int \<Rightarrow> RendezvousRing \<Rightarrow> int \<Rightarrow> StorageNode" where
  "node_init local_host disc advertise_host p ring replication =
     (let h = (case advertise_host of None \<Rightarrow> local_host | Some a \<Rightarrow> if a = [] then local_host else a)
      in \<lparr>sn_gossip = \<lparr>g_info = \<lparr>host = h, port = p\<rparr>, g_ring = ring, g_disc = disc\<rparr>,
          sn_store = lww_init, sn_replication = replication\<rparr>)"

definition async_node_init :: "string \<Rightarrow> DiscoveryState \<Rightarrow> string option \<Rightarrow> int \<Rightarrow> RendezvousRing \<Rightarrow> int \<Rightarrow> StorageNode" where
  "async_node_init = node_init"

definition default_replication :: int where
  "default_replication = 2"

section \<open>Replica handles\<close>

datatype Handle = LocalHandle | RemoteHandle string int

text \<open>\<open>_SyncLocalHandle\<close>: the methods of the store, which hand on its results.\<close>

definition local_get :: "rat \<Rightarrow> string \<Rightarrow> StorageNode \<times> 'w \<Rightarrow> pyval res \<times> StorageNode \<times> 'w" where
  "local_get now key sw =
     (case lww_get now key (sn_store (fst sw)) of (v, st) \<Rightarrow> (Inr v, (fst sw)\<lparr>sn_store := st\<rparr>, snd sw))"

definition local_get_versioned :: "rat \<Rightarrow> string \<Rightarrow> StorageNode \<times> 'w \<Rightarrow> versioned option res \<times> StorageNode \<times> 'w" where
  "local_get_versioned now key sw =
     (case lww_get_versioned now key (sn_store (fst sw)) of
        (r, st) \<Rightarrow> (Inr r, (fst sw)\<lparr>sn_store := st\<rparr>, snd sw))"

definition local_set :: "rat \<Rightarrow> int \<Rightarrow> string \<Rightarrow> pyval \<Rightarrow> rat option \<Rightarrow> int \<Rightarrow> StorageNode \<times> 'w
    \<Rightarrow> bool res \<times> StorageNode \<times> 'w" where
  "local_set now wall key v ttl ts sw =
     (case lww_set now wall key v ttl (Some ts) (sn_store (fst sw)) of
        (b, st) \<Rightarrow> (Inr b, (fst sw)\<lparr>sn_store := st\<rparr>, snd sw))"

definition local_delete :: "int \<Rightarrow> string \<Rightarrow> int \<Rightarrow> StorageNode \<times> 'w \<Rightarrow> bool res \<times> StorageNode \<times> 'w" where
  "local_delete wall key ts sw =
     (case lww_delete wall key (Some ts) (sn_store (fst sw)) of
        (b, st) \<Rightarrow> (Inr b, (fst sw)\<lparr>sn_store := st\<rparr>, snd sw))"

declare local_get_def [simp] local_get_versioned_def [simp] local_set_def [simp] local_delete_def [simp]

text \<open>\<open>_AsyncLocalHandle\<close> has the same methods.\<close>

definition async_local_get :: "rat \<Rightarrow> string \<Rightarrow> StorageNode \<times> 'w \<Rightarrow> pyval res \<times> StorageNode \<times> 'w" where
  "async_local_get = local_get"

definition async_local_get_versioned :: "rat \<Rightarrow> string \<Rightarrow> StorageNode \<times> 'w \<Rightarrow> versioned option res \<times> StorageNode \<times> 'w" where
  "async_local_get_versioned = local_get_versioned"

definition async_local_set :: "rat \<Rightarrow> int \<Rightarrow> string \<Rightarrow> pyval \<Rightarrow> rat option \<Rightarrow> int \<Rightarrow> StorageNode \<times> 'w
    \<Rightarrow> bool res \<times> StorageNode \<times> 'w" where
  "async_local_set = local_set"

definition async_local_delete :: "int \<Rightarrow> string \<Rightarrow> int \<Rightarrow> StorageNode \<times> 'w \<Rightarrow> bool res \<times> StorageNode \<times> 'w" where
  "async_local_delete = local_delete"

text \<open>What a remote handle reads out of the reply to a GET; \<open>None\<close> stands for no reply.\<close>

definition decode_versioned :: "Message option \<Rightarrow> versioned option res" where
  "decode_versioned reply =
     (case reply of
        None \<Rightarrow> Inr None
      | Some resp \<Rightarrow>
          if mtype resp = OK then
            res_bind (py_dict_get (payload resp) ''value'' PNone) (\<lambda>v.
            res_bind (res_bind (py_dict_get (payload resp) ''ts'' (PInt 0)) as_int) (\<lambda>ts.
            Inr (Some (v, ts, False))))
          else if mtype resp = NOT_FOUND then
            res_bind (res_bind (py_dict_get (payload resp) ''ts'' (PInt 0)) as_int) (\<lambda>ts.
            res_bind (res_bind (py_dict_get (payload resp) ''tombstone'' (PBool False)) as_bool) (\<lambda>tomb.
            Inr (if ts > 0 then Some (PNone, ts, tomb) else None)))
          else Inr None)"

definition handle_get_versioned :: "'w pool_ops \<Rightarrow> rat \<Rightarrow> Handle \<Rightarrow> string \<Rightarrow> StorageNode \<times> 'w
    \<Rightarrow> versioned option res \<times> StorageNode \<times> 'w" where
  "handle_get_versioned P now rh key sw =
     (let (s, w) = sw
      in case rh of
           LocalHandle \<Rightarrow> local_get_versioned now key sw
         | RemoteHandle h p \<Rightarrow>
             (case p_exec P h p (get_request key) w of
                (Inl e, w') \<Rightarrow> (Inl e, s, w')
              | (Inr resp, w') \<Rightarrow> (decode_versioned resp, s, w')))"

definition handle_get :: "'w pool_ops \<Rightarrow> rat \<Rightarrow> Handle \<Rightarrow> string \<Rightarrow> StorageNode \<times> 'w \<Rightarrow> pyval res \<times> StorageNode \<times> 'w" where
  "handle_get P now rh key sw =
     (case rh of
        LocalHandle \<Rightarrow> local_get now key sw
      | RemoteHandle h p \<Rightarrow>
          (case handle_get_versioned P now rh key sw of
             (Inl e, sw') \<Rightarrow> (Inl e, sw')
           | (Inr None, sw') \<Rightarrow> (Inr PNone, sw')
           | (Inr (Some (v, _, is_tombstone)), sw') \<Rightarrow> (Inr (if is_tombstone then PNone else v), sw')))"

definition acked :: "Message option \<Rightarrow> bool" where
  "acked reply = (case reply of None \<Rightarrow> False | Some resp \<Rightarrow> mtype resp = OK)"

definition handle_set :: "'w pool_ops \<Rightarrow> rat \<Rightarrow> int \<Rightarrow> Handle \<Rightarrow> string \<Rightarrow> pyval \<Rightarrow> rat option \<Rightarrow> int
    \<Rightarrow> StorageNode \<times> 'w \<Rightarrow> bool res \<times> StorageNode \<times> 'w" where
  "handle_set P now wall rh key v ttl ts sw =
     (let (s, w) = sw
      in case rh of
           LocalHandle \<Rightarrow> local_set now wall key v ttl ts sw
         | RemoteHandle h p \<Rightarrow>
             (case p_exec P h p (set_request key v ttl ts) w of
                (Inl e, w') \<Rightarrow> (Inl e, s, w')
              | (Inr resp, w') \<Rightarrow> (Inr (acked resp), s, w')))"

definition handle_delete :: "'w pool_ops \<Rightarrow> int \<Rightarrow> Handle \<Rightarrow> string \<Rightarrow> int
    \<Rightarrow> StorageNode \<times> 'w \<Rightarrow> bool res \<times> StorageNode \<times> 'w" where
  "handle_delete P wall rh key ts sw =
     (let (s, w) = sw
      in case rh of
           LocalHandle \<Rightarrow> local_delete wall key ts sw
         | RemoteHandle h p \<Rightarrow>
             (case p_exec P h p (delete_request key ts) w of
                (Inl e, w') \<Rightarrow> (Inl e, s, w')
              | (Inr resp, w') \<Rightarrow> (Inr (acked resp), s, w')))"

definition async_handle_get_versioned :: "'w pool_ops \<Rightarrow> rat \<Rightarrow> Handle \<Rightarrow> string \<Rightarrow> StorageNode \<times> 'w
    \<Rightarrow> versioned option res \<times> StorageNode \<times> 'w" where
  "async_handle_get_versioned = handle_get_versioned"

definition async_handle_get :: "'w pool_ops \<Rightarrow> rat \<Rightarrow> Handle \<Rightarrow> string \<Rightarrow> StorageNode \<times> 'w
    \<Rightarrow> pyval res \<times> StorageNode \<times> 'w" where
  "async_handle_get = handle_get"

definition async_handle_set :: "'w pool_ops \<Rightarrow> rat \<Rightarrow> int \<Rightarrow> Handle \<Rightarrow> string \<Rightarrow> pyval \<Rightarrow> rat option \<Rightarrow> int
    \<Rightarrow> StorageNode \<times> 'w \<Rightarrow> bool res \<times> StorageNode \<times> 'w" where
  "async_handle_set = handle_set"

definition async_handle_delete :: "'w pool_ops \<Rightarrow> int \<Rightarrow> Handle \<Rightarrow> string \<Rightarrow> int
    \<Rightarrow> StorageNode \<times> 'w \<Rightarrow> bool res \<times> StorageNode \<times> 'w" where
  "async_handle_delete = handle_delete"

definition make_handles :: "StorageNode \<Rightarrow> NodeInfo list \<Rightarrow> Handle list" where
  "make_handles s nodes = map (\<lambda>n. if n = sn_info s then LocalHandle else RemoteHandle (host n) (port n)) nodes"

definition async_make_handles :: "StorageNode \<Rightarrow> NodeInfo list \<Rightarrow> Handle list" where
  "async_make_handles = make_handles"

lemma make_handles_length [simp]: "length (make_handles s ns) = length ns" "length (async_make_handles s ns) = length ns"
  by (simp_all add: make_handles_def async_make_handles_def)

text \<open>\<open>__repr__\<close>: the members besides the node, and the keys that are listed.\<close>

definition repr_tail :: "rat \<Rightarrow> StorageNode \<Rightarrow> string" where
  "repr_tail now s = node_address (sn_info s) @ '', peers='' @ py_str_int (int (rr_len (sn_ring s)) - 1)
     @ '', keys='' @ py_str_int (int (lww_len now (sn_store s))) @ '')''"

definition node_repr :: "rat \<Rightarrow> StorageNode \<Rightarrow> string" where
  "node_repr now s = ''SyncStorageNode('' @ repr_tail now s"

definition async_node_repr :: "rat \<Rightarrow> StorageNode \<Rightarrow> string" where
  "async_node_repr now s = ''StorageNode('' @ repr_tail now s"

section \<open>The store API\<close>

definition replica_nodes :: "(string \<Rightarrow> byte list) \<Rightarrow> string \<Rightarrow> StorageNode \<Rightarrow> NodeInfo list" where
  "replica_nodes sha key s = rr_get_nodes sha key (sn_replication s) (sn_ring s)"

type_synonym 'w read_resolve = "string \<Rightarrow> (StorageNode \<times> 'w) handle_read list \<Rightarrow> StorageNode \<times> 'w
    \<Rightarrow> pyval \<times> StorageNode \<times> 'w"

definition node_get :: "'w pool_ops \<Rightarrow> (string \<Rightarrow> byte list) \<Rightarrow> 'w read_resolve \<Rightarrow> rat \<Rightarrow> string
    \<Rightarrow> StorageNode \<times> 'w \<Rightarrow> pyval \<times> StorageNode \<times> 'w" where
  "node_get P sha resolve now key sw =
     (let candidates = replica_nodes sha key (fst sw)
      in if candidates = []
         then (case lww_get now key (sn_store (fst sw)) of (v, st) \<Rightarrow> (v, (fst sw)\<lparr>sn_store := st\<rparr>, snd sw))
         else resolve key (map (handle_get_versioned P now) (make_handles (fst sw) candidates)) sw)"

definition async_node_get :: "'w pool_ops \<Rightarrow> (string \<Rightarrow> byte list) \<Rightarrow> 'w read_resolve \<Rightarrow> rat \<Rightarrow> string
    \<Rightarrow> StorageNode \<times> 'w \<Rightarrow> pyval \<times> StorageNode \<times> 'w" where
  "async_node_get P sha resolve now key sw =
     (let candidates = replica_nodes sha key (fst sw)
      in if candidates = []
         then (case lww_get now key (sn_store (fst sw)) of (v, st) \<Rightarrow> (v, (fst sw)\<lparr>sn_store := st\<rparr>, snd sw))
         else resolve key (map (async_handle_get_versioned P now) (async_make_handles (fst sw) candidates)) sw)"

text \<open>\<open>[f(h) for h in handles]\<close>: an exception ends the comprehension.\<close>

fun run_each :: "('w \<Rightarrow> 'a res \<times> 'w) list \<Rightarrow> 'w \<Rightarrow> 'a list res \<times> 'w" where
  "run_each [] w = (Inr [], w)"
| "run_each (f # fs) w =
     (case f w of
        (Inl e, w1) \<Rightarrow> (Inl e, w1)
      | (Inr x, w1) \<Rightarrow>
         (case run_each fs w1 of
            (Inl e, w2) \<Rightarrow> (Inl e, w2)
          | (Inr xs, w2) \<Rightarrow> (Inr (x # xs), w2)))"

text \<open>\<open>ts\<close> is the \<open>time.time_ns()\<close> the call reads.\<close>

definition node_set :: "'w pool_ops \<Rightarrow> (string \<Rightarrow> byte list) \<Rightarrow> rat \<Rightarrow> int \<Rightarrow> int \<Rightarrow> string \<Rightarrow> pyval \<Rightarrow> rat option
    \<Rightarrow> StorageNode \<times> 'w \<Rightarrow> bool res \<times> StorageNode \<times> 'w" where
  "node_set P sha now wall ts key v ttl sw =
     (let nodes = replica_nodes sha key (fst sw)
      in if nodes = []
         then (Inr True, (fst sw)\<lparr>sn_store := snd (lww_set now wall key v ttl (Some ts) (sn_store (fst sw)))\<rparr>, snd sw)
         else (case run_each (map (\<lambda>h. handle_set P now wall h key v ttl ts) (make_handles (fst sw) nodes)) sw of
                 (Inl e, sw') \<Rightarrow> (Inl e, sw')
               | (Inr results, sw') \<Rightarrow> (Inr (list_ex id results), sw')))"

definition node_delete :: "'w pool_ops \<Rightarrow> (string \<Rightarrow> byte list) \<Rightarrow> int \<Rightarrow> int \<Rightarrow> string
    \<Rightarrow> StorageNode \<times> 'w \<Rightarrow> bool res \<times> StorageNode \<times> 'w" where
  "node_delete P sha wall ts key sw =
     (let nodes = replica_nodes sha key (fst sw)
      in if nodes = []
         then (Inr True, (fst sw)\<lparr>sn_store := snd (lww_delete wall key (Some ts) (sn_store (fst sw)))\<rparr>, snd sw)
         else (case run_each (map (\<lambda>h. handle_delete P wall h key ts) (make_handles (fst sw) nodes)) sw of
                 (Inl e, sw') \<Rightarrow> (Inl e, sw')
               | (Inr results, sw') \<Rightarrow> (Inr (list_ex id results), sw')))"

text \<open>
  The asyncio node gathers the calls, which complete in the order \<open>sched\<close>, and counts the
  results that are \<open>True\<close>: exceptions are results too.
\<close>

definition any_true :: "bool res option list \<Rightarrow> bool" where
  "any_true results = list_ex (\<lambda>r. r = Some (Inr True)) results"

definition async_node_set :: "'w pool_ops \<Rightarrow> (string \<Rightarrow> byte list) \<Rightarrow> nat list \<Rightarrow> rat \<Rightarrow> int \<Rightarrow> int \<Rightarrow> string \<Rightarrow> pyval
    \<Rightarrow> rat option \<Rightarrow> StorageNode \<times> 'w \<Rightarrow> bool \<times> StorageNode \<times> 'w" where
  "async_node_set P sha sched now wall ts key v ttl sw =
     (let nodes = replica_nodes sha key (fst sw)
      in if nodes = []
         then (True, (fst sw)\<lparr>sn_store := snd (lww_set now wall key v ttl (Some ts) (sn_store (fst sw)))\<rparr>, snd sw)
         else (case gather sched (map (\<lambda>h. async_handle_set P now wall h key v ttl ts)
                 (async_make_handles (fst sw) nodes)) sw of (results, sw') \<Rightarrow> (any_true results, sw')))"

definition async_node_delete :: "'w pool_ops \<Rightarrow> (string \<Rightarrow> byte list) \<Rightarrow> nat list \<Rightarrow> int \<Rightarrow> int \<Rightarrow> string
    \<Rightarrow> StorageNode \<times> 'w \<Rightarrow> bool \<times> StorageNode \<times> 'w" where
  "async_node_delete P sha sched wall ts key sw =
     (let nodes = replica_nodes sha key (fst sw)
      in if nodes = []
         then (True, (fst sw)\<lparr>sn_store := snd (lww_delete wall key (Some ts) (sn_store (fst sw)))\<rparr>, snd sw)
         else (case gather sched (map (\<lambda>h. async_handle_delete P wall h key ts)
                 (async_make_handles (fst sw) nodes)) sw of (results, sw') \<Rightarrow> (any_true results, sw')))"

section \<open>Serving requests\<close>

text \<open>The branch of \<open>_handle_client\<close>: membership messages go to the gossip endpoint, others to the store.\<close>

definition node_handle :: "'w pool_ops \<Rightarrow> rat \<times> int \<Rightarrow> Message \<Rightarrow> StorageNode \<times> 'w \<Rightarrow> Message res \<times> StorageNode \<times> 'w" where
  "node_handle P clock msg sw =
     (let (s, w) = sw
      in if is_gossip (mtype msg)
         then (case handle_message P msg (sn_gossip s, w) of (r, g, w') \<Rightarrow> (r, s\<lparr>sn_gossip := g\<rparr>, w'))
         else (case dispatch (fst clock) (snd clock) msg (sn_store s) of (r, st) \<Rightarrow> (r, s\<lparr>sn_store := st\<rparr>, w)))"

text \<open>
  The loop of a client connection, its first \<open>k\<close> iterations: receive, handle, reply. It leaves the
  loop, and closes the connection, at the first exception: at the end of the stream, from the handler,
  from the size of the reply or from the socket (\<open>sends i\<close>: the \<open>i\<close>-th reply can be sent).
  The result is the bytes of each reply, whether the loop still runs, and the states.
\<close>

fun client_loop :: "('s \<Rightarrow> Message res \<times> 's) \<Rightarrow> (nat \<Rightarrow> Message \<Rightarrow> 'x \<Rightarrow> Message res \<times> 'x) \<Rightarrow> (Message \<Rightarrow> byte list)
    \<Rightarrow> (nat \<Rightarrow> bool) \<Rightarrow> nat \<Rightarrow> nat \<Rightarrow> 's \<times> 'x \<Rightarrow> byte list list \<times> bool \<times> 's \<times> 'x" where
  "client_loop rcv handle dumps sends i 0 sx = ([], True, sx)"
| "client_loop rcv handle dumps sends i (Suc k) (s, x) =
     (case rcv s of
        (Inl e, s1) \<Rightarrow> ([], False, s1, x)
      | (Inr msg, s1) \<Rightarrow>
         (case handle i msg x of
            (Inl e, x1) \<Rightarrow> ([], False, s1, x1)
          | (Inr response, x1) \<Rightarrow>
             (case send_message dumps response of
                Inl e \<Rightarrow> ([], False, s1, x1)
              | Inr bs \<Rightarrow>
                  if sends i
                  then (case client_loop rcv handle dumps sends (Suc i) k (s1, x1) of
                          (out, status) \<Rightarrow> (bs # out, status))
                  else ([], False, s1, x1))))"

definition handle_client :: "'w pool_ops \<Rightarrow> (nat \<Rightarrow> rat \<times> int) \<Rightarrow> (Message \<Rightarrow> byte list) \<Rightarrow> (byte list \<Rightarrow> Message res)
    \<Rightarrow> (nat \<Rightarrow> bool) \<Rightarrow> nat \<Rightarrow> rx list \<times> StorageNode \<times> 'w \<Rightarrow> byte list list \<times> bool \<times> rx list \<times> StorageNode \<times> 'w" where
  "handle_client P clock dumps loads sends k =
     client_loop (recv_message loads) (\<lambda>i. node_handle P (clock i)) dumps sends 0 k"

definition async_handle_client :: "'w pool_ops \<Rightarrow> (nat \<Rightarrow> rat \<times> int) \<Rightarrow> (Message \<Rightarrow> byte list)
    \<Rightarrow> (byte list \<Rightarrow> Message res) \<Rightarrow> (nat \<Rightarrow> bool) \<Rightarrow> nat \<Rightarrow> (byte list \<times> rx list) \<times> StorageNode \<times> 'w
    \<Rightarrow> byte list list \<times> bool \<times> (byte list \<times> rx list) \<times> StorageNode \<times> 'w" where
  "async_handle_client P clock dumps loads sends k =
     client_loop (recv_message_async loads) (\<lambda>i. node_handle P (clock i)) dumps sends 0 k"

section \<open>Life cycle\<close>

text \<open>\<open>discovery.get_peers\<close> may raise; then nothing was added.\<close>

definition node_bootstrap :: "resolver \<Rightarrow> StorageNode \<Rightarrow> StorageNode res" where
  "node_bootstrap R s =
     res_bind (get_peers R (g_disc (sn_gossip s))) (\<lambda>peers.
       Inr (s\<lparr>sn_gossip := (sn_gossip s)\<lparr>g_ring := fold rr_add peers (sn_ring s)\<rparr>\<rparr>))"

definition async_node_bootstrap :: "resolver \<Rightarrow> StorageNode \<Rightarrow> StorageNode res" where
  "async_node_bootstrap = node_bootstrap"

definition node_join_ring :: "StorageNode \<Rightarrow> StorageNode" where
  "node_join_ring s = s\<lparr>sn_gossip := (sn_gossip s)\<lparr>g_ring := rr_add (sn_info s) (sn_ring s)\<rparr>\<rparr>"

text \<open>One sweep of \<open>_purge_loop\<close>.\<close>

definition node_purge :: "rat \<Rightarrow> StorageNode \<Rightarrow> StorageNode res" where
  "node_purge now s =
     res_bind (lww_purge_expired now (sn_store s)) (\<lambda>(removed, st). Inr (s\<lparr>sn_store := st\<rparr>))"

definition async_node_purge :: "rat \<Rightarrow> StorageNode \<Rightarrow> StorageNode res" where
  "async_node_purge = node_purge"

text \<open>
  \<open>bind\<close> is what binding the server socket does. The background threads are started before the
  announcement.
\<close>

definition node_start :: "'w pool_ops \<Rightarrow> resolver \<Rightarrow> unit res \<Rightarrow> StorageNode \<times> 'w \<Rightarrow> unit res \<times> StorageNode \<times> 'w" where
  "node_start P R bind sw =
     (case node_bootstrap R (fst sw) of
        Inl e \<Rightarrow> (Inl e, sw)
      | Inr s1 \<Rightarrow>
         (let s2 = node_join_ring s1
          in case bind of
               Inl e \<Rightarrow> (Inl e, s2, snd sw)
             | Inr _ \<Rightarrow> (case announce_join P (sn_gossip s2) (snd sw) of (r, w') \<Rightarrow> (r, s2, w'))))"

text \<open>
  The asyncio node: the bootstrap, \<open>ring.add\<close> and the server come first. Then \<open>start\<close> creates the gossip and the
  purge task and waits for its announcements, and while it waits these tasks run. What happens until it
  returns is a list of events in the order of their completion: an announcement, to the \<open>i\<close>-th of the members the
  ring had when they began, a gossip exchange, a sweep of the purge task, a request that the server handles, with
  its clocks. A sweep that raises ends its task.
\<close>

datatype start_event = Announce nat | Exchange NodeInfo | Sweep rat | Served "rat \<times> int" Message

definition async_node_open :: "resolver \<Rightarrow> unit res \<Rightarrow> StorageNode \<Rightarrow> unit res \<times> StorageNode" where
  "async_node_open R bind s =
     (case async_node_bootstrap R s of
        Inl e \<Rightarrow> (Inl e, s)
      | Inr s1 \<Rightarrow> (bind, node_join_ring s1))"

definition announce_targets :: "StorageNode \<Rightarrow> NodeInfo list" where
  "announce_targets s = filter (\<lambda>n. n \<noteq> sn_info s) (rr_nodes (sn_ring s))"

fun start_event_step :: "'w pool_ops \<Rightarrow> NodeInfo list \<Rightarrow> start_event \<Rightarrow> StorageNode \<times> 'w \<Rightarrow> StorageNode \<times> 'w" where
  "start_event_step P targets (Announce i) (s, w) =
     (s, snd (p_exec P (host (targets ! i)) (port (targets ! i)) (join_message (sn_info s)) w))"
| "start_event_step P targets (Exchange peer) (s, w) =
     (case async_gossip_with P peer (sn_gossip s, w) of (g, w') \<Rightarrow> (s\<lparr>sn_gossip := g\<rparr>, w'))"
| "start_event_step P targets (Sweep now) (s, w) =
     (case async_node_purge now s of Inl e \<Rightarrow> (s, w) | Inr s' \<Rightarrow> (s', w))"
| "start_event_step P targets (Served clock msg) (s, w) = snd (node_handle P clock msg (s, w))"

definition async_node_start :: "'w pool_ops \<Rightarrow> resolver \<Rightarrow> unit res \<Rightarrow> start_event list \<Rightarrow> StorageNode \<times> 'w
    \<Rightarrow> unit res \<times> StorageNode \<times> 'w" where
  "async_node_start P R bind events sw =
     (case async_node_open R bind (fst sw) of
        (Inl e, s1) \<Rightarrow> (Inl e, s1, snd sw)
      | (Inr _, s1) \<Rightarrow> (Inr (), fold (start_event_step P (announce_targets s1)) events (s1, snd sw)))"

text \<open>An exception of the announcement leaves \<open>stop\<close> before anything was stopped or closed.\<close>

definition node_stop :: "'w pool_ops \<Rightarrow> StorageNode \<times> 'w \<Rightarrow> unit res \<times> StorageNode \<times> 'w" where
  "node_stop P sw =
     (case announce_leave P (sn_gossip (fst sw)) (snd sw) of
        (Inl e, w1) \<Rightarrow> (Inl e, fst sw, w1)
      | (Inr _, w1) \<Rightarrow> (Inr (), fst sw, p_close_all P w1))"

definition async_node_stop :: "'w pool_ops \<Rightarrow> nat list \<Rightarrow> StorageNode \<times> 'w \<Rightarrow> StorageNode \<times> 'w" where
  "async_node_stop P sched sw =
     (fst sw, p_close_all P (async_announce_leave P sched (sn_gossip (fst sw)) (snd sw)))"

text \<open>
  \<open>with node: body\<close>: \<open>stop\<close> runs whether or not the body raises, and an exception of \<open>stop\<close> replaces
  that of the body; when \<open>start\<close> raises, neither runs.
\<close>

definition node_with :: "'w pool_ops \<Rightarrow> resolver \<Rightarrow> unit res \<Rightarrow> (StorageNode \<times> 'w \<Rightarrow> 'r res \<times> StorageNode \<times> 'w)
    \<Rightarrow> StorageNode \<times> 'w \<Rightarrow> 'r res \<times> StorageNode \<times> 'w" where
  "node_with P R bind body sw =
     (case node_start P R bind sw of
        (Inl e, sw1) \<Rightarrow> (Inl e, sw1)
      | (Inr _, sw1) \<Rightarrow>
         (case body sw1 of
            (r, sw2) \<Rightarrow>
              (case node_stop P sw2 of (Inl e, sw3) \<Rightarrow> (Inl e, sw3) | (Inr _, sw3) \<Rightarrow> (r, sw3))))"

definition async_node_with :: "'w pool_ops \<Rightarrow> resolver \<Rightarrow> unit res \<Rightarrow> start_event list \<Rightarrow> nat list
    \<Rightarrow> (StorageNode \<times> 'w \<Rightarrow> 'r res \<times> StorageNode \<times> 'w) \<Rightarrow> StorageNode \<times> 'w \<Rightarrow> 'r res \<times> StorageNode \<times> 'w" where
  "async_node_with P R bind events sched body sw =
     (case async_node_start P R bind events sw of
        (Inl e, sw1) \<Rightarrow> (Inl e, sw1)
      | (Inr _, sw1) \<Rightarrow> (case body sw1 of (r, sw2) \<Rightarrow> (r, async_node_stop P sched sw2)))"

section \<open>Lemmas\<close>

fun handle_all :: "(nat \<Rightarrow> Message \<Rightarrow> 'x \<Rightarrow> Message res \<times> 'x) \<Rightarrow> nat \<Rightarrow> Message list \<Rightarrow> 'x \<Rightarrow> Message list res \<times> 'x" where
  "handle_all handle i [] x = (Inr [], x)"
| "handle_all handle i (m # ms) x =
     (case handle i m x of
        (Inl e, x1) \<Rightarrow> (Inl e, x1)
      | (Inr r, x1) \<Rightarrow>
         (case handle_all handle (Suc i) ms x1 of
            (Inl e, x2) \<Rightarrow> (Inl e, x2)
          | (Inr rs, x2) \<Rightarrow> (Inr (r # rs), x2)))"

context byte_source
begin

lemma client_loop_replies:
  assumes "bytes_of s = concat (map (\<lambda>d. be_bytes HEADER_SIZE (length d) @ d) ds) @ rest"
    and "list_all2 (\<lambda>d m. loads d = Inr m \<and> length d < 2 ^ 32) ds ms"
    and "handle_all handle i ms x = (Inr rs, x')" and "map (send_message dumps) rs = map Inr outs"
    and "\<forall>j. sends j"
  shows "\<exists>s'. client_loop (recv_message_with rd loads) handle dumps sends i (length ms) (s, x) = (outs, True, s', x')
    \<and> bytes_of s' = rest"
  using assms(1-4)
proof (induction ms arbitrary: ds s i x rs outs)
  case Nil
  then show ?case by auto
next
  case (Cons m ms)
  let ?frames = "\<lambda>ds. concat (map (\<lambda>d. be_bytes HEADER_SIZE (length d) @ d) ds)"
  obtain d ds' where ds: "ds = d # ds'" "loads d = Inr m" "length d < 2 ^ 32"
      "list_all2 (\<lambda>d m. loads d = Inr m \<and> length d < 2 ^ 32) ds' ms"
    using Cons.prems(2) by (auto simp: list_all2_Cons2)
  obtain r x1 rs' where rs: "handle i m x = (Inr r, x1)" "handle_all handle (Suc i) ms x1 = (Inr rs', x')" "rs = r # rs'"
    using Cons.prems(3) by (auto split: prod.splits sum.splits)
  obtain out outs' where outs: "outs = out # outs'" "send_message dumps r = Inr out"
      "map (send_message dumps) rs' = map Inr outs'"
    using Cons.prems(4) rs(3) by (cases outs) auto
  obtain s1 where s1: "recv_message_with rd loads s = (Inr m, s1)" "bytes_of s1 = ?frames ds' @ rest"
    using recv_frame [of s d "?frames ds' @ rest" loads] Cons.prems(1) ds(1-3) by auto
  obtain s' where "client_loop (recv_message_with rd loads) handle dumps sends (Suc i) (length ms) (s1, x1)
      = (outs', True, s', x')" "bytes_of s' = rest"
    using Cons.IH [OF s1(2) ds(4) rs(2) outs(3)] by blast
  then show ?case using s1(1) rs(1) outs(1,2) assms(5) [rule_format, of i] by simp
qed

end

lemma decode_get_reply:
  "decode_versioned (Some (get_reply key v)) = Inr (case v of
      Some (_, t, True) \<Rightarrow> if t > 0 then Some (PNone, t, True) else None
    | Some (x, t, False) \<Rightarrow> Some (x, t, False) | None \<Rightarrow> None)"
  by (auto simp: decode_versioned_def get_reply_def split: option.splits bool.splits)

text \<open>When neither task gets a turn, \<open>start\<close> is its announcement.\<close>

lemma gather_run_world: "snd (gather_run sched tasks rs w) = fold (\<lambda>i w. snd ((tasks ! i) w)) sched w"
  by (induction sched arbitrary: rs w) (simp_all add: case_prod_beta)

lemma announcements_world:
  "fold (start_event_step P targets) (map Announce sched) (s, w) =
    (s, fold (\<lambda>i w. snd (p_exec P (host (targets ! i)) (port (targets ! i)) (join_message (sn_info s)) w)) sched w)"
  by (induction sched arbitrary: w) simp_all

lemma async_start_announces:
  assumes "async_node_open R bind s = (Inr (), s1)" and "schedule (length (announce_targets s1)) sched"
  shows "async_node_start P R bind (map Announce sched) (s, w) =
    (Inr (), s1, async_announce_join P sched (sn_gossip s1) w)"
proof -
  have "set sched \<subseteq> {0..<length (announce_targets s1)}" using assms(2) by (simp add: schedule_def)
  then show ?thesis
    using assms(1) by (auto simp: async_node_start_def announcements_world async_announce_join_def async_broadcast_def
        gather_def gather_run_world announce_targets_def intro!: fold_cong)
qed

lemma node_start_spec:
  assumes "get_peers R (g_disc (sn_gossip s)) = Inr peers"
  shows "\<exists>s' ns. members (sn_gossip s') = members (sn_gossip s) \<union> set peers \<union> {sn_info s}
      \<and> set ns = members (sn_gossip s') - {sn_info s} \<and> (gossip_wf (sn_gossip s) \<longrightarrow> distinct ns)
      \<and> sn_store s' = sn_store s \<and> sn_info s' = sn_info s
      \<and> node_start P R (Inr ()) (s, w) =
          (fst (broadcast_to P (join_message (sn_info s)) ns w), s', snd (broadcast_to P (join_message (sn_info s)) ns w))
      \<and> fst (async_node_start P R (Inr ()) (map Announce sched) (s, w)) = Inr ()
      \<and> fst (snd (async_node_start P R (Inr ()) (map Announce sched) (s, w))) = s'"
proof -
  let ?ring = "rr_add (sn_info s) (fold rr_add peers (sn_ring s))"
  let ?s = "s\<lparr>sn_gossip := (sn_gossip s)\<lparr>g_ring := ?ring\<rparr>\<rparr>"
  let ?ns = "filter (\<lambda>n. n \<noteq> sn_info s) (rr_nodes ?ring)"
  have fold: "set (rr_nodes (fold rr_add ps r)) = set (rr_nodes r) \<union> set ps \<and> (rr_wf r \<longrightarrow> rr_wf (fold rr_add ps r))" for ps r
    by (induction ps arbitrary: r) (auto simp: rr_add_def rr_wf_def)
  have mem: "members (sn_gossip ?s) = members (sn_gossip s) \<union> set peers \<union> {sn_info s}"
    using fold [of peers "sn_ring s"] by (auto simp: members_def rr_add_def)
  have dist: "gossip_wf (sn_gossip s) \<longrightarrow> distinct ?ns"
    using fold [of peers "sn_ring s"] by (auto simp: gossip_wf_def rr_wf_def rr_add_def)
  have set_ns: "set ?ns = members (sn_gossip ?s) - {sn_info s}" by (auto simp: members_def)
  have start: "node_start P R (Inr ()) (s, w) = (fst (broadcast_to P (join_message (sn_info s)) ?ns w), ?s,
      snd (broadcast_to P (join_message (sn_info s)) ?ns w))"
    using assms
    by (simp add: node_start_def node_bootstrap_def node_join_ring_def announce_join_def broadcast_def case_prod_beta)
  have async: "fst (async_node_start P R (Inr ()) (map Announce sched) (s, w)) = Inr ()"
      "fst (snd (async_node_start P R (Inr ()) (map Announce sched) (s, w))) = ?s"
    using assms by (simp_all add: async_node_start_def async_node_open_def async_node_bootstrap_def node_bootstrap_def node_join_ring_def
        announcements_world)
  show ?thesis
    by (intro exI [of _ ?s] exI [of _ ?ns] conjI mem set_ns dist start async) simp_all
qed

section \<open>Properties\<close>

text \<open>C15.
  The server of a connection, blocking or asyncio, answers the requests of a client one by one: when the
  client's messages arrive, in whatever chunks, and each is handled without an exception, the bytes sent
  back are the replies of the handlers, in the order of the requests and nothing else, the node's state is
  the one after all of them, and the connection stays open with what follows still unread.
\<close>

theorem server_replies_in_order:
  assumes "\<forall>m \<in> set ms. loads (cdumps m) = Inr m" and "send_many cdumps ms = Inr bs"
    and "avail st = bs @ rest" and "buf @ avail st' = bs @ rest"
    and "handle_all (\<lambda>i. node_handle P (clock i)) 0 ms sw = (Inr rs, sw')"
    and "map (send_message dumps) rs = map Inr outs" and "\<forall>j. sends j"
  shows "(\<exists>st1. handle_client P clock dumps loads sends (length ms) (st, sw) = (outs, True, st1, sw')
       \<and> avail st1 = rest)
    \<and> (\<exists>buf1 st1. async_handle_client P clock dumps loads sends (length ms) ((buf, st'), sw)
         = (outs, True, (buf1, st1), sw') \<and> buf1 @ avail st1 = rest)"
proof -
  have bs: "bs = concat (map (\<lambda>d. be_bytes HEADER_SIZE (length d) @ d) (map cdumps ms))"
    and len: "\<forall>m \<in> set ms. length (cdumps m) < 2 ^ 32"
    using send_many_frames [OF assms(2)] by auto
  have all2: "list_all2 (\<lambda>d m. loads d = Inr m \<and> length d < 2 ^ 32) (map cdumps ms) ms"
    using assms(1) len by (auto simp: list_all2_map1 intro: list.rel_refl_strong)
  have s: "avail st = concat (map (\<lambda>d. be_bytes HEADER_SIZE (length d) @ d) (map cdumps ms)) @ rest"
    and a: "(case (buf, st') of (buf, st) \<Rightarrow> buf @ avail st)
      = concat (map (\<lambda>d. be_bytes HEADER_SIZE (length d) @ d) (map cdumps ms)) @ rest"
    using assms(3,4) bs by simp_all
  show ?thesis
    using sync_source.client_loop_replies [OF s all2 assms(5,6,7)]
      async_source.client_loop_replies [OF a all2 assms(5,6,7)]
    by (auto simp: handle_client_def async_handle_client_def recv_message_def recv_message_async_def)
qed

definition demo_server :: StorageNode where
  "demo_server = \<lparr>sn_gossip = demo_gossip 1 [1], sn_store = lww_init, sn_replication = 2\<rparr>"

lemma server_replies_in_order_witness:
  "fst (handle_client dead_pool (\<lambda>i. (0, 0)) toy_dumps toy_loads (\<lambda>i. True) 1
      ([Data [0, 0, 0], Data [1, 7]], demo_server, ())) = [[0, 0, 0, 2, 9, 9]]"
proof -
  let ?pong = "message PONG (PDict [(''node'', node_to_dict (demo_node 1))])"
  have loads: "\<forall>m \<in> set [message PING PNone]. toy_loads (toy_dumps m) = Inr m"
    by (simp add: toy_loads_def toy_dumps_def)
  have send: "send_many toy_dumps [message PING PNone] = Inr [0, 0, 0, 1, 7]" by (simp add: toy_sends)
  have handled: "handle_all (\<lambda>i. node_handle dead_pool (0, 0)) 0 [message PING PNone] (demo_server, ())
      = (Inr [?pong], (demo_server, ()))"
    by (simp add: node_handle_def handle_message_def is_gossip_def demo_server_def demo_gossip_def)
  have reply: "map (send_message toy_dumps) [?pong] = map Inr [[0, 0, 0, 2, 9, 9]]"
    by (auto simp: send_message_Inr toy_dumps_def header_size_Suc)
  from server_replies_in_order [OF loads send _ _ handled reply, of "[Data [0, 0, 0], Data [1, 7]]" "[]"
      "[0, 0, 0, 1, 7]" "[]" "\<lambda>i. True"]
  show ?thesis by auto
qed

text \<open>
  A started node's ring holds the peers its discovery returned, whatever was in the ring before, and the
  node itself, and the announcement goes once to every other member; when discovery raises, the node and
  its peers are as they were. The asyncio node ends with the same ring when its tasks
  get no turn before \<open>start\<close> returns.
\<close>

theorem node_start_members:
  assumes "get_peers R (g_disc (sn_gossip s)) = Inr peers"
  shows "\<exists>s' ns. members (sn_gossip s') = members (sn_gossip s) \<union> set peers \<union> {sn_info s}
      \<and> set ns = members (sn_gossip s') - {sn_info s} \<and> (gossip_wf (sn_gossip s) \<longrightarrow> distinct ns)
      \<and> sn_store s' = sn_store s \<and> sn_info s' = sn_info s
      \<and> node_start P R (Inr ()) (s, w) =
          (fst (broadcast_to P (join_message (sn_info s)) ns w), s', snd (broadcast_to P (join_message (sn_info s)) ns w))
      \<and> fst (async_node_start P R (Inr ()) (map Announce sched) (s, w)) = Inr ()
      \<and> fst (snd (async_node_start P R (Inr ()) (map Announce sched) (s, w))) = s'"
  using assms by (rule node_start_spec)

lemma node_start_members_witness:
  "members (sn_gossip (fst (snd (node_start dead_pool \<lparr>getaddrinfo = \<lambda>h p. Inl OSError, srv = \<lambda>n. Inl OSError\<rparr> (Inr ())
      (demo_server\<lparr>sn_gossip := (demo_gossip 1 [])\<lparr>g_disc := StaticDiscovery [demo_node 2]\<rparr>\<rparr>, ())))))
     = {demo_node 1, demo_node 2}"
proof -
  let ?s = "demo_server\<lparr>sn_gossip := (demo_gossip 1 [])\<lparr>g_disc := StaticDiscovery [demo_node 2]\<rparr>\<rparr>"
  let ?R = "\<lparr>getaddrinfo = \<lambda>h p. Inl OSError, srv = \<lambda>n. Inl OSError\<rparr>"
  have "get_peers ?R (g_disc (sn_gossip ?s)) = Inr [demo_node 2]" by simp
  from node_start_members [OF this, of dead_pool "()" "[]"] obtain s' ns where
      "members (sn_gossip s') = members (sn_gossip ?s) \<union> set [demo_node 2] \<union> {sn_info ?s}"
      "node_start dead_pool ?R (Inr ()) (?s, ()) = (fst (broadcast_to dead_pool (join_message (sn_info ?s)) ns ()), s',
        snd (broadcast_to dead_pool (join_message (sn_info ?s)) ns ()))"
    by blast
  moreover from this(1) have "members (sn_gossip s') = {demo_node 1, demo_node 2}"
    by (simp add: members_def demo_gossip_def insert_commute)
  ultimately show ?thesis by simp
qed

end
