(* ===== verification/Cluster.thy ===== *)
theory Cluster
  imports Node Lww_Convergence
begin

text \<open>
  A cluster: the nodes that run, their clocks and the links between them, and a pool that delivers
  a request to the \<open>node_handle\<close> of the addressed node. It closes the model: the reads and
  writes of one node are run against the stores of the others, with nodes that are down, links that
  fail before the request arrives and replies that get lost. Pools that reach a peer behave so; what
  they do on the way (reuse, framing) is in the theories of the pools.
\<close>

section \<open>Nodes and links\<close>

datatype link = Up | Unreachable | ReplyLost

type_synonym cluster = "NodeInfo \<Rightarrow> StorageNode option"

record env =
  e_link :: "NodeInfo \<Rightarrow> NodeInfo \<Rightarrow> link"
  e_now :: "NodeInfo \<Rightarrow> rat"
  e_wall :: "NodeInfo \<Rightarrow> int"

text \<open>The pool of a node that serves a request: it sends nothing while it does.\<close>

definition idle_pool :: "unit pool_ops" where
  "idle_pool = \<lparr>p_exec = \<lambda>h p m w. (Inr None, w), p_close_peer = \<lambda>h p w. w, p_close_all = \<lambda>w. w\<rparr>"

text \<open>An exception in the handler closes the connection: the sender sees no reply.\<close>

definition cluster_exec :: "env \<Rightarrow> NodeInfo \<Rightarrow> string \<Rightarrow> int \<Rightarrow> Message \<Rightarrow> cluster \<Rightarrow> Message option res \<times> cluster" where
  "cluster_exec E a h p msg W =
     (let b = \<lparr>host = h, port = p\<rparr>
      in case W b of
           None \<Rightarrow> (Inr None, W)
         | Some s \<Rightarrow>
            if e_link E a b = Unreachable then (Inr None, W)
            else (case node_handle idle_pool (e_now E b, e_wall E b) msg (s, ()) of
                    (r, s', _) \<Rightarrow>
                      (Inr (case r of Inl e \<Rightarrow> None
                            | Inr resp \<Rightarrow> if e_link E a b = Up then Some resp else None),
                       W(b \<mapsto> s'))))"

definition cluster_pool :: "env \<Rightarrow> NodeInfo \<Rightarrow> cluster pool_ops" where
  "cluster_pool E a =
     \<lparr>p_exec = cluster_exec E a, p_close_peer = \<lambda>h p W. W, p_close_all = \<lambda>W. W\<rparr>"

text \<open>Node \<open>a\<close> runs an operation on its own state and, through its pool, on the others.\<close>

definition at_node :: "NodeInfo \<Rightarrow> (StorageNode \<times> cluster \<Rightarrow> 'r \<times> StorageNode \<times> cluster) \<Rightarrow> cluster
    \<Rightarrow> 'r option \<times> cluster" where
  "at_node a f W =
     (case W a of
        None \<Rightarrow> (None, W)
      | Some s \<Rightarrow> (case f (s, W(a := None)) of (r, s', W') \<Rightarrow> (Some r, W'(a \<mapsto> s'))))"

definition cluster_get where
  "cluster_get E sha a key W = at_node a (node_get (cluster_pool E a) sha lww_read_resolve (e_now E a) key) W"

definition cluster_async_get where
  "cluster_async_get E sha sched a key W =
     at_node a (async_node_get (cluster_pool E a) sha (async_lww_read_resolve sched) (e_now E a) key) W"

definition cluster_set where
  "cluster_set E sha a ts key v ttl W =
     at_node a (node_set (cluster_pool E a) sha (e_now E a) (e_wall E a) ts key v ttl) W"

definition cluster_async_set where
  "cluster_async_set E sha sched a ts key v ttl W =
     at_node a (async_node_set (cluster_pool E a) sha sched (e_now E a) (e_wall E a) ts key v ttl) W"

definition cluster_delete where
  "cluster_delete E sha a ts key W = at_node a (node_delete (cluster_pool E a) sha (e_wall E a) ts key) W"

section \<open>Reading a replica\<close>

definition visible :: "env \<Rightarrow> NodeInfo \<Rightarrow> string \<Rightarrow> cluster \<Rightarrow> NodeInfo \<Rightarrow> versioned option" where
  "visible E a key W n =
     (case W n of
        None \<Rightarrow> None
      | Some s \<Rightarrow>
          if n = a then lww_version (e_now E n) (sn_store s) key
          else if e_link E a n = Up
          then (case lww_version (e_now E n) (sn_store s) key of
                  Some (_, t, True) \<Rightarrow> if t > 0 then Some (PNone, t, True) else None
                | r \<Rightarrow> r)
          else None)"

definition handle_for :: "NodeInfo \<Rightarrow> NodeInfo \<Rightarrow> Handle" where
  "handle_for a n = (if n = a then LocalHandle else RemoteHandle (host n) (port n))"

lemma make_handles_for: "sn_info s = a \<Longrightarrow> make_handles s ns = map (handle_for a) ns"
  by (simp add: make_handles_def handle_for_def)

lemma node_rebuild [simp]: "\<lparr>host = host n, port = port n\<rparr> = (n :: NodeInfo)"
  by simp

section \<open>One call on one replica\<close>

text \<open>
  The effect of a call on the replicas in \<open>N\<close>: the store of each one that runs and that the
  request reaches is changed by \<open>F\<close>.
\<close>

definition upd_stores :: "env \<Rightarrow> NodeInfo \<Rightarrow> (NodeInfo \<Rightarrow> LocalLWWStore \<Rightarrow> LocalLWWStore) \<Rightarrow> NodeInfo set
    \<Rightarrow> cluster \<Rightarrow> cluster" where
  "upd_stores E a F N W =
     (\<lambda>n. if n \<in> N \<and> (n = a \<or> e_link E a n \<noteq> Unreachable)
          then map_option (\<lambda>s. s\<lparr>sn_store := F n (sn_store s)\<rparr>) (W n) else W n)"

lemma upd_stores_empty [simp]: "upd_stores E a F {} W = W"
  by (simp add: upd_stores_def)

lemma upd_stores_insert:
  "n \<notin> N \<Longrightarrow> upd_stores E a F {n} (upd_stores E a F N W) = upd_stores E a F (insert n N) W"
  by (auto simp: upd_stores_def fun_eq_iff)

lemma upd_stores_other: "n \<notin> N \<Longrightarrow> upd_stores E a F N W n = W n"
  by (simp add: upd_stores_def)

text \<open>The answer of a remote replica, \<open>reply\<close> of its store, when it comes through.\<close>

definition answer_from :: "env \<Rightarrow> NodeInfo \<Rightarrow> (LocalLWWStore \<Rightarrow> Message) \<Rightarrow> cluster \<Rightarrow> NodeInfo \<Rightarrow> Message option" where
  "answer_from E a reply W n =
     (case W n of None \<Rightarrow> None | Some s \<Rightarrow> if e_link E a n = Up then Some (reply (sn_store s)) else None)"

lemma cluster_exec_replica:
  assumes "\<not> is_gossip (mtype msg)" and "n \<noteq> a" and "w a = None"
    and "\<And>st. dispatch (e_now E n) (e_wall E n) msg st = (Inr (reply st), F n st)"
  shows "\<exists>w'. cluster_exec E a (host n) (port n) msg w = (Inr (answer_from E a reply (w(a \<mapsto> s)) n), w')
    \<and> w'(a \<mapsto> s) = upd_stores E a F {n} (w(a \<mapsto> s)) \<and> w' a = None"
proof (cases "w n")
  case None
  then show ?thesis using assms(2,3)
    by (auto simp: cluster_exec_def answer_from_def upd_stores_def fun_eq_iff)
next
  case (Some sn)
  show ?thesis
  proof (cases "e_link E a n = Unreachable")
    case True
    then show ?thesis using Some assms(2,3)
      by (auto simp: cluster_exec_def answer_from_def upd_stores_def fun_eq_iff)
  next
    case False
    have "cluster_exec E a (host n) (port n) msg w
        = (Inr (answer_from E a reply (w(a \<mapsto> s)) n), w(n \<mapsto> sn\<lparr>sn_store := F n (sn_store sn)\<rparr>))"
      using False Some assms(1,2,4) by (simp add: cluster_exec_def node_handle_def answer_from_def)
    moreover have "(w(n \<mapsto> sn\<lparr>sn_store := F n (sn_store sn)\<rparr>))(a \<mapsto> s) = upd_stores E a F {n} (w(a \<mapsto> s))"
      using False Some assms(2) by (auto simp: upd_stores_def fun_eq_iff)
    ultimately show ?thesis using assms(2,3) by simp
  qed
qed

lemma dispatch_replica:
  "dispatch now wall (get_request key) st =
     (Inr (get_reply key (lww_version now st key)), snd (lww_get_versioned now key st))"
  "dispatch now wall (set_request key v ttl ts) st =
     (Inr (message OK (PDict [(''key'', PStr key)])), snd (lww_set now wall key v ttl (Some ts) st))"
  "dispatch now wall (delete_request key ts) st =
     (Inr (message (if fst (lww_delete wall key (Some ts) st) then OK else NOT_FOUND) (PDict [(''key'', PStr key)])),
      snd (lww_delete wall key (Some ts) st))"
  by (simp_all add: dispatch_def lww.dispatch_get lww.dispatch_set lww.dispatch_delete)

lemma requests_not_gossip [simp]:
  "\<not> is_gossip GET" "\<not> is_gossip SET" "\<not> is_gossip DELETE"
  by (simp_all add: is_gossip_def)

definition get_effect :: "env \<Rightarrow> string \<Rightarrow> NodeInfo \<Rightarrow> LocalLWWStore \<Rightarrow> LocalLWWStore" where
  "get_effect E key n st = snd (lww_get_versioned (e_now E n) key st)"

definition set_effect :: "env \<Rightarrow> string \<Rightarrow> pyval \<Rightarrow> rat option \<Rightarrow> int \<Rightarrow> NodeInfo \<Rightarrow> LocalLWWStore \<Rightarrow> LocalLWWStore" where
  "set_effect E key v ttl ts n st = snd (lww_set (e_now E n) (e_wall E n) key v ttl (Some ts) st)"

definition delete_effect :: "env \<Rightarrow> string \<Rightarrow> int \<Rightarrow> NodeInfo \<Rightarrow> LocalLWWStore \<Rightarrow> LocalLWWStore" where
  "delete_effect E key ts n st = snd (lww_delete (e_wall E n) key (Some ts) st)"

text \<open>What the caller counts as the success of a write or a delete on a replica.\<close>

definition set_ack :: "env \<Rightarrow> NodeInfo \<Rightarrow> string \<Rightarrow> int \<Rightarrow> cluster \<Rightarrow> NodeInfo \<Rightarrow> bool" where
  "set_ack E a key ts W n =
     (case W n of
        None \<Rightarrow> False
      | Some s \<Rightarrow> if n = a then supersedes (lww_stamp (sn_store s) key) ts else e_link E a n = Up)"

definition delete_ack :: "env \<Rightarrow> NodeInfo \<Rightarrow> string \<Rightarrow> int \<Rightarrow> cluster \<Rightarrow> NodeInfo \<Rightarrow> bool" where
  "delete_ack E a key ts W n =
     (case W n of
        None \<Rightarrow> False
      | Some s \<Rightarrow> (n = a \<or> e_link E a n = Up) \<and> fst (lww_delete (e_wall E n) key (Some ts) (sn_store s)))"

lemma decode_None: "decode_versioned None = Inr None"
  by (simp add: decode_versioned_def)

lemma read_replica:
  assumes "sn_info s = a" and "w a = None"
  shows "\<exists>s' w'. handle_get_versioned (cluster_pool E a) (e_now E a) (handle_for a n) key (s, w) =
      (Inr (visible E a key (w(a \<mapsto> s)) n), s', w')
    \<and> sn_gossip s' = sn_gossip s \<and> w' a = None \<and> w'(a \<mapsto> s') = upd_stores E a (get_effect E key) {n} (w(a \<mapsto> s))"
proof (cases "n = a")
  case True
  then show ?thesis using assms
    by (cases "lww_get_versioned (e_now E a) key (sn_store s)")
       (auto simp: handle_get_versioned_def handle_for_def visible_def upd_stores_def get_effect_def fun_eq_iff
         simp flip: lww_get_versioned_result)
next
  case False
  let ?reply = "\<lambda>st. get_reply key (lww_version (e_now E n) st key)"
  obtain w' where w': "cluster_exec E a (host n) (port n) (get_request key) w
      = (Inr (answer_from E a ?reply (w(a \<mapsto> s)) n), w')"
      "w'(a \<mapsto> s) = upd_stores E a (get_effect E key) {n} (w(a \<mapsto> s))" "w' a = None"
    using cluster_exec_replica [of "get_request key" n a w E ?reply "get_effect E key" s] False assms(2)
    by (auto simp: dispatch_replica get_effect_def)
  moreover have "decode_versioned (answer_from E a ?reply (w(a \<mapsto> s)) n) = Inr (visible E a key (w(a \<mapsto> s)) n)"
  proof (cases "w n")
    case None
    then show ?thesis using False by (simp add: answer_from_def visible_def decode_None)
  next
    case (Some sn)
    then show ?thesis using False
      by (auto simp: answer_from_def visible_def decode_get_reply decode_None split: option.splits bool.splits)
  qed
  ultimately show ?thesis using False
    by (auto simp: handle_get_versioned_def handle_for_def cluster_pool_def)
qed

lemma set_replica:
  assumes "sn_info s = a" and "w a = None"
  shows "\<exists>s' w'. handle_set (cluster_pool E a) (e_now E a) (e_wall E a) (handle_for a n) key v ttl ts (s, w) =
      (Inr (set_ack E a key ts (w(a \<mapsto> s)) n), s', w')
    \<and> sn_gossip s' = sn_gossip s \<and> w' a = None
    \<and> w'(a \<mapsto> s') = upd_stores E a (set_effect E key v ttl ts) {n} (w(a \<mapsto> s))"
proof (cases "n = a")
  case True
  have "fst (lww_set (e_now E a) (e_wall E a) key v ttl (Some ts) (sn_store s))
      = supersedes (lww_stamp (sn_store s) key) ts"
    by (simp add: lww_set_supersedes write_ts_def)
  with True show ?thesis using assms
    by (cases "lww_set (e_now E a) (e_wall E a) key v ttl (Some ts) (sn_store s)")
       (auto simp: handle_set_def handle_for_def set_ack_def upd_stores_def set_effect_def fun_eq_iff)
next
  case False
  let ?reply = "\<lambda>st. message OK (PDict [(''key'', PStr key)])"
  obtain w' where w': "cluster_exec E a (host n) (port n) (set_request key v ttl ts) w
      = (Inr (answer_from E a ?reply (w(a \<mapsto> s)) n), w')"
      "w'(a \<mapsto> s) = upd_stores E a (set_effect E key v ttl ts) {n} (w(a \<mapsto> s))" "w' a = None"
    using cluster_exec_replica [of "set_request key v ttl ts" n a w E ?reply "set_effect E key v ttl ts" s]
      False assms(2) by (auto simp: dispatch_replica set_effect_def)
  moreover have "acked (answer_from E a ?reply (w(a \<mapsto> s)) n) = set_ack E a key ts (w(a \<mapsto> s)) n"
    using False by (auto simp: acked_def answer_from_def set_ack_def split: option.splits)
  ultimately show ?thesis using False
    by (auto simp: handle_set_def handle_for_def cluster_pool_def)
qed

lemma delete_replica:
  assumes "sn_info s = a" and "w a = None"
  shows "\<exists>s' w'. handle_delete (cluster_pool E a) (e_wall E a) (handle_for a n) key ts (s, w) =
      (Inr (delete_ack E a key ts (w(a \<mapsto> s)) n), s', w')
    \<and> sn_gossip s' = sn_gossip s \<and> w' a = None
    \<and> w'(a \<mapsto> s') = upd_stores E a (delete_effect E key ts) {n} (w(a \<mapsto> s))"
proof (cases "n = a")
  case True
  then show ?thesis using assms
    by (cases "lww_delete (e_wall E a) key (Some ts) (sn_store s)")
       (auto simp: handle_delete_def handle_for_def delete_ack_def upd_stores_def delete_effect_def fun_eq_iff)
next
  case False
  let ?reply = "\<lambda>st. message (if fst (lww_delete (e_wall E n) key (Some ts) st) then OK else NOT_FOUND)
      (PDict [(''key'', PStr key)])"
  obtain w' where w': "cluster_exec E a (host n) (port n) (delete_request key ts) w
      = (Inr (answer_from E a ?reply (w(a \<mapsto> s)) n), w')"
      "w'(a \<mapsto> s) = upd_stores E a (delete_effect E key ts) {n} (w(a \<mapsto> s))" "w' a = None"
    using cluster_exec_replica [of "delete_request key ts" n a w E ?reply "delete_effect E key ts" s]
      False assms(2) by (auto simp: dispatch_replica delete_effect_def)
  moreover have "acked (answer_from E a ?reply (w(a \<mapsto> s)) n) = delete_ack E a key ts (w(a \<mapsto> s)) n"
    using False by (auto simp: acked_def answer_from_def delete_ack_def split: option.splits)
  ultimately show ?thesis using False
    by (auto simp: handle_delete_def handle_for_def cluster_pool_def)
qed

section \<open>Calls on several replicas\<close>

text \<open>
  A call whose result depends on the replica's store only and whose effect is \<open>F\<close> on it; calls
  on different replicas do not interfere, in whichever order they run.
\<close>

definition replica_call :: "env \<Rightarrow> NodeInfo \<Rightarrow> (NodeInfo \<Rightarrow> StorageNode \<times> cluster \<Rightarrow> 'r \<times> StorageNode \<times> cluster)
    \<Rightarrow> (NodeInfo \<Rightarrow> LocalLWWStore \<Rightarrow> LocalLWWStore) \<Rightarrow> (cluster \<Rightarrow> NodeInfo \<Rightarrow> 'r) \<Rightarrow> bool" where
  "replica_call E a call F R \<longleftrightarrow>
     (\<forall>W W' n. W n = W' n \<longrightarrow> R W n = R W' n)
     \<and> (\<forall>s w n. sn_info s = a \<longrightarrow> w a = None \<longrightarrow>
          (\<exists>s' w'. call n (s, w) = (R (w(a \<mapsto> s)) n, s', w') \<and> sn_gossip s' = sn_gossip s \<and> w' a = None
             \<and> w'(a \<mapsto> s') = upd_stores E a F {n} (w(a \<mapsto> s))))"

lemma replica_call_local: "replica_call E a call F R \<Longrightarrow> W n = W' n \<Longrightarrow> R W n = R W' n"
  unfolding replica_call_def by blast

lemma upd_stores_append:
  "N \<inter> M = {} \<Longrightarrow> upd_stores E a F N (upd_stores E a F M W) = upd_stores E a F (N \<union> M) W"
  by (auto simp: upd_stores_def fun_eq_iff)

lemma run_each_replicas:
  assumes "replica_call E a call F (\<lambda>W n. Inr (R W n))" and "distinct ns" and "sn_info s = a" and "w a = None"
  shows "\<exists>s' w'. run_each (map call ns) (s, w) = (Inr (map (R (w(a \<mapsto> s))) ns), s', w')
    \<and> sn_gossip s' = sn_gossip s \<and> w' a = None \<and> w'(a \<mapsto> s') = upd_stores E a F (set ns) (w(a \<mapsto> s))"
  using assms(2-4)
proof (induction ns arbitrary: s w)
  case (Cons n ns)
  obtain s1 w1 where c1: "call n (s, w) = (Inr (R (w(a \<mapsto> s)) n), s1, w1)" "sn_gossip s1 = sn_gossip s"
      "w1 a = None" "w1(a \<mapsto> s1) = upd_stores E a F {n} (w(a \<mapsto> s))"
    using assms(1) Cons.prems(2,3) unfolding replica_call_def by blast
  have "distinct ns" "sn_info s1 = a" using c1(2) Cons.prems(1,2) by simp_all
  from Cons.IH [of s1 w1, OF this c1(3)] obtain s2 w2 where c2:
      "run_each (map call ns) (s1, w1) = (Inr (map (R (w1(a \<mapsto> s1))) ns), s2, w2)"
      "sn_gossip s2 = sn_gossip s1" "w2 a = None" "w2(a \<mapsto> s2) = upd_stores E a F (set ns) (w1(a \<mapsto> s1))"
    by blast
  have "R (w1(a \<mapsto> s1)) m = R (w(a \<mapsto> s)) m" if "m \<in> set ns" for m
  proof -
    have "(w1(a \<mapsto> s1)) m = (w(a \<mapsto> s)) m"
      unfolding c1(4) using that Cons.prems(1) by (intro upd_stores_other) auto
    with replica_call_local [OF assms(1), of "w1(a \<mapsto> s1)" m "w(a \<mapsto> s)"] show ?thesis by simp
  qed
  then have "map (R (w1(a \<mapsto> s1))) ns = map (R (w(a \<mapsto> s))) ns" by simp
  moreover have "w2(a \<mapsto> s2) = upd_stores E a F (set (n # ns)) (w(a \<mapsto> s))"
    unfolding c2(4) c1(4) using Cons.prems(1) upd_stores_append [of "set ns" "{n}"] by simp
  ultimately show ?case using c1(1,2) c2(1-3) by (simp del: fun_upd_apply)
qed simp

lemma gather_run_replicas:
  assumes "replica_call E a call F R" and "distinct ns" and "sn_info s = a" and "w a = None"
    and "distinct is" and "set is \<subseteq> {0..<length ns}" and "length rs = length ns"
  shows "\<exists>s' w'. gather_run is (map call ns) rs (s, w)
      = (map (\<lambda>j. if j \<in> set is then Some (R (w(a \<mapsto> s)) (ns ! j)) else rs ! j) [0..<length ns], s', w')
    \<and> sn_gossip s' = sn_gossip s \<and> w' a = None
    \<and> w'(a \<mapsto> s') = upd_stores E a F ((!) ns ` set is) (w(a \<mapsto> s))"
  using assms(3-)
proof (induction "is" arbitrary: s w rs)
  case Nil
  then have "map (\<lambda>j. rs ! j) [0..<length ns] = rs" by (metis map_nth)
  with Nil show ?case by simp
next
  case (Cons i "is")
  let ?W = "w(a \<mapsto> s)"
  obtain s1 w1 where c1: "call (ns ! i) (s, w) = (R ?W (ns ! i), s1, w1)" "sn_gossip s1 = sn_gossip s"
      "w1 a = None" "w1(a \<mapsto> s1) = upd_stores E a F {ns ! i} ?W"
    using assms(1) Cons.prems(1,2) unfolding replica_call_def by blast
  have i: "i < length ns" "i \<notin> set is" using Cons.prems by auto
  have prems: "sn_info s1 = a" "distinct is" "set is \<subseteq> {0..<length ns}"
      "length (rs[i := Some (R ?W (ns ! i))]) = length ns"
    using c1(2) Cons.prems by simp_all
  from Cons.IH [of s1 w1, OF prems(1) c1(3) prems(2-4)] obtain s2 w2 where c2:
      "gather_run is (map call ns) (rs[i := Some (R ?W (ns ! i))]) (s1, w1)
        = (map (\<lambda>j. if j \<in> set is then Some (R (w1(a \<mapsto> s1)) (ns ! j))
             else rs[i := Some (R ?W (ns ! i))] ! j) [0..<length ns], s2, w2)"
      "sn_gossip s2 = sn_gossip s1" "w2 a = None"
      "w2(a \<mapsto> s2) = upd_stores E a F ((!) ns ` set is) (w1(a \<mapsto> s1))"
    by blast
  have fresh: "ns ! j \<noteq> ns ! i" if "j \<in> set is" for j
    using that i assms(2) Cons.prems(4) by (auto simp: nth_eq_iff_index_eq)
  have "R (w1(a \<mapsto> s1)) (ns ! j) = R ?W (ns ! j)" if "j \<in> set is" for j
  proof -
    have "(w1(a \<mapsto> s1)) (ns ! j) = ?W (ns ! j)"
      unfolding c1(4) using fresh [OF that] by (intro upd_stores_other) simp
    with replica_call_local [OF assms(1), of "w1(a \<mapsto> s1)" "ns ! j" ?W] show ?thesis by simp
  qed
  then have "map (\<lambda>j. if j \<in> set is then Some (R (w1(a \<mapsto> s1)) (ns ! j))
        else rs[i := Some (R ?W (ns ! i))] ! j) [0..<length ns]
      = map (\<lambda>j. if j \<in> set (i # is) then Some (R ?W (ns ! j)) else rs ! j) [0..<length ns]"
    using i Cons.prems(5) by (auto simp: nth_list_update)
  moreover have "w2(a \<mapsto> s2) = upd_stores E a F ((!) ns ` set (i # is)) ?W"
  proof -
    have "ns ! i \<notin> (!) ns ` set is" using fresh by (metis image_iff)
    then show ?thesis unfolding c2(4) c1(4) using upd_stores_append [of "(!) ns ` set is" "{ns ! i}"] by simp
  qed
  ultimately show ?case using c1(1,2) c2(1-3) i by (simp del: fun_upd_apply)
qed

lemma gather_replicas:
  assumes "replica_call E a call F R" and "distinct ns" and "sn_info s = a" and "w a = None"
    and "schedule (length ns) sched"
  shows "\<exists>s' w'. gather sched (map call ns) (s, w) = (map (\<lambda>n. Some (R (w(a \<mapsto> s)) n)) ns, s', w')
    \<and> sn_gossip s' = sn_gossip s \<and> w' a = None \<and> w'(a \<mapsto> s') = upd_stores E a F (set ns) (w(a \<mapsto> s))"
proof -
  have sched: "distinct sched" "set sched = {0..<length ns}" using assms(5) by (auto simp: schedule_def)
  have img: "(!) ns ` set sched = set ns" unfolding sched(2) using nth_image [of "length ns" ns] by simp
  have "map (\<lambda>j. if j \<in> set sched then Some (R (w(a \<mapsto> s)) (ns ! j)) else replicate (length ns) None ! j)
      [0..<length ns] = map (\<lambda>n. Some (R (w(a \<mapsto> s)) n)) ns"
    by (rule nth_equalityI) (auto simp: sched)
  then show ?thesis
    using gather_run_replicas [where R = R and call = call and w = w, OF assms(1-4) sched(1), of "replicate (length ns) None"] sched(2) img
    by (auto simp: gather_def)
qed

section \<open>Cluster operations as updates of the replicas\<close>

lemma set_ack_local: "W n = W' n \<Longrightarrow> set_ack E a key ts W n = set_ack E a key ts W' n"
  by (simp add: set_ack_def)

lemma delete_ack_local: "W n = W' n \<Longrightarrow> delete_ack E a key ts W n = delete_ack E a key ts W' n"
  by (simp add: delete_ack_def)

lemma replica_call_set:
  "replica_call E a (\<lambda>n. handle_set (cluster_pool E a) (e_now E a) (e_wall E a) (handle_for a n) key v ttl ts)
     (set_effect E key v ttl ts) (\<lambda>W n. Inr (set_ack E a key ts W n))"
  unfolding replica_call_def using set_replica set_ack_local by blast

lemma replica_call_delete:
  "replica_call E a (\<lambda>n. handle_delete (cluster_pool E a) (e_wall E a) (handle_for a n) key ts)
     (delete_effect E key ts) (\<lambda>W n. Inr (delete_ack E a key ts W n))"
  unfolding replica_call_def using delete_replica delete_ack_local by blast

definition node_ok :: "cluster \<Rightarrow> NodeInfo \<Rightarrow> StorageNode \<Rightarrow> bool" where
  "node_ok W a s \<longleftrightarrow> W a = Some s \<and> sn_info s = a \<and> rr_wf (sn_ring s)"

lemma node_okD: "node_ok W a s \<Longrightarrow> W a = Some s" "node_ok W a s \<Longrightarrow> sn_info s = a"
  by (simp_all add: node_ok_def)

lemma restore_node: "W a = Some s \<Longrightarrow> (W(a := None))(a \<mapsto> s) = W"
  by auto

lemma replica_nodes_distinct: "node_ok W a s \<Longrightarrow> distinct (replica_nodes sha key s)"
  unfolding node_ok_def replica_nodes_def by (intro rr.get_members_distinct) simp

lemma cluster_set_eq:
  assumes "node_ok W a s" and "replica_nodes sha key s \<noteq> []"
  shows "cluster_set E sha a ts key v ttl W =
    (Some (Inr (list_ex (set_ack E a key ts W) (replica_nodes sha key s))),
     upd_stores E a (set_effect E key v ttl ts) (set (replica_nodes sha key s)) W)"
proof -
  have w: "W a = Some s" "sn_info s = a" using node_okD [OF assms(1)] by auto
  obtain s' w' where "run_each (map (\<lambda>n. handle_set (cluster_pool E a) (e_now E a) (e_wall E a) (handle_for a n) key v ttl ts)
      (replica_nodes sha key s)) (s, W(a := None))
      = (Inr (map (set_ack E a key ts W) (replica_nodes sha key s)), s', w')"
      "w'(a \<mapsto> s') = upd_stores E a (set_effect E key v ttl ts) (set (replica_nodes sha key s)) W"
    using run_each_replicas [OF replica_call_set [of E a key v ttl ts] replica_nodes_distinct [OF assms(1), of sha key] w(2), of "W(a := None)"]
      restore_node [of W a s] w(1) by (auto simp del: fun_upd_apply simp add: fun_upd_same)
  then show ?thesis using w assms(2)
    by (simp add: cluster_set_def at_node_def node_set_def make_handles_for comp_def list_ex_iff)
qed

lemma cluster_delete_eq:
  assumes "node_ok W a s" and "replica_nodes sha key s \<noteq> []"
  shows "cluster_delete E sha a ts key W =
    (Some (Inr (list_ex (delete_ack E a key ts W) (replica_nodes sha key s))),
     upd_stores E a (delete_effect E key ts) (set (replica_nodes sha key s)) W)"
proof -
  have w: "W a = Some s" "sn_info s = a" using node_okD [OF assms(1)] by auto
  obtain s' w' where "run_each (map (\<lambda>n. handle_delete (cluster_pool E a) (e_wall E a) (handle_for a n) key ts)
      (replica_nodes sha key s)) (s, W(a := None))
      = (Inr (map (delete_ack E a key ts W) (replica_nodes sha key s)), s', w')"
      "w'(a \<mapsto> s') = upd_stores E a (delete_effect E key ts) (set (replica_nodes sha key s)) W"
    using run_each_replicas [OF replica_call_delete [of E a key ts] replica_nodes_distinct [OF assms(1), of sha key] w(2), of "W(a := None)"]
      restore_node [of W a s] w(1) by (auto simp del: fun_upd_apply simp add: fun_upd_same)
  then show ?thesis using w assms(2)
    by (simp add: cluster_delete_def at_node_def node_delete_def make_handles_for comp_def list_ex_iff)
qed

lemma any_true_acks: "any_true (map (\<lambda>n. Some (Inr (f n))) ns) = list_ex f ns"
  by (induction ns) (simp_all add: any_true_def)

lemma cluster_async_set_eq:
  assumes "node_ok W a s" and "replica_nodes sha key s \<noteq> []"
    and "schedule (length (replica_nodes sha key s)) sched"
  shows "cluster_async_set E sha sched a ts key v ttl W =
    (Some (list_ex (set_ack E a key ts W) (replica_nodes sha key s)),
     upd_stores E a (set_effect E key v ttl ts) (set (replica_nodes sha key s)) W)"
proof -
  have w: "W a = Some s" "sn_info s = a" using node_okD [OF assms(1)] by auto
  obtain s' w' where "gather sched (map (\<lambda>n. handle_set (cluster_pool E a) (e_now E a) (e_wall E a) (handle_for a n) key v ttl ts)
      (replica_nodes sha key s)) (s, W(a := None))
      = (map (\<lambda>n. Some (Inr (set_ack E a key ts W n))) (replica_nodes sha key s), s', w')"
      "w'(a \<mapsto> s') = upd_stores E a (set_effect E key v ttl ts) (set (replica_nodes sha key s)) W"
    using gather_replicas [OF replica_call_set [of E a key v ttl ts] replica_nodes_distinct [OF assms(1), of sha key] w(2) _ assms(3), of "W(a := None)"]
      restore_node [of W a s] w(1) by (auto simp del: fun_upd_apply simp add: fun_upd_same)
  then show ?thesis using w assms(2)
    by (simp add: cluster_async_set_def at_node_def async_node_set_def async_make_handles_def async_handle_set_def
        make_handles_for comp_def any_true_acks)
qed

text \<open>Reads change no version, so every replica's answer is what it was at the start.\<close>

lemma visible_upd_get: "visible E a key (upd_stores E a (get_effect E key) N W) = visible E a key W"
  by (auto simp: visible_def upd_stores_def get_effect_def lww_get_versioned_version fun_eq_iff split: option.splits)

lemma cluster_reads_stable:
  "stable_reads (\<lambda>(s, w). sn_info s = a \<and> w a = None \<and> visible E a key (w(a \<mapsto> s)) = V) key
     (map (handle_get_versioned (cluster_pool E a) (e_now E a)) (map (handle_for a) ns)) (map (Inr \<circ> V) ns)"
proof -
  have "fst (handle_get_versioned (cluster_pool E a) (e_now E a) (handle_for a n) key (s, w)) = Inr (V n)
      \<and> (case snd (handle_get_versioned (cluster_pool E a) (e_now E a) (handle_for a n) key (s, w)) of (s', w') \<Rightarrow>
          sn_info s' = a \<and> w' a = None \<and> visible E a key (w'(a \<mapsto> s')) = V)"
    if "sn_info s = a" "w a = None" "visible E a key (w(a \<mapsto> s)) = V" for n s w
    using read_replica [of s a w E n key] that visible_upd_get by (auto simp del: fun_upd_apply simp add: fun_upd_same)
  then show ?thesis by (auto simp: stable_reads_def)
qed

lemma cluster_get_value:
  assumes "node_ok W a s" and "replica_nodes sha key s \<noteq> []"
  shows "fst (cluster_get E sha a key W) = Some (lww_answer (map (visible E a key W) (replica_nodes sha key s)))"
    and "schedule (length (replica_nodes sha key s)) sched \<Longrightarrow>
      fst (cluster_async_get E sha sched a key W) = fst (cluster_get E sha a key W)"
proof -
  let ?hs = "map (handle_get_versioned (cluster_pool E a) (e_now E a)) (map (handle_for a) (replica_nodes sha key s))"
  let ?P = "\<lambda>(s, w). sn_info s = a \<and> w a = None \<and> visible E a key (w(a \<mapsto> s)) = visible E a key W"
  have w: "W a = Some s" "sn_info s = a" using node_okD [OF assms(1)] by auto
  have P: "?P (s, W(a := None))" using w restore_node [of W a s] by simp
  note stable = cluster_reads_stable [of a E key "visible E a key W" "replica_nodes sha key s"]
  have "fst (lww_read_resolve key ?hs (s, W(a := None)))
      = lww_answer (map (visible E a key W) (replica_nodes sha key s))"
    using lww_collect_stable [OF stable P]
    by (simp add: lww_read_resolve_def case_prod_beta comp_def answer_of_def)
  then show get: "fst (cluster_get E sha a key W) = Some (lww_answer (map (visible E a key W) (replica_nodes sha key s)))"
    using w assms(2) by (simp add: cluster_get_def at_node_def node_get_def make_handles_for case_prod_beta)
  show "fst (cluster_async_get E sha sched a key W) = fst (cluster_get E sha a key W)"
    if "schedule (length (replica_nodes sha key s)) sched"
    using async_lww_stable [OF stable P, of sched] that w assms(2)
    by (simp add: cluster_async_get_def cluster_get_def at_node_def async_node_get_def node_get_def
        async_make_handles_def async_handle_get_versioned_def make_handles_for case_prod_beta)
qed

section \<open>Properties\<close>

text \<open>C6.
  A write of a node is a write to the store of every replica it selects: the replicas that run and
  that the request reaches are updated, by \<open>LocalLWWStore.set\<close> with the one timestamp of the
  call, no other store changes, and the result says whether some replica acknowledged (a lost reply
  is not an acknowledgement, although the replica took the write). The asyncio node has the same result
  and the same effect for every completion order of its concurrent calls.
\<close>

theorem cluster_write_effect:
  assumes "node_ok W a s" and "replica_nodes sha key s \<noteq> []"
    and "schedule (length (replica_nodes sha key s)) sched"
  shows "\<exists>ack W'. cluster_set E sha a ts key v ttl W = (Some (Inr ack), W')
    \<and> cluster_async_set E sha sched a ts key v ttl W = (Some ack, W')
    \<and> (ack \<longleftrightarrow> (\<exists>n \<in> set (replica_nodes sha key s). set_ack E a key ts W n))
    \<and> (\<forall>n. W' n =
         (if n \<in> set (replica_nodes sha key s) \<and> (n = a \<or> e_link E a n \<noteq> Unreachable)
          then map_option (\<lambda>r. r\<lparr>sn_store := snd (lww_set (e_now E n) (e_wall E n) key v ttl (Some ts) (sn_store r))\<rparr>) (W n)
          else W n))"
  by (auto simp: cluster_set_eq [OF assms(1,2)] cluster_async_set_eq [OF assms] list_ex_iff upd_stores_def
      set_effect_def)

text \<open>What a reader sees at a replica after a write or a delete with a newer timestamp.\<close>

lemma set_effect_version:
  assumes "\<forall>t. lww_stamp st key = Some t \<longrightarrow> t < ts"
  shows "lww_version now (set_effect E key v None ts n st) key = Some (v, ts, False)"
proof -
  have "supersedes (lww_stamp st key) ts" using assms by (force simp: supersedes_def split: option.splits)
  then have "fst (lww_set (e_now E n) (e_wall E n) key v None (Some ts) st)"
    by (simp add: lww_set_supersedes write_ts_def)
  then show ?thesis
    using lww_set_version [of "e_now E n" "e_wall E n" key v None "Some ts" st]
    by (simp add: set_effect_def prod_eq_iff write_ts_def)
qed

lemma visible_after_set:
  assumes "\<forall>s t. W n = Some s \<longrightarrow> lww_stamp (sn_store s) key = Some t \<longrightarrow> t < ts"
  shows "visible E' c key (upd_stores E a (set_effect E key v None ts) N W) n =
    (if n \<in> N \<and> W n \<noteq> None \<and> (n = a \<or> e_link E a n \<noteq> Unreachable)
     then if n = c \<or> e_link E' c n = Up then Some (v, ts, False) else None
     else visible E' c key W n)"
proof (cases "W n")
  case (Some s)
  then have "lww_version (e_now E' n) (set_effect E key v None ts n (sn_store s)) key = Some (v, ts, False)"
    using assms by (intro set_effect_version) blast
  then show ?thesis using Some by (auto simp: visible_def upd_stores_def)
qed (simp add: visible_def upd_stores_def)

lemma visible_after_delete:
  assumes "\<forall>s t. W n = Some s \<longrightarrow> lww_stamp (sn_store s) key = Some t \<longrightarrow> t < ts" and "0 < ts"
  shows "visible E' c key (upd_stores E a (delete_effect E key ts) N W) n =
    (if n \<in> N \<and> W n \<noteq> None \<and> (n = a \<or> e_link E a n \<noteq> Unreachable)
     then if n = c \<or> e_link E' c n = Up then Some (PNone, ts, True) else None
     else visible E' c key W n)"
proof (cases "W n")
  case (Some s)
  have "supersedes (lww_stamp (sn_store s) key) ts"
    using assms Some by (force simp: supersedes_def split: option.splits)
  then have "lww_version (e_now E' n) (delete_effect E key ts n (sn_store s)) key = Some (PNone, ts, True)"
    by (simp add: delete_effect_def lww_delete_version write_ts_def)
  then show ?thesis using Some assms(2) by (auto simp: visible_def upd_stores_def)
qed (simp add: visible_def upd_stores_def)

lemma visible_older:
  "\<forall>s t. W n = Some s \<longrightarrow> lww_stamp (sn_store s) key = Some t \<longrightarrow> t < ts \<Longrightarrow>
    visible E c key W n = Some (v, t, d) \<Longrightarrow> t < ts"
  by (auto simp: visible_def split: option.splits if_splits prod.splits bool.splits dest!: lww_version_stamp)

lemma node_ok_upd: "node_ok W c s \<Longrightarrow> \<exists>s'. node_ok (upd_stores E a F N W) c s' \<and> sn_ring s' = sn_ring s
    \<and> sn_replication s' = sn_replication s"
  by (auto simp: node_ok_def upd_stores_def)

lemma read_after_write:
  assumes "node_ok W a sa" and "node_ok W c sc"
    and "n0 \<in> set (replica_nodes sha key sa)" and "n0 \<in> set (replica_nodes sha key sc)"
    and "W n0 \<noteq> None" and "n0 = a \<or> e_link E a n0 \<noteq> Unreachable" and "n0 = c \<or> e_link E' c n0 = Up"
    and "\<forall>n s t. W n = Some s \<longrightarrow> lww_stamp (sn_store s) key = Some t \<longrightarrow> t < ts" and "0 \<le> ts"
    and "W1 = snd (cluster_set E sha a ts key v None W)"
    and "schedule (length (replica_nodes sha key sc)) sched"
  shows "fst (cluster_get E' sha c key W1) = Some v \<and> fst (cluster_async_get E' sha sched c key W1) = Some v"
proof -
  have W1: "W1 = upd_stores E a (set_effect E key v None ts) (set (replica_nodes sha key sa)) W"
    using assms(3,10) cluster_set_eq [OF assms(1), of sha key E ts v None] by force
  obtain sc' where sc': "node_ok W1 c sc'" "replica_nodes sha key sc' = replica_nodes sha key sc"
    using node_ok_upd [OF assms(2)] W1 by (metis replica_nodes_def)
  have new: "\<forall>s t. W n = Some s \<longrightarrow> lww_stamp (sn_store s) key = Some t \<longrightarrow> t < ts" for n
    using assms(8) by blast
  note after = visible_after_set [where E' = E' and c = c and E = E and a = a and v = v and W = W
      and N = "set (replica_nodes sha key sa)", OF new, folded W1]
  have hit: "visible E' c key W1 n0 = Some (v, ts, False)" unfolding after using assms(3,5-7) by simp
  have others: "t < ts \<or> (v', t, d) = (v, ts, False)" if "visible E' c key W1 n = Some (v', t, d)" for n v' t d
    using that visible_older [where W = W, OF new, of E' c n v' t d] unfolding after by (auto split: if_splits)
  have "lww_answer (map (visible E' c key W1) (replica_nodes sha key sc)) = v"
    using lww_answer_winner [of v ts False "map (visible E' c key W1) (replica_nodes sha key sc)"]
      hit others assms(4,9) by (auto simp: image_iff eq_commute)
  then show ?thesis
    using cluster_get_value(1) [OF sc'(1), of sha key E'] cluster_get_value(2) [OF sc'(1), of sha key sched E']
      sc'(2) assms(4,11) by force
qed

text \<open>C3.
  After a write with a timestamp newer than what the replicas hold, every reader (the writer or another
  node, blocking or asyncio) that reaches at least one replica the write has reached gets the written
  value: whatever the other replicas answer, whichever replies were lost, and although the two nodes may
  see different rings, as long as they share that replica.
\<close>

theorem cluster_read_your_writes:
  assumes "node_ok W a sa" and "node_ok W c sc"
    and "n0 \<in> set (replica_nodes sha key sa)" and "n0 \<in> set (replica_nodes sha key sc)"
    and "W n0 \<noteq> None" and "n0 = a \<or> e_link E a n0 \<noteq> Unreachable" and "n0 = c \<or> e_link E' c n0 = Up"
    and "\<forall>n s t. W n = Some s \<longrightarrow> lww_stamp (sn_store s) key = Some t \<longrightarrow> t < ts" and "0 \<le> ts"
    and "W1 = snd (cluster_set E sha a ts key v None W)"
    and "schedule (length (replica_nodes sha key sc)) sched"
  shows "fst (cluster_get E' sha c key W1) = Some v \<and> fst (cluster_async_get E' sha sched c key W1) = Some v"
  using assms by (rule read_after_write)

text \<open>C14.
  After a delete with a positive timestamp newer than what the replicas hold, every reader that reaches
  at least one replica the delete has reached gets \<open>None\<close>: a replica that missed the delete and still
  has the value cannot bring it back.
\<close>

theorem cluster_delete_hides:
  assumes "node_ok W a sa" and "node_ok W c sc"
    and "n0 \<in> set (replica_nodes sha key sa)" and "n0 \<in> set (replica_nodes sha key sc)"
    and "W n0 \<noteq> None" and "n0 = a \<or> e_link E a n0 \<noteq> Unreachable" and "n0 = c \<or> e_link E' c n0 = Up"
    and "\<forall>n s t. W n = Some s \<longrightarrow> lww_stamp (sn_store s) key = Some t \<longrightarrow> t < ts" and "0 < ts"
    and "W1 = snd (cluster_delete E sha a ts key W)"
  shows "fst (cluster_get E' sha c key W1) = Some PNone"
proof -
  have W1: "W1 = upd_stores E a (delete_effect E key ts) (set (replica_nodes sha key sa)) W"
    using assms(3,10) cluster_delete_eq [OF assms(1), of sha key E ts] by force
  obtain sc' where sc': "node_ok W1 c sc'" "replica_nodes sha key sc' = replica_nodes sha key sc"
    using node_ok_upd [OF assms(2)] W1 by (metis replica_nodes_def)
  have new: "\<forall>s t. W n = Some s \<longrightarrow> lww_stamp (sn_store s) key = Some t \<longrightarrow> t < ts" for n
    using assms(8) by blast
  note after = visible_after_delete [where E' = E' and c = c and E = E and a = a and W = W
      and N = "set (replica_nodes sha key sa)", OF new assms(9), folded W1]
  have hit: "visible E' c key W1 n0 = Some (PNone, ts, True)" unfolding after using assms(3,5-7) by simp
  have others: "t < ts \<or> (v', t, d) = (PNone, ts, True)" if "visible E' c key W1 n = Some (v', t, d)" for n v' t d
    using that visible_older [where W = W, OF new, of E' c n v' t d] unfolding after by (auto split: if_splits)
  have "lww_answer (map (visible E' c key W1) (replica_nodes sha key sc)) = PNone"
    using lww_answer_winner [of PNone ts True "map (visible E' c key W1) (replica_nodes sha key sc)"]
      hit others assms(4,9) by (auto simp: image_iff eq_commute)
  then show ?thesis
    using cluster_get_value(1) [OF sc'(1), of sha key E'] sc'(2) assms(4) by force
qed

section \<open>Joining\<close>

definition joined :: "NodeInfo \<Rightarrow> StorageNode \<Rightarrow> StorageNode" where
  "joined a s = s\<lparr>sn_gossip := (if a \<notin> members (sn_gossip s) then gossip_add a (sn_gossip s) else sn_gossip s)\<rparr>"

lemma members_joined [simp]: "members (sn_gossip (joined a s)) = insert a (members (sn_gossip s))"
  by (auto simp: joined_def)

lemma cluster_exec_join:
  "cluster_exec E a (host n) (port n) (join_message b) W =
     (Inr (if W n \<noteq> None \<and> e_link E a n = Up then Some (message OK (PDict [])) else None),
      if e_link E a n \<noteq> Unreachable then W(n := map_option (joined b) (W n)) else W)"
proof (cases "W n")
  case None
  then have "W(n := map_option (joined b) (W n)) = W" by auto
  with None show ?thesis by (simp add: cluster_exec_def)
next
  case (Some s)
  have "node_handle idle_pool clock (join_message b) (s, ()) = (Inr (message OK (PDict [])), joined b s, ())" for clock
    by (simp add: node_handle_def handle_message_def join_message_def message_peer_def node_from_dict_to_dict
        is_gossip_def joined_def members_def)
  with Some show ?thesis by (simp add: cluster_exec_def)
qed

lemma broadcast_join:
  "distinct ns \<Longrightarrow> broadcast_to (cluster_pool E a) (join_message b) ns W =
     (Inr (), \<lambda>n. if n \<in> set ns \<and> e_link E a n \<noteq> Unreachable then map_option (joined b) (W n) else W n)"
proof (induction ns arbitrary: W)
  case (Cons m ns)
  have "broadcast_to (cluster_pool E a) (join_message b) (m # ns) W = broadcast_to (cluster_pool E a) (join_message b) ns
      (if e_link E a m \<noteq> Unreachable then W(m := map_option (joined b) (W m)) else W)"
    by (simp add: cluster_pool_def cluster_exec_join)
  also have "\<dots> = (Inr (), \<lambda>n. if n \<in> set (m # ns) \<and> e_link E a n \<noteq> Unreachable then map_option (joined b) (W n) else W n)"
    using Cons by (auto simp: fun_eq_iff)
  finally show ?case .
qed simp

text \<open>C26.
  When a node starts, every peer it discovered, and every other member of its ring, that runs and that the
  announcement reaches has it in its ring afterwards, next to all members it had; peers that the
  announcement does not reach and all other nodes are untouched, and starting does not fail.
\<close>

theorem cluster_join:
  assumes "W a = Some s" and "sn_info s = a" and "gossip_wf (sn_gossip s)"
    and "get_peers R (g_disc (sn_gossip s)) = Inr peers"
    and "at_node a (node_start (cluster_pool E a) R (Inr ())) W = (r, W')"
  shows "r = Some (Inr ())
    \<and> (\<exists>s'. W' a = Some s' \<and> members (sn_gossip s') = members (sn_gossip s) \<union> set peers \<union> {a})
    \<and> (\<forall>n. n \<noteq> a \<longrightarrow> W' n =
         (if n \<in> members (sn_gossip s) \<union> set peers \<and> e_link E a n \<noteq> Unreachable
          then map_option (joined a) (W n) else W n))"
proof -
  obtain s' ns where s': "members (sn_gossip s') = members (sn_gossip s) \<union> set peers \<union> {sn_info s}"
      "set ns = members (sn_gossip s') - {sn_info s}" "distinct ns"
      "node_start (cluster_pool E a) R (Inr ()) (s, W(a := None)) =
        (fst (broadcast_to (cluster_pool E a) (join_message (sn_info s)) ns (W(a := None))), s',
         snd (broadcast_to (cluster_pool E a) (join_message (sn_info s)) ns (W(a := None))))"
    using node_start_spec [OF assms(4), of "cluster_pool E a" "W(a := None)" "[]"] assms(3)
    by (elim exE conjE) (rule that; simp)
  have W': "W' = (\<lambda>n. if n \<in> set ns \<and> e_link E a n \<noteq> Unreachable then map_option (joined a) ((W(a := None)) n)
      else (W(a := None)) n)(a \<mapsto> s')" and r: "r = Some (Inr ())"
    using assms(1,2,5) s'(4) broadcast_join [OF s'(3), of E a a "W(a := None)"] by (simp_all add: at_node_def)
  have ns: "n \<in> set ns \<longleftrightarrow> n \<in> members (sn_gossip s) \<union> set peers" if "n \<noteq> a" for n
    unfolding s'(1,2) using that assms(2) by simp
  have "W' n = (if n \<in> members (sn_gossip s) \<union> set peers \<and> e_link E a n \<noteq> Unreachable
      then map_option (joined a) (W n) else W n)" if "n \<noteq> a" for n
    unfolding W' using that ns [OF that] by simp
  moreover have "W' a = Some s'" unfolding W' by simp
  ultimately show ?thesis using r s'(1) assms(2) by simp
qed

section \<open>Witnesses\<close>

text \<open>Nodes 1 and 2 with the same ring; a key goes to both.\<close>

definition demo_storage :: "int \<Rightarrow> StorageNode" where
  "demo_storage p = \<lparr>sn_gossip = demo_gossip p [1, 2], sn_store = lww_init, sn_replication = 2\<rparr>"

definition demo_cluster :: cluster where
  "demo_cluster = [demo_node 1 \<mapsto> demo_storage 1, demo_node 2 \<mapsto> demo_storage 2]"

definition demo_env :: "link \<Rightarrow> env" where
  "demo_env l = \<lparr>e_link = \<lambda>a b. l, e_now = \<lambda>n. 0, e_wall = \<lambda>n. 0\<rparr>"

lemma demo_cluster_ok:
  "node_ok demo_cluster (demo_node 1) (demo_storage 1)" "node_ok demo_cluster (demo_node 2) (demo_storage 2)"
  "replica_nodes (\<lambda>s. []) ''k'' (demo_storage p) = [demo_node 1, demo_node 2]"
  "W = demo_cluster \<Longrightarrow> W n = Some s \<Longrightarrow> lww_stamp (sn_store s) k = None"
  by (auto simp: node_ok_def demo_cluster_def demo_storage_def demo_gossip_def rr_wf_def replica_nodes_def
      rr_get_nodes_def py_sorted_desc_def rr_score_def py_take_def lww_stamp_def lww_init_def split: if_splits)

lemma cluster_write_effect_witness:
  "\<exists>ack W'. cluster_set (demo_env ReplyLost) (\<lambda>s. []) (demo_node 1) 5 ''k'' (PInt 7) None demo_cluster
      = (Some (Inr ack), W')
    \<and> cluster_async_set (demo_env ReplyLost) (\<lambda>s. []) [1, 0] (demo_node 1) 5 ''k'' (PInt 7) None demo_cluster
      = (Some ack, W')"
proof -
  have "schedule (length (replica_nodes (\<lambda>s. []) ''k'' (demo_storage 1))) [1, 0]"
    by (auto simp: demo_cluster_ok(3) schedule_def)
  moreover have "replica_nodes (\<lambda>s. []) ''k'' (demo_storage 1) \<noteq> []" by (simp add: demo_cluster_ok(3))
  ultimately show ?thesis using cluster_write_effect [OF demo_cluster_ok(1)] by blast
qed

text \<open>Node 1 cannot reach node 2 and writes only to itself; node 2 then reads from both.\<close>

lemma cluster_read_your_writes_witness:
  "fst (cluster_get (demo_env Up) (\<lambda>s. []) (demo_node 2) ''k''
      (snd (cluster_set (demo_env Unreachable) (\<lambda>s. []) (demo_node 1) 5 ''k'' (PInt 7) None demo_cluster)))
     = Some (PInt 7)"
proof -
  note demo = demo_cluster_ok
  have mem: "demo_node 1 \<in> set (replica_nodes (\<lambda>s. []) ''k'' (demo_storage p))" for p by (simp add: demo(3))
  have stamps: "\<forall>n s t. demo_cluster n = Some s \<longrightarrow> lww_stamp (sn_store s) ''k'' = Some t \<longrightarrow> t < (5 :: int)"
    using demo(4) by auto
  have sched: "schedule (length (replica_nodes (\<lambda>s. []) ''k'' (demo_storage 2))) [0, 1]"
    by (auto simp: demo(3) schedule_def)
  have run: "demo_cluster (demo_node 1) \<noteq> None" by (simp add: demo_cluster_def)
  have up: "e_link (demo_env Up) (demo_node 2) (demo_node 1) = Up" by (simp add: demo_env_def)
  from cluster_read_your_writes [OF demo(1,2) mem mem run disjI1 [OF refl] disjI2 [OF up] stamps _ refl sched,
      of "demo_env Unreachable" "PInt 7"]
  show ?thesis by simp
qed

text \<open>Both replicas hold a value; node 1 deletes it while node 2 is cut off; node 2 reads from both.\<close>

lemma cluster_delete_hides_witness:
  "fst (cluster_get (demo_env Up) (\<lambda>s. []) (demo_node 2) ''k''
      (snd (cluster_delete (demo_env Unreachable) (\<lambda>s. []) (demo_node 1) 5 ''k''
        (snd (cluster_set (demo_env Up) (\<lambda>s. []) (demo_node 1) 3 ''k'' (PInt 7) None demo_cluster)))))
     = Some PNone"
proof -
  note demo = demo_cluster_ok
  let ?W = "snd (cluster_set (demo_env Up) (\<lambda>s. []) (demo_node 1) 3 ''k'' (PInt 7) None demo_cluster)"
  have W: "?W = upd_stores (demo_env Up) (demo_node 1) (set_effect (demo_env Up) ''k'' (PInt 7) None 3)
      {demo_node 1, demo_node 2} demo_cluster"
    using cluster_set_eq [OF demo(1), of "\<lambda>s. []" "''k''" "demo_env Up" 3 "PInt 7" None] by (simp add: demo(3))
  obtain s1 s2 where s: "node_ok ?W (demo_node 1) s1" "node_ok ?W (demo_node 2) s2"
      "replica_nodes (\<lambda>s. []) ''k'' s1 = [demo_node 1, demo_node 2]"
      "replica_nodes (\<lambda>s. []) ''k'' s2 = [demo_node 1, demo_node 2]"
    using node_ok_upd [OF demo(1)] node_ok_upd [OF demo(2)] demo(3) unfolding W by (metis replica_nodes_def)
  have mem: "demo_node 1 \<in> set (replica_nodes (\<lambda>s. []) ''k'' s1)" "demo_node 1 \<in> set (replica_nodes (\<lambda>s. []) ''k'' s2)"
    by (simp_all add: s)
  have run: "?W (demo_node 1) \<noteq> None" using s(1) by (simp add: node_ok_def)
  have up: "e_link (demo_env Up) (demo_node 2) (demo_node 1) = Up" by (simp add: demo_env_def)
  have "lww_stamp (set_effect (demo_env Up) ''k'' (PInt 7) None 3 n st) ''k'' = Some t \<Longrightarrow>
      lww_stamp st ''k'' = None \<Longrightarrow> t < 5" for n st t
    by (auto simp: set_effect_def lww_set_def lww_stamp_def write_ts_def dict_simps)
  then have stamps: "\<forall>n s t. ?W n = Some s \<longrightarrow> lww_stamp (sn_store s) ''k'' = Some t \<longrightarrow> t < 5"
    using demo(4) unfolding W by (auto simp: upd_stores_def split: if_splits)
  from cluster_delete_hides [OF s(1,2) mem run disjI1 [OF refl] disjI2 [OF up] stamps _ refl,
      of "demo_env Unreachable"]
  show ?thesis by simp
qed

lemma cluster_join_witness:
  "(let W = [demo_node 1 \<mapsto> (demo_storage 1)\<lparr>sn_gossip := (demo_gossip 1 [])\<lparr>g_disc := StaticDiscovery [demo_node 2]\<rparr>\<rparr>,
             demo_node 2 \<mapsto> (demo_storage 2)\<lparr>sn_gossip := demo_gossip 2 [2]\<rparr>];
        W' = snd (at_node (demo_node 1) (node_start (cluster_pool (demo_env Up) (demo_node 1))
               \<lparr>getaddrinfo = \<lambda>h p. Inl OSError, srv = \<lambda>n. Inl OSError\<rparr> (Inr ())) W)
    in map_option (members \<circ> sn_gossip) (W' (demo_node 2)) = Some {demo_node 1, demo_node 2})"
proof -
  let ?s = "(demo_storage 1)\<lparr>sn_gossip := (demo_gossip 1 [])\<lparr>g_disc := StaticDiscovery [demo_node 2]\<rparr>\<rparr>"
  let ?W = "[demo_node 1 \<mapsto> ?s, demo_node 2 \<mapsto> (demo_storage 2)\<lparr>sn_gossip := demo_gossip 2 [2]\<rparr>]"
  let ?R = "\<lparr>getaddrinfo = \<lambda>h p. Inl OSError, srv = \<lambda>n. Inl OSError\<rparr>"
  obtain r W' where run: "at_node (demo_node 1) (node_start (cluster_pool (demo_env Up) (demo_node 1)) ?R (Inr ())) ?W = (r, W')"
    by fastforce
  have "?W (demo_node 1) = Some ?s" "sn_info ?s = demo_node 1" "gossip_wf (sn_gossip ?s)"
      "get_peers ?R (g_disc (sn_gossip ?s)) = Inr [demo_node 2]"
    by (simp_all add: demo_gossip_def gossip_wf_def rr_wf_def)
  from cluster_join [OF this run] have "W' (demo_node 2) = map_option (joined (demo_node 1)) (?W (demo_node 2))"
    by (simp add: demo_env_def)
  moreover have "members (demo_gossip 2 [2]) = {demo_node 2}" by (simp add: members_def demo_gossip_def)
  ultimately show ?thesis using run by (simp add: Let_def)
qed

end
