(* ===== verification/Cluster_Gossip.thy ===== *)
theory Cluster_Gossip
  imports Cluster
begin

text \<open>
  Gossip rounds in a cluster: each node runs \<open>gossip_round\<close> against the nodes its sample reaches, which
  answer with their own \<open>handle_message\<close>. What a round learns, and when rounds make all views equal.
\<close>

section \<open>Rounds\<close>

definition cluster_round :: "env \<Rightarrow> resolver \<Rightarrow> nat list \<Rightarrow> NodeInfo \<Rightarrow> cluster \<Rightarrow> cluster" where
  "cluster_round E R pick a W = snd (at_node a (\<lambda>(s, w).
     case gossip_round (cluster_pool E a) R pick (sn_gossip s, w) of
       (g, w') \<Rightarrow> ((), s\<lparr>sn_gossip := g\<rparr>, w')) W)"

text \<open>The members a node of the cluster has in its ring.\<close>

definition view :: "cluster \<Rightarrow> NodeInfo \<Rightarrow> NodeInfo set" where
  "view W a = (case W a of None \<Rightarrow> {} | Some s \<Rightarrow> members (sn_gossip s))"

text \<open>Node \<open>b\<close> answers the requests of \<open>a\<close>.\<close>

definition answers :: "env \<Rightarrow> NodeInfo \<Rightarrow> cluster \<Rightarrow> NodeInfo \<Rightarrow> bool" where
  "answers E a W b \<longleftrightarrow> (\<exists>s. W b = Some s \<and> sn_info s = b) \<and> e_link E a b = Up"

lemma peer_list_answer:
  assumes "answers E a W b"
  shows "\<exists>ns. cluster_exec E a (host b) (port b) (peer_list_request x) W =
      (Inr (Some (message PEER_LIST (PDict [(''peers'', PList (map node_to_dict ns))]))), W)
    \<and> set ns = view W b - {b}"
proof -
  obtain s where s: "W b = Some s" "sn_info s = b" "e_link E a b = Up" using assms by (auto simp: answers_def)
  have "node_handle idle_pool (e_now E b, e_wall E b) (peer_list_request x) (s, ()) =
      (Inr (message PEER_LIST (PDict [(''peers'', PList (map node_to_dict (filter (\<lambda>n. n \<noteq> b) (rr_nodes (sn_ring s)))))])), s, ())"
    using s(2) by (simp add: node_handle_def peer_list_request_def is_gossip_def handle_message_def)
  moreover have "W(b \<mapsto> s) = W" using s(1) by auto
  ultimately show ?thesis
    using s by (intro exI [of _ "filter (\<lambda>n. n \<noteq> b) (rr_nodes (sn_ring s))"])
      (auto simp: cluster_exec_def view_def members_def)
qed

lemma exchange_learns:
  assumes "answers E a W b"
  shows "\<exists>g'. gossip_with (cluster_pool E a) b (g, W) = (g', W) \<and> g_info g' = g_info g
    \<and> members g' = members g \<union> (view W b - {b, g_info g})"
proof -
  obtain ns where ns: "cluster_exec E a (host b) (port b) (peer_list_request (g_info g)) W =
      (Inr (Some (message PEER_LIST (PDict [(''peers'', PList (map node_to_dict ns))]))), W)" "set ns = view W b - {b}"
    using peer_list_answer [OF assms] by blast
  obtain g' where "merge_reply (message PEER_LIST (PDict [(''peers'', PList (map node_to_dict ns))])) g = (Inr (), g')"
      "g_info g' = g_info g" "members g' = members g \<union> (set ns - {g_info g})"
    using merge_reply_list by blast
  then show ?thesis using ns by (auto simp: gossip_with_def cluster_pool_def)
qed

lemma exchanges_learn:
  assumes "\<forall>i \<in> set pick. answers E a W (peers ! i)"
  shows "\<exists>g'. fold (\<lambda>i. gossip_with (cluster_pool E a) (peers ! i)) pick (g, W) = (g', W) \<and> g_info g' = g_info g
    \<and> members g' = members g \<union> (\<Union>i \<in> set pick. view W (peers ! i) - {peers ! i, g_info g})"
  using assms
proof (induction pick arbitrary: g)
  case (Cons i pick)
  obtain g1 where g1: "gossip_with (cluster_pool E a) (peers ! i) (g, W) = (g1, W)" "g_info g1 = g_info g"
      "members g1 = members g \<union> (view W (peers ! i) - {peers ! i, g_info g})"
    using exchange_learns [of E a W "peers ! i" g] Cons.prems by auto
  then show ?case using Cons.IH [of g1] Cons.prems by auto
qed simp

lemma round_learns:
  assumes "W a = Some s" and "sn_info s = a" and "round_peers R (sn_gossip s) = Inr peers"
    and "sample_ok pick (length peers)" and "\<forall>i \<in> set pick. answers E a W (peers ! i)"
  shows "\<exists>g. cluster_round E R pick a W = W(a \<mapsto> s\<lparr>sn_gossip := g\<rparr>) \<and> g_info g = a
    \<and> members g = members (sn_gossip s) \<union> (\<Union>i \<in> set pick. view W (peers ! i) - {peers ! i, a})"
proof -
  have peers: "peers ! i \<noteq> a" if "i \<in> set pick" for i
  proof -
    have "i < length peers" using assms(4) that by (simp add: sample_ok_def)
    then have "peers ! i \<in> set peers" by simp
    then show ?thesis using assms(2,3) by (auto simp: round_peers_def res_bind_Inr_iff)
  qed
  have same: "view (W(a := None)) b = view W b" "answers E a W b \<Longrightarrow> answers E a (W(a := None)) b" if "b \<noteq> a" for b
    using that by (simp_all add: view_def answers_def)
  have "\<forall>i \<in> set pick. answers E a (W(a := None)) (peers ! i)" using assms(5) peers same(2) by blast
  from exchanges_learn [OF this, of "sn_gossip s"] obtain g where g:
    "fold (\<lambda>i. gossip_with (cluster_pool E a) (peers ! i)) pick (sn_gossip s, W(a := None)) = (g, W(a := None))"
    "g_info g = a" "members g = members (sn_gossip s) \<union> (\<Union>i \<in> set pick. view (W(a := None)) (peers ! i) - {peers ! i, a})"
    using assms(2) by auto
  have "pick = []" if "peers = []" using assms(4) that by (simp add: sample_ok_def)
  then have "gossip_round (cluster_pool E a) R pick (sn_gossip s, W(a := None)) = (g, W(a := None))"
    using assms(3) g(1) by (auto simp: gossip_round_def)
  moreover have "(\<Union>i \<in> set pick. view (W(a := None)) (peers ! i) - {peers ! i, a}) =
      (\<Union>i \<in> set pick. view W (peers ! i) - {peers ! i, a})"
    using same(1) peers by auto
  ultimately show ?thesis
    using assms(1) g by (intro exI [of _ g]) (simp add: cluster_round_def at_node_def)
qed

section \<open>Properties\<close>

text \<open>
  A gossip round in which every sampled peer answers adds to the node's ring exactly the members those
  peers have, except the peers themselves and the node itself; nobody is evicted, its store is untouched and
  no other node changes.
\<close>

theorem cluster_round_learns:
  assumes "W a = Some s" and "sn_info s = a" and "round_peers R (sn_gossip s) = Inr peers"
    and "sample_ok pick (length peers)" and "\<forall>i \<in> set pick. answers E a W (peers ! i)"
  shows "view (cluster_round E R pick a W) a = view W a \<union> (\<Union>i \<in> set pick. view W (peers ! i) - {peers ! i, a})
    \<and> (\<forall>b. b \<noteq> a \<longrightarrow> cluster_round E R pick a W b = W b)
    \<and> map_option sn_store (cluster_round E R pick a W a) = map_option sn_store (W a)"
  using round_learns [OF assms] assms(1) by (auto simp: view_def)

text \<open>One round of each node in the list, with its sample; each sample contains the seed.\<close>

fun cluster_rounds :: "env \<Rightarrow> resolver \<Rightarrow> (NodeInfo \<times> nat list) list \<Rightarrow> cluster \<Rightarrow> cluster" where
  "cluster_rounds E R [] W = W"
| "cluster_rounds E R ((a, pick) # turns) W = cluster_rounds E R turns (cluster_round E R pick a W)"

text \<open>
  The turns are fair samples of the peers each node then knows, every sampled peer answers, and every node
  but the seed samples the seed.
\<close>

fun turns_ok :: "env \<Rightarrow> resolver \<Rightarrow> NodeInfo \<Rightarrow> (NodeInfo \<times> nat list) list \<Rightarrow> cluster \<Rightarrow> bool" where
  "turns_ok E R sd [] W \<longleftrightarrow> True"
| "turns_ok E R sd ((a, pick) # turns) W \<longleftrightarrow>
     (\<exists>s peers. W a = Some s \<and> sn_info s = a \<and> round_peers R (sn_gossip s) = Inr peers \<and> sample_ok pick (length peers)
        \<and> (\<forall>i \<in> set pick. answers E a W (peers ! i)) \<and> (a \<noteq> sd \<longrightarrow> sd \<in> (!) peers ` set pick))
     \<and> turns_ok E R sd turns (cluster_round E R pick a W)"

lemma round_views:
  assumes "turns_ok E R sd ((a, pick) # turns) W"
  shows "view W b \<subseteq> view (cluster_round E R pick a W) b"
    and "a \<noteq> sd \<Longrightarrow> view W sd - {sd, a} \<subseteq> view (cluster_round E R pick a W) a"
proof -
  obtain s peers where s: "W a = Some s" "sn_info s = a" "round_peers R (sn_gossip s) = Inr peers"
    "sample_ok pick (length peers)" "\<forall>i \<in> set pick. answers E a W (peers ! i)" "a \<noteq> sd \<longrightarrow> sd \<in> (!) peers ` set pick"
    using assms by auto
  obtain g where g: "cluster_round E R pick a W = W(a \<mapsto> s\<lparr>sn_gossip := g\<rparr>)"
    "members g = members (sn_gossip s) \<union> (\<Union>i \<in> set pick. view W (peers ! i) - {peers ! i, a})"
    using round_learns [OF s(1-5)] by blast
  show "view W b \<subseteq> view (cluster_round E R pick a W) b" using s(1) g by (auto simp: view_def)
  assume "a \<noteq> sd"
  then have "sd \<in> (!) peers ` set pick" using s(6) by simp
  then have "view W sd - {sd, a} \<subseteq> (\<Union>i \<in> set pick. view W (peers ! i) - {peers ! i, a})" by auto
  then show "view W sd - {sd, a} \<subseteq> view (cluster_round E R pick a W) a" using g by (auto simp: view_def)
qed

lemma rounds_monotone: "turns_ok E R sd turns W \<Longrightarrow> view W b \<subseteq> view (cluster_rounds E R turns W) b"
proof (induction turns arbitrary: W)
  case (Cons t turns)
  obtain a pick where t: "t = (a, pick)" by fastforce
  note ok = Cons.prems [unfolded t]
  have "turns_ok E R sd turns (cluster_round E R pick a W)" using ok by simp
  from round_views(1) [OF ok, of b] Cons.IH [OF this] show ?case unfolding t by simp
qed simp

lemma round_bounded:
  assumes "turns_ok E R sd ((a, pick) # turns) W" and "\<forall>b. view W b \<subseteq> N"
  shows "view (cluster_round E R pick a W) b \<subseteq> N"
proof -
  obtain s peers where s: "W a = Some s" "sn_info s = a" "round_peers R (sn_gossip s) = Inr peers"
    "sample_ok pick (length peers)" "\<forall>i \<in> set pick. answers E a W (peers ! i)"
    using assms(1) by auto
  obtain g where g: "cluster_round E R pick a W = W(a \<mapsto> s\<lparr>sn_gossip := g\<rparr>)"
    "members g = members (sn_gossip s) \<union> (\<Union>i \<in> set pick. view W (peers ! i) - {peers ! i, a})"
    using round_learns [OF s] by blast
  have "members (sn_gossip s) \<subseteq> N" using assms(2) s(1) by (metis option.simps(5) view_def)
  then have "members g \<subseteq> N" using g(2) assms(2) by auto
  then show ?thesis using assms(2) g(1) by (cases "b = a") (auto simp: view_def)
qed

lemma rounds_bounded: "turns_ok E R sd turns W \<Longrightarrow> \<forall>b. view W b \<subseteq> N \<Longrightarrow> view (cluster_rounds E R turns W) b \<subseteq> N"
proof (induction turns arbitrary: W)
  case (Cons t turns)
  obtain a pick where t: "t = (a, pick)" by fastforce
  note ok = Cons.prems(1) [unfolded t]
  have "\<forall>b. view (cluster_round E R pick a W) b \<subseteq> N" using round_bounded [OF ok Cons.prems(2)] by blast
  then show ?case using Cons.IH [of "cluster_round E R pick a W"] ok unfolding t by simp
qed simp

lemma rounds_complete:
  assumes "turns_ok E R sd turns W" and "N \<subseteq> view W sd"
    and "a = sd \<or> a \<in> fst ` set turns" and "sd \<in> view W a" and "a \<in> view W a"
  shows "N \<subseteq> view (cluster_rounds E R turns W) a"
  using assms
proof (induction turns arbitrary: W)
  case (Cons t turns)
  obtain b pick where t: "t = (b, pick)" by fastforce
  let ?W = "cluster_round E R pick b W"
  note ok = Cons.prems(1) [unfolded t]
  have rest: "turns_ok E R sd turns ?W" using ok by simp
  note mono = round_views(1) [OF ok]
  show ?case
  proof (cases "a = sd \<or> a \<in> fst ` set turns")
    case True
    have "N \<subseteq> view (cluster_rounds E R turns ?W) a"
      using Cons.IH [OF rest _ True] Cons.prems(2,4,5) mono by blast
    then show ?thesis unfolding t by simp
  next
    case False
    then have "a = b" "a \<noteq> sd" using Cons.prems(3) t by auto
    then have "view W sd - {sd, a} \<subseteq> view ?W a" using round_views(2) [OF ok] by simp
    then have "N \<subseteq> view ?W a" using Cons.prems(2,4,5) mono [of a] by blast
    then show ?thesis using rounds_monotone [OF rest, of a] unfolding t by auto
  qed
qed auto

text \<open>C19.
  Once the seed has every node in its ring, as it does after they announced themselves to it, one gossip
  round of every node, in any order, makes all views equal to the seed's: each node that knows the seed and
  itself then has the same members in its ring, the seed included. The samples must contain the seed, and the
  sampled peers must answer.
\<close>

theorem gossip_converges:
  assumes "turns_ok E R sd turns W" and "\<forall>b. view W b \<subseteq> view W sd"
    and "a = sd \<or> a \<in> fst ` set turns" and "sd \<in> view W a" and "a \<in> view W a"
  shows "view (cluster_rounds E R turns W) a = view W sd"
  using rounds_complete [OF assms(1) order_refl assms(3-5)] rounds_bounded [OF assms(1,2)] by blast

section \<open>Witnesses\<close>

text \<open>Node 1 is the seed and knows three nodes, node 2 knows the seed; node 2 has its turn.\<close>

definition gossip_cluster :: cluster where
  "gossip_cluster = [demo_node 1 \<mapsto> \<lparr>sn_gossip = demo_gossip 1 [1, 2, 3], sn_store = lww_init, sn_replication = 2\<rparr>,
     demo_node 2 \<mapsto> \<lparr>sn_gossip = demo_gossip 2 [1, 2], sn_store = lww_init, sn_replication = 2\<rparr>]"

lemma gossip_cluster_turn:
  "round_peers R (demo_gossip 2 [1, 2]) = Inr [demo_node 1]"
  "sample_ok [0] 1" "answers (demo_env Up) a gossip_cluster (demo_node 1)"
  by (simp_all add: round_peers_def demo_gossip_def sample_ok_def GOSSIP_FANOUT_def answers_def gossip_cluster_def
      demo_env_def)

lemma cluster_round_learns_witness:
  "view (cluster_round (demo_env Up) \<lparr>getaddrinfo = \<lambda>h p. Inr [], srv = \<lambda>_. Inr []\<rparr> [0] (demo_node 2) gossip_cluster) (demo_node 2)
     = {demo_node 1, demo_node 2, demo_node 3}"
proof -
  let ?s = "\<lparr>sn_gossip = demo_gossip 2 [1, 2], sn_store = lww_init, sn_replication = 2\<rparr>"
  have s: "gossip_cluster (demo_node 2) = Some ?s" "sn_info ?s = demo_node 2"
    by (simp_all add: gossip_cluster_def demo_gossip_def)
  have r: "round_peers R (sn_gossip ?s) = Inr [demo_node 1]" "sample_ok [0] (length [demo_node 1])"
    "\<forall>i \<in> set [0::nat]. answers (demo_env Up) (demo_node 2) gossip_cluster ([demo_node 1] ! i)" for R
    using gossip_cluster_turn by simp_all
  from cluster_round_learns [OF s r] show ?thesis
    by (auto simp: view_def gossip_cluster_def demo_gossip_def members_def)
qed

lemma gossip_converges_witness:
  "view (cluster_rounds (demo_env Up) \<lparr>getaddrinfo = \<lambda>h p. Inr [], srv = \<lambda>_. Inr []\<rparr> [(demo_node 2, [0])] gossip_cluster) (demo_node 2)
     = view gossip_cluster (demo_node 1)"
proof (rule gossip_converges [where sd = "demo_node 1"])
  show "turns_ok (demo_env Up) \<lparr>getaddrinfo = \<lambda>h p. Inr [], srv = \<lambda>_. Inr []\<rparr> (demo_node 1) [(demo_node 2, [0])] gossip_cluster"
    using gossip_cluster_turn by (simp add: gossip_cluster_def) (simp add: demo_gossip_def)
  show "\<forall>b. view gossip_cluster b \<subseteq> view gossip_cluster (demo_node 1)"
    by (auto simp: view_def gossip_cluster_def demo_gossip_def members_def split: if_splits)
qed (auto simp: view_def gossip_cluster_def demo_gossip_def members_def)

end
