(* ===== verification/Stack.thy ===== *)
theory Stack
  imports Cluster Sync_Pool
begin

text \<open>
  The whole path of a request: the node API, the blocking pool with its idle connections, the framed
  bytes on a socket, the server loop of the peer, its dispatcher and store, and the reply on its way
  back. It refines the cluster of \<open>Cluster\<close>, where a pool hands the message to the peer's
  \<open>node_handle\<close> at once.
\<close>

section \<open>Two pools that answer alike\<close>

text \<open>Equal results, and states related by \<open>R\<close>.\<close>

definition agree :: "('v \<Rightarrow> 'w \<Rightarrow> bool) \<Rightarrow> 'r \<times> 'v \<Rightarrow> 'r \<times> 'w \<Rightarrow> bool" where
  "agree R x y \<longleftrightarrow> fst x = fst y \<and> R (snd x) (snd y)"

definition same_node :: "('v \<Rightarrow> 'w \<Rightarrow> bool) \<Rightarrow> StorageNode \<times> 'v \<Rightarrow> StorageNode \<times> 'w \<Rightarrow> bool" where
  "same_node R sv sw \<longleftrightarrow> fst sv = fst sw \<and> R (snd sv) (snd sw)"

lemma run_each_agree:
  assumes "list_all2 (\<lambda>f g. \<forall>v w. R v w \<longrightarrow> agree R (f v) (g w)) fs gs" and "R v w"
  shows "agree R (run_each fs v) (run_each gs w)"
  using assms
proof (induction fs gs arbitrary: v w rule: list_all2_induct)
  case (Cons f fs g gs)
  obtain r v1 w1 where step: "f v = (r, v1)" "g w = (r, w1)" "R v1 w1"
    using Cons.hyps(1) Cons.prems by (metis agree_def prod.collapse)
  obtain rs v2 w2 where rest: "run_each fs v1 = (rs, v2)" "run_each gs w1 = (rs, w2)" "R v2 w2"
    using Cons.IH [OF step(3)] by (metis agree_def prod.collapse)
  show ?case using step rest by (simp add: agree_def split: sum.split)
qed (simp add: agree_def)

lemma lww_collect_agree:
  assumes "list_all2 (\<lambda>f g. \<forall>v w. R v w \<longrightarrow> agree R (f key v) (g key w)) fs gs" and "R v w"
  shows "agree R (lww_collect key fs v) (lww_collect key gs w)"
  using assms
proof (induction fs gs arbitrary: v w rule: list_all2_induct)
  case (Cons f fs g gs)
  obtain r v1 w1 where step: "f key v = (r, v1)" "g key w = (r, w1)" "R v1 w1"
    using Cons.hyps(1) Cons.prems by (metis agree_def prod.collapse)
  obtain rs v2 w2 where rest: "lww_collect key fs v1 = (rs, v2)" "lww_collect key gs w1 = (rs, w2)" "R v2 w2"
    using Cons.IH [OF step(3)] by (metis agree_def prod.collapse)
  show ?case using step rest by (simp add: agree_def Let_def)
qed (simp add: agree_def)

locale pool_simulation =
  fixes P :: "'v pool_ops" and Q :: "'w pool_ops" and R :: "'v \<Rightarrow> 'w \<Rightarrow> bool" and M :: "Message \<Rightarrow> bool"
  assumes exec_agrees: "R v w \<Longrightarrow> M m \<Longrightarrow> agree R (p_exec P h pt m v) (p_exec Q h pt m w)"
begin

lemma remote_agrees:
  assumes "same_node R sv sw" and "M m"
  shows "\<exists>r v' w'. p_exec P h pt m (snd sv) = (r, v') \<and> p_exec Q h pt m (snd sw) = (r, w')
    \<and> fst sv = fst sw \<and> R v' w'"
  using exec_agrees [of "snd sv" "snd sw" m h pt] assms
  by (auto simp: same_node_def agree_def prod_eq_iff)

lemma get_versioned_agrees:
  assumes "same_node R sv sw" and "M (get_request key)"
  shows "agree (same_node R) (handle_get_versioned P now rh key sv) (handle_get_versioned Q now rh key sw)"
proof (cases rh)
  case LocalHandle
  then show ?thesis using assms(1)
    by (auto simp: handle_get_versioned_def agree_def same_node_def split: prod.splits)
next
  case (RemoteHandle h pt)
  from remote_agrees [OF assms, of h pt] obtain r v' w' where
    "p_exec P h pt (get_request key) (snd sv) = (r, v')" "p_exec Q h pt (get_request key) (snd sw) = (r, w')"
    "fst sv = fst sw" "R v' w'" by blast
  then show ?thesis using RemoteHandle
    by (auto simp: handle_get_versioned_def agree_def same_node_def case_prod_beta split: sum.split)
qed

lemma set_agrees:
  assumes "same_node R sv sw" and "M (set_request key v ttl ts)"
  shows "agree (same_node R) (handle_set P now wall rh key v ttl ts sv) (handle_set Q now wall rh key v ttl ts sw)"
proof (cases rh)
  case LocalHandle
  then show ?thesis using assms(1)
    by (auto simp: handle_set_def agree_def same_node_def split: prod.splits)
next
  case (RemoteHandle h pt)
  from remote_agrees [OF assms, of h pt] obtain r v' w' where
    "p_exec P h pt (set_request key v ttl ts) (snd sv) = (r, v')"
    "p_exec Q h pt (set_request key v ttl ts) (snd sw) = (r, w')" "fst sv = fst sw" "R v' w'" by blast
  then show ?thesis using RemoteHandle
    by (auto simp: handle_set_def agree_def same_node_def case_prod_beta split: sum.split)
qed

lemma delete_agrees:
  assumes "same_node R sv sw" and "M (delete_request key ts)"
  shows "agree (same_node R) (handle_delete P wall rh key ts sv) (handle_delete Q wall rh key ts sw)"
proof (cases rh)
  case LocalHandle
  then show ?thesis using assms(1)
    by (auto simp: handle_delete_def agree_def same_node_def split: prod.splits)
next
  case (RemoteHandle h pt)
  from remote_agrees [OF assms, of h pt] obtain r v' w' where
    "p_exec P h pt (delete_request key ts) (snd sv) = (r, v')"
    "p_exec Q h pt (delete_request key ts) (snd sw) = (r, w')" "fst sv = fst sw" "R v' w'" by blast
  then show ?thesis using RemoteHandle
    by (auto simp: handle_delete_def agree_def same_node_def case_prod_beta split: sum.split)
qed

text \<open>A node does the same through either pool.\<close>

lemma node_get_agrees:
  assumes "same_node R sv sw" and "M (get_request key)"
  shows "agree (same_node R) (node_get P sha lww_read_resolve now key sv) (node_get Q sha lww_read_resolve now key sw)"
proof -
  have s: "fst sv = fst sw" using assms(1) by (simp add: same_node_def)
  show ?thesis
  proof (cases "replica_nodes sha key (fst sw) = []")
    case True
    then show ?thesis using assms(1) s
      by (auto simp: node_get_def agree_def same_node_def split: prod.splits)
  next
    case False
    have "list_all2 (\<lambda>f g. \<forall>v w. same_node R v w \<longrightarrow> agree (same_node R) (f key v) (g key w))
        (map (handle_get_versioned P now) hs) (map (handle_get_versioned Q now) hs)" for hs
      using get_versioned_agrees [OF _ assms(2)] by (simp add: list_all2_conv_all_nth)
    from lww_collect_agree [OF this assms(1)] show ?thesis using False s
      by (auto simp: node_get_def lww_read_resolve_def agree_def case_prod_beta Let_def)
  qed
qed

lemma node_set_agrees:
  assumes "same_node R sv sw" and "M (set_request key v ttl ts)"
  shows "agree (same_node R) (node_set P sha now wall ts key v ttl sv) (node_set Q sha now wall ts key v ttl sw)"
proof -
  have s: "fst sv = fst sw" using assms(1) by (simp add: same_node_def)
  show ?thesis
  proof (cases "replica_nodes sha key (fst sw) = []")
    case True
    then show ?thesis using assms(1) s by (simp add: node_set_def agree_def same_node_def)
  next
    case False
    have "list_all2 (\<lambda>f g. \<forall>v w. same_node R v w \<longrightarrow> agree (same_node R) (f v) (g w))
        (map (\<lambda>h. handle_set P now wall h key v ttl ts) hs) (map (\<lambda>h. handle_set Q now wall h key v ttl ts) hs)" for hs
      using set_agrees [OF _ assms(2)] by (simp add: list_all2_conv_all_nth)
    from run_each_agree [OF this assms(1)] show ?thesis using False s
      by (auto simp: node_set_def agree_def case_prod_beta Let_def split: sum.split)
  qed
qed

lemma node_delete_agrees:
  assumes "same_node R sv sw" and "M (delete_request key ts)"
  shows "agree (same_node R) (node_delete P sha wall ts key sv) (node_delete Q sha wall ts key sw)"
proof -
  have s: "fst sv = fst sw" using assms(1) by (simp add: same_node_def)
  show ?thesis
  proof (cases "replica_nodes sha key (fst sw) = []")
    case True
    then show ?thesis using assms(1) s by (simp add: node_delete_def agree_def same_node_def)
  next
    case False
    have "list_all2 (\<lambda>f g. \<forall>v w. same_node R v w \<longrightarrow> agree (same_node R) (f v) (g w))
        (map (\<lambda>h. handle_delete P wall h key ts) hs) (map (\<lambda>h. handle_delete Q wall h key ts) hs)" for hs
      using delete_agrees [OF _ assms(2)] by (simp add: list_all2_conv_all_nth)
    from run_each_agree [OF this assms(1)] show ?thesis using False s
      by (auto simp: node_delete_def agree_def case_prod_beta Let_def split: sum.split)
  qed
qed

end

section \<open>Sockets that end at the peers' server loops\<close>

text \<open>
  The connections of node \<open>a\<close>: which peer each one leads to, what it has received and not read,
  and the nodes behind them. A request makes the peer's \<open>_handle_client\<close> run once; when its loop ends
  it closes the connection.
\<close>

record wires =
  wi_made :: nat
  wi_open :: "nat list"
  wi_peer :: "nat \<Rightarrow> NodeInfo"
  wi_in :: "nat \<Rightarrow> rx list"
  wi_nodes :: cluster

definition wi_connect :: "env \<Rightarrow> NodeInfo \<Rightarrow> string \<Rightarrow> int \<Rightarrow> wires \<Rightarrow> nat res \<times> wires" where
  "wi_connect E a h pt n =
     (let b = \<lparr>host = h, port = pt\<rparr>; s = Suc (wi_made n)
      in if wi_nodes n b \<noteq> None \<and> e_link E a b \<noteq> Unreachable
         then (Inr s, n\<lparr>wi_made := s, wi_open := s # wi_open n, wi_peer := (wi_peer n)(s := b),
                        wi_in := (wi_in n)(s := [])\<rparr>)
         else (Inl OSError, n))"

definition wi_sendall :: "env \<Rightarrow> (Message \<Rightarrow> byte list) \<Rightarrow> (byte list \<Rightarrow> Message res) \<Rightarrow> nat \<Rightarrow> byte list \<Rightarrow> wires
    \<Rightarrow> unit res \<times> wires" where
  "wi_sendall E dumps loads s bs n =
     (let b = wi_peer n s
      in case wi_nodes n b of
           Some sn \<Rightarrow>
             if s \<in> set (wi_open n)
             then (case handle_client idle_pool (\<lambda>i. (e_now E b, e_wall E b)) dumps loads (\<lambda>i. True) 1 ([Data bs], sn, ()) of
                     (out, running, _, sn', _) \<Rightarrow>
                       (Inr (), n\<lparr>wi_in := (wi_in n)(s := wi_in n s @ map Data out),
                                  wi_open := (if running then wi_open n else removeAll s (wi_open n)),
                                  wi_nodes := (wi_nodes n)(b \<mapsto> sn')\<rparr>))
             else (Inl OSError, n)
         | None \<Rightarrow> (Inl OSError, n))"

definition server_net :: "env \<Rightarrow> NodeInfo \<Rightarrow> (Message \<Rightarrow> byte list) \<Rightarrow> (byte list \<Rightarrow> Message res) \<Rightarrow> (wires, rx list) net_ops" where
  "server_net E a dumps loads =
     \<lparr>n_connect = wi_connect E a,
      n_sendall = wi_sendall E dumps loads,
      n_incoming = (\<lambda>s n. wi_in n s),
      n_advance = (\<lambda>s st n. n\<lparr>wi_in := (wi_in n)(s := st)\<rparr>),
      n_close = (\<lambda>s n. (Inr (), n\<lparr>wi_open := removeAll s (wi_open n)\<rparr>)),
      n_closing = (\<lambda>s n. s \<notin> set (wi_open n)),
      n_made = (\<lambda>n. {..wi_made n}),
      n_open = (\<lambda>n. set (wi_open n) \<inter> {..wi_made n})\<rparr>"

lemma server_net_sel [simp]:
  "n_connect (server_net E a dumps loads) = wi_connect E a"
  "n_sendall (server_net E a dumps loads) = wi_sendall E dumps loads"
  "n_incoming (server_net E a dumps loads) s n = wi_in n s"
  "n_advance (server_net E a dumps loads) s st n = n\<lparr>wi_in := (wi_in n)(s := st)\<rparr>"
  "n_close (server_net E a dumps loads) s n = (Inr (), n\<lparr>wi_open := removeAll s (wi_open n)\<rparr>)"
  "n_made (server_net E a dumps loads) n = {..wi_made n}"
  by (simp_all add: server_net_def)

lemma server_net_laws: "net_laws (server_net E a dumps loads)" "closes_quietly (server_net E a dumps loads)"
proof -
  show "closes_quietly (server_net E a dumps loads)" by (simp add: closes_quietly_def server_net_def)
  have "wi_made (snd (wi_sendall E dumps loads s bs n)) = wi_made n
      \<and> set (wi_open (snd (wi_sendall E dumps loads s bs n))) \<subseteq> set (wi_open n)" for s bs n
    by (auto simp: wi_sendall_def Let_def split: option.split prod.split)
  then show "net_laws (server_net E a dumps loads)"
    by (auto simp: net_laws_def server_net_def wi_connect_def Let_def split: if_splits)
qed

text \<open>A connection that a pool may keep: open, nothing left to read, and its peer serves it.\<close>

definition live_to :: "env \<Rightarrow> NodeInfo \<Rightarrow> wires \<Rightarrow> nat \<Rightarrow> NodeInfo \<Rightarrow> bool" where
  "live_to E a n s b \<longleftrightarrow> s \<in> set (wi_open n) \<and> wi_in n s = [] \<and> wi_peer n s = b \<and> wi_nodes n b \<noteq> None
     \<and> e_link E a b = Up"

definition idle_live :: "env \<Rightarrow> NodeInfo \<Rightarrow> (string \<Rightarrow> nat list) \<Rightarrow> wires \<Rightarrow> bool" where
  "idle_live E a idle n \<longleftrightarrow> (\<forall>b. \<forall>s \<in> set (idle (node_address b)). live_to E a n s b)"

definition stack_ok :: "env \<Rightarrow> NodeInfo \<Rightarrow> (Message \<Rightarrow> byte list) \<Rightarrow> (byte list \<Rightarrow> Message res) \<Rightarrow> int \<Rightarrow> SyncPool \<times> wires \<Rightarrow> bool" where
  "stack_ok E a dumps loads mx w \<longleftrightarrow> sp_inv (server_net E a dumps loads) mx {} w
     \<and> idle_live E a (sp_idle w) (snd w) \<and> (\<forall>b. e_link E a b \<noteq> ReplyLost)"

text \<open>What the codec must do with the messages in question: fit the header, and come back.\<close>

definition wire_ok :: "(Message \<Rightarrow> byte list) \<Rightarrow> (byte list \<Rightarrow> Message res) \<Rightarrow> Message \<Rightarrow> bool" where
  "wire_ok dumps loads m \<longleftrightarrow> length (dumps m) < 2 ^ 32 \<and> loads (dumps m) = Inr m"

text \<open>
  The requests \<open>M\<close> and the clusters \<open>I\<close> of one operation: every peer answers every request with a
  message the codec can carry.
\<close>

definition serving :: "env \<Rightarrow> (Message \<Rightarrow> byte list) \<Rightarrow> (byte list \<Rightarrow> Message res) \<Rightarrow> (Message \<Rightarrow> bool) \<Rightarrow> (cluster \<Rightarrow> bool) \<Rightarrow> bool" where
  "serving E dumps loads M I \<longleftrightarrow>
     (\<forall>m. M m \<longrightarrow> wire_ok dumps loads m)
     \<and> (\<forall>W b sn m. I W \<longrightarrow> W b = Some sn \<longrightarrow> M m \<longrightarrow>
          (\<exists>resp sn'. node_handle idle_pool (e_now E b, e_wall E b) m (sn, ()) = (Inr resp, sn', ())
             \<and> wire_ok dumps loads resp \<and> I (W(b \<mapsto> sn'))))"

section \<open>One request over a socket\<close>

text \<open>A frame that arrives in one piece is read completely.\<close>

lemma recvexactly_piece: "n \<le> length bs \<Longrightarrow> recvexactly n [Data bs] =
    (Inr (take n bs), if n = 0 then [Data bs] else if n = length bs then [] else [Data (drop n bs)])"
  by (cases "n = 0") (auto simp: recvexactly_def recv_loop.simps)

lemma recvexactly_none: "recvexactly 0 st = (Inr [], st)"
  by (simp add: recvexactly_def recv_loop.simps)

lemma recv_one:
  assumes "send_message dumps m = Inr bs"
  shows "recv_message loads [Data bs] = (loads (dumps m), [])"
proof -
  have bs: "length (dumps m) < 2 ^ 32" "bs = be_bytes HEADER_SIZE (length (dumps m)) @ dumps m"
    using assms(1) by (auto simp: send_message_Inr)
  have len: "from_bytes_big (be_bytes HEADER_SIZE (length (dumps m))) = length (dumps m)"
    using bs(1) by (intro from_be_bytes) (simp add: HEADER_SIZE_def)
  show ?thesis
    using bs(2) len
    by (cases "dumps m") (simp_all add: recv_message_def recv_message_with_def recvexactly_piece recvexactly_none HEADER_SIZE_def)
qed

lemma wire_ok_send:
  assumes "wire_ok dumps loads m"
  shows "\<exists>bs. send_message dumps m = Inr bs"
  using assms by (auto simp: wire_ok_def send_message_Inr)

lemma live_to_later:
  "live_to E a n x b \<Longrightarrow> x \<in> set (wi_open n') \<Longrightarrow> wi_in n' x = wi_in n x \<Longrightarrow> wi_peer n' x = wi_peer n x \<Longrightarrow>
    (wi_nodes n b \<noteq> None \<Longrightarrow> wi_nodes n' b \<noteq> None) \<Longrightarrow> live_to E a n' x b"
  by (auto simp: live_to_def)

text \<open>An exchange on a live connection: the peer handles the request once and its reply arrives.\<close>

lemma send_live:
  assumes "serving E dumps loads M I" and "I (wi_nodes n)" and "M m" and "live_to E a n s b"
  obtains bs resp sn sn' out where "wi_nodes n b = Some sn"
    and "node_handle idle_pool (e_now E b, e_wall E b) m (sn, ()) = (Inr resp, sn', ())"
    and "I ((wi_nodes n)(b \<mapsto> sn'))" and "send_message dumps m = Inr bs"
    and "wi_sendall E dumps loads s bs n =
      (Inr (), n\<lparr>wi_in := (wi_in n)(s := [Data out]), wi_nodes := (wi_nodes n)(b \<mapsto> sn')\<rparr>)"
    and "recv_message loads [Data out] = (Inr resp, [])" and "send_message dumps resp = Inr out"
    and "wire_ok dumps loads resp"
proof -
  obtain sn where sn: "wi_nodes n b = Some sn" using assms(4) by (auto simp: live_to_def)
  obtain resp sn' where h: "node_handle idle_pool (e_now E b, e_wall E b) m (sn, ()) = (Inr resp, sn', ())"
      "wire_ok dumps loads resp" "I ((wi_nodes n)(b \<mapsto> sn'))" and m: "wire_ok dumps loads m"
    using assms(1-3) sn unfolding serving_def by blast
  obtain bs out where bs: "send_message dumps m = Inr bs" "send_message dumps resp = Inr out"
    using wire_ok_send [OF m] wire_ok_send [OF h(2)] by blast
  have get: "recv_message loads [Data bs] = (Inr m, [])" "recv_message loads [Data out] = (Inr resp, [])"
    using recv_one [OF bs(1)] recv_one [OF bs(2)] m h(2) by (simp_all add: wire_ok_def)
  have "handle_client idle_pool (\<lambda>i. (e_now E b, e_wall E b)) dumps loads (\<lambda>i. True) 1 ([Data bs], sn, ())
      = ([out], True, [], sn', ())"
    using get(1) h(1) bs(2) by (simp add: handle_client_def)
  then have "wi_sendall E dumps loads s bs n =
      (Inr (), n\<lparr>wi_in := (wi_in n)(s := [Data out]), wi_nodes := (wi_nodes n)(b \<mapsto> sn')\<rparr>)"
    using assms(4) sn by (simp add: wi_sendall_def live_to_def)
  from that [OF sn h(1) h(3) bs(1) this get(2) bs(2) h(2)] show thesis .
qed

lemma attempt_live:
  assumes "serving E dumps loads M I" and "I (wi_nodes n)" and "M m" and "live_to E a n s b"
    and "idle_live E a (q_of (sp_queues p)) n" and "\<forall>c. s \<notin> set (q_of (sp_queues p) (node_address c))"
  obtains resp sn sn' p' n' where "wi_nodes n b = Some sn"
    and "node_handle idle_pool (e_now E b, e_wall E b) m (sn, ()) = (Inr resp, sn', ())"
    and "sp_attempt (server_net E a dumps loads) dumps loads (node_address b) s m (p, n) = (Inr resp, p', n')"
    and "wi_nodes n' = (wi_nodes n)(b \<mapsto> sn')" and "I (wi_nodes n')" and "idle_live E a (q_of (sp_queues p')) n'"
proof -
  obtain bs resp sn sn' out where e: "wi_nodes n b = Some sn"
    "node_handle idle_pool (e_now E b, e_wall E b) m (sn, ()) = (Inr resp, sn', ())"
    "I ((wi_nodes n)(b \<mapsto> sn'))" "send_message dumps m = Inr bs"
    "wi_sendall E dumps loads s bs n =
      (Inr (), n\<lparr>wi_in := (wi_in n)(s := [Data out]), wi_nodes := (wi_nodes n)(b \<mapsto> sn')\<rparr>)"
    "recv_message loads [Data out] = (Inr resp, [])"
    using send_live [OF assms(1-4)] by metis
  have "(wi_in n)(s := []) = wi_in n" using assms(4) by (auto simp: live_to_def)
  then have attempt: "sp_attempt (server_net E a dumps loads) dumps loads (node_address b) s m (p, n) =
      (case lifo_put (sp_max p) s (q_of (sp_queues p) (node_address b)) of
         Some q \<Rightarrow> (Inr resp, sp_put (node_address b) q p, n\<lparr>wi_nodes := (wi_nodes n)(b \<mapsto> sn')\<rparr>)
       | None \<Rightarrow> (Inr resp, p, n\<lparr>wi_nodes := (wi_nodes n)(b \<mapsto> sn'), wi_open := removeAll s (wi_open n)\<rparr>))"
    using e(4-6) by (simp add: sp_attempt_def split: option.split)
  note e = e(1-3)
  have still: "live_to E a n' x c" if "live_to E a n x c" "x \<in> set (wi_open n')" "wi_in n' = wi_in n"
    "wi_peer n' = wi_peer n" "wi_nodes n' = (wi_nodes n)(b \<mapsto> sn')" for n' x c
    using that by (auto simp: live_to_def)
  show thesis
  proof (cases "lifo_put (sp_max p) s (q_of (sp_queues p) (node_address b))")
    case (Some q)
    let ?n' = "n\<lparr>wi_nodes := (wi_nodes n)(b \<mapsto> sn')\<rparr>"
    have q: "q = s # q_of (sp_queues p) (node_address b)" using lifo_put_fits [OF Some] by simp
    have live: "live_to E a ?n' x c" if "x \<in> set (q_of (sp_queues (sp_put (node_address b) q p)) (node_address c))" for x c
    proof -
      have "live_to E a n x c"
        using that assms(4,5) q by (auto simp: idle_live_def node_address_inj split: if_splits)
      moreover from this have "x \<in> set (wi_open ?n')" by (simp add: live_to_def)
      ultimately show ?thesis by (rule still) simp_all
    qed
    show thesis
      by (rule that [OF e(1,2), of "sp_put (node_address b) q p" ?n'])
        (use attempt Some e(3) live in \<open>simp_all add: idle_live_def del: fun_upd_apply\<close>)
  next
    case None
    let ?n' = "n\<lparr>wi_nodes := (wi_nodes n)(b \<mapsto> sn'), wi_open := removeAll s (wi_open n)\<rparr>"
    have live: "live_to E a ?n' x c" if "x \<in> set (q_of (sp_queues p) (node_address c))" for x c
    proof -
      have "live_to E a n x c" using that assms(5) by (simp add: idle_live_def)
      moreover from this have "x \<in> set (wi_open ?n')" using that assms(6) by (auto simp: live_to_def)
      ultimately show ?thesis by (rule still) simp_all
    qed
    show thesis
      by (rule that [OF e(1,2), of p ?n']) (use attempt None e(3) live in \<open>simp_all add: idle_live_def del: fun_upd_apply\<close>)
  qed
qed

lemma execute_live:
  assumes "serving E dumps loads M I" and "I (wi_nodes n)" and "M m" and "stack_ok E a dumps loads mx (p, n)"
    and "sp_execute (server_net E a dumps loads) dumps loads h pt m (p, n) = (r, p', n')"
  shows "cluster_exec E a h pt m (wi_nodes n) = (Inr r, wi_nodes n') \<and> I (wi_nodes n')
    \<and> stack_ok E a dumps loads mx (p', n')"
proof -
  let ?net = "server_net E a dumps loads" and ?b = "\<lparr>host = h, port = pt\<rparr>"
  let ?a = "peer_address h pt"
  have addr: "?a = node_address ?b" by (simp add: peer_address_def node_address_def)
  have inv: "sp_inv ?net mx {} (p, n)" and live: "idle_live E a (q_of (sp_queues p)) n"
    and links: "\<forall>b. e_link E a b \<noteq> ReplyLost"
    using assms(4) by (auto simp: stack_ok_def sp_idle_def [abs_def])
  have pool: "distinct (q_of (sp_queues p) c) \<and> set (q_of (sp_queues p) c) \<subseteq> {..wi_made n}
      \<and> (\<forall>d. c \<noteq> d \<longrightarrow> set (q_of (sp_queues p) c) \<inter> set (q_of (sp_queues p) d) = {})" for c
    using inv by (auto simp: sp_inv_def pool_inv_def server_net_def)
  have inv': "sp_inv ?net mx {} (p', n')" using sp_execute_inv [OF inv, of dumps loads h pt m] assms(5) by simp
  have outcome: "cluster_exec E a h pt m (wi_nodes n) = (Inr r, wi_nodes n') \<and> I (wi_nodes n')
      \<and> idle_live E a (q_of (sp_queues p')) n'"
  proof (cases "wi_nodes n ?b = None \<or> e_link E a ?b = Unreachable")
    case True
    then have "q_of (sp_queues p) ?a = []"
      using live unfolding idle_live_def addr live_to_def by (metis link.distinct(1) list.set_intros(1) neq_Nil_conv)
    moreover have "wi_connect E a h pt n = (Inl OSError, n)" using True by (auto simp: wi_connect_def)
    ultimately have "(r, p', n') = (None, sp_queue ?a p, n)"
      using assms(5) by (simp add: sp_execute_def lifo_get_def Let_def)
    then show ?thesis using True live assms(2)
      by (auto simp: cluster_exec_def idle_live_def Let_def split: option.split)
  next
    case False
    then have up: "e_link E a ?b = Up" using links by (cases "e_link E a ?b") auto
    have answer: ?thesis if "sp_first ?net dumps loads h pt m reused s (p1, n1) = (r, p', n')" "live_to E a n1 s ?b"
      "wi_nodes n1 = wi_nodes n" "idle_live E a (q_of (sp_queues p1)) n1" "\<forall>c. s \<notin> set (q_of (sp_queues p1) (node_address c))"
      for reused s p1 n1
    proof -
      have "I (wi_nodes n1)" using assms(2) that(3) by simp
      from attempt_live [OF assms(1) this assms(3) that(2,4,5)] obtain resp sn sn' p2 n2 where
        outcome: "wi_nodes n1 ?b = Some sn"
        "node_handle idle_pool (e_now E ?b, e_wall E ?b) m (sn, ()) = (Inr resp, sn', ())"
        "sp_attempt ?net dumps loads (node_address ?b) s m (p1, n1) = (Inr resp, p2, n2)"
        "wi_nodes n2 = (wi_nodes n1)(?b \<mapsto> sn')" "I (wi_nodes n2)" "idle_live E a (q_of (sp_queues p2)) n2" by metis
      then have "r = Some resp" "p' = p2" "n' = n2" using that(1) by (simp_all add: sp_first_def addr)
      then show ?thesis using outcome up that(3) by (simp add: cluster_exec_def)
    qed
    show ?thesis
    proof (cases "q_of (sp_queues p) ?a")
      case Nil
      let ?s = "Suc (wi_made n)"
      let ?n1 = "n\<lparr>wi_made := ?s, wi_open := ?s # wi_open n, wi_peer := (wi_peer n)(?s := ?b), wi_in := (wi_in n)(?s := [])\<rparr>"
      have fresh: "?s \<notin> set (q_of (sp_queues p) c)" for c using pool [of c] by auto
      have "sp_first ?net dumps loads h pt m False ?s (sp_queue ?a p, ?n1) = (r, p', n')"
        using assms(5) Nil False by (simp add: sp_execute_def lifo_get_def wi_connect_def Let_def)
      moreover have "idle_live E a (q_of (sp_queues (sp_queue ?a p))) ?n1"
        unfolding idle_live_def
      proof (intro allI ballI)
        fix c x assume x: "x \<in> set (q_of (sp_queues (sp_queue ?a p)) (node_address c))"
        then have "live_to E a n x c" "x \<noteq> ?s" using live fresh by (auto simp: idle_live_def)
        then show "live_to E a ?n1 x c" by (auto simp: live_to_def)
      qed
      ultimately show ?thesis
        using False up fresh by (intro answer [of False ?s "sp_queue ?a p" ?n1]) (auto simp: live_to_def)
    next
      case (Cons s q)
      have "sp_first ?net dumps loads h pt m True s (sp_put ?a q (sp_queue ?a p), n) = (r, p', n')"
        using assms(5) Cons by (simp add: sp_execute_def lifo_get_def Let_def)
      moreover have "live_to E a n s ?b" using live Cons unfolding idle_live_def addr by simp
      moreover have "s \<notin> set (q_of (sp_queues (sp_put ?a q (sp_queue ?a p))) c)" for c
        using pool [of ?a] Cons by (auto split: if_splits)
      moreover have "idle_live E a (q_of (sp_queues (sp_put ?a q (sp_queue ?a p)))) n"
        using live Cons by (auto simp: idle_live_def addr)
      ultimately show ?thesis by (intro answer [of True s "sp_put ?a q (sp_queue ?a p)" n]) auto
    qed
  qed
  then show ?thesis using inv' links by (simp add: stack_ok_def sp_idle_def [abs_def])
qed

section \<open>The node API over sockets\<close>

definition stack_rel :: "env \<Rightarrow> (Message \<Rightarrow> byte list) \<Rightarrow> (byte list \<Rightarrow> Message res) \<Rightarrow> ('w \<Rightarrow> bool) \<Rightarrow> ('w \<Rightarrow> cluster)
    \<Rightarrow> (Message \<Rightarrow> bool) \<Rightarrow> (cluster \<Rightarrow> bool) \<Rightarrow> 'w \<Rightarrow> cluster \<Rightarrow> bool" where
  "stack_rel E dumps loads ok nodes M I w W \<longleftrightarrow> serving E dumps loads M I \<and> ok w \<and> nodes w = W \<and> I W"

lemma node_handle_store:
  "\<not> is_gossip (mtype msg) \<Longrightarrow> dispatch now wall msg (sn_store sn) = (Inr resp, st) \<Longrightarrow>
    node_handle idle_pool (now, wall) msg (sn, ()) = (Inr resp, sn\<lparr>sn_store := st\<rparr>, ())"
  by (simp add: node_handle_def)

lemma serving_set:
  assumes "wire_ok dumps loads (set_request key v ttl ts)" and "wire_ok dumps loads (message OK (PDict [(''key'', PStr key)]))"
    and "\<And>W b sn sn'. I W \<Longrightarrow> W b = Some sn \<Longrightarrow> I (W(b \<mapsto> sn'))"
  shows "serving E dumps loads (\<lambda>m. m = set_request key v ttl ts) I"
  using assms by (auto simp: serving_def node_handle_def dispatch_replica)

lemma serving_delete:
  assumes "wire_ok dumps loads (delete_request key ts)"
    and "wire_ok dumps loads (message OK (PDict [(''key'', PStr key)]))"
    and "wire_ok dumps loads (message NOT_FOUND (PDict [(''key'', PStr key)]))"
  shows "serving E dumps loads (\<lambda>m. m = delete_request key ts) (\<lambda>W. True)"
  using assms by (auto simp: serving_def node_handle_def dispatch_replica)

text \<open>What every running node would answer to a read of the key can be carried.\<close>

definition replies_ok :: "env \<Rightarrow> (Message \<Rightarrow> byte list) \<Rightarrow> (byte list \<Rightarrow> Message res) \<Rightarrow> string \<Rightarrow> cluster \<Rightarrow> bool" where
  "replies_ok E dumps loads key W \<longleftrightarrow>
     (\<forall>b sn. W b = Some sn \<longrightarrow> wire_ok dumps loads (get_reply key (lww_version (e_now E b) (sn_store sn) key)))"

lemma serving_get:
  assumes "wire_ok dumps loads (get_request key)"
  shows "serving E dumps loads (\<lambda>m. m = get_request key) (replies_ok E dumps loads key)"
  using assms
  by (auto simp: serving_def node_handle_def dispatch_replica replies_ok_def lww_get_versioned_version)

lemma agree_pair: "agree (same_node R) (r, s', v') (r2, s2, w2) \<longleftrightarrow> r = r2 \<and> s' = s2 \<and> R v' w2"
  by (auto simp: agree_def same_node_def)

text \<open>A call of a node beside the cluster is the call of that node in it.\<close>

lemma beside_cluster: "W a = None \<Longrightarrow> f (s, W) = (r, s1, W1) \<Longrightarrow> at_node a f (W(a \<mapsto> s)) = (Some r, W1(a \<mapsto> s1))"
  by (simp add: at_node_def fun_upd_idem)

text \<open>What the replies of a read carry after a write.\<close>

lemma written_replies:
  assumes "W a = None" and "node_ok (W(a \<mapsto> s)) a s" and "replica_nodes sha key s \<noteq> []"
    and "\<forall>n s1 t. (W(a \<mapsto> s)) n = Some s1 \<longrightarrow> lww_stamp (sn_store s1) key = Some t \<longrightarrow> t < ts"
    and "wire_ok dumps loads (get_reply key (Some (v, ts, False)))" and "replies_ok E dumps loads key W"
    and "W1(a \<mapsto> s1) = snd (cluster_set E sha a ts key v None (W(a \<mapsto> s)))" and "W1 a = None"
  shows "replies_ok E dumps loads key W1"
  unfolding replies_ok_def
proof (intro allI impI)
  fix b sn assume b: "W1 b = Some sn"
  then have "b \<noteq> a" using assms(8) by auto
  have "W1(a \<mapsto> s1) = upd_stores E a (set_effect E key v None ts) (set (replica_nodes sha key s)) (W(a \<mapsto> s))"
    using assms(7) cluster_set_eq [OF assms(2,3), of E ts v None] by simp
  then have "upd_stores E a (set_effect E key v None ts) (set (replica_nodes sha key s)) (W(a \<mapsto> s)) b = Some sn"
    using b \<open>b \<noteq> a\<close> by (metis fun_upd_other)
  then obtain sb where sb: "W b = Some sb"
    "sn_store sn = sn_store sb \<or> sn_store sn = set_effect E key v None ts b (sn_store sb)"
    using \<open>b \<noteq> a\<close> by (auto simp: upd_stores_def split: if_splits)
  have "\<forall>t. lww_stamp (sn_store sb) key = Some t \<longrightarrow> t < ts" using assms(4) sb(1) \<open>b \<noteq> a\<close> by (metis fun_upd_other)
  from set_effect_version [OF this, of "e_now E b" E v b]
  have "lww_version (e_now E b) (sn_store sn) key \<in> {lww_version (e_now E b) (sn_store sb) key, Some (v, ts, False)}"
    using sb(2) by auto
  then show "wire_ok dumps loads (get_reply key (lww_version (e_now E b) (sn_store sn) key))"
    using assms(5,6) sb(1) unfolding replies_ok_def by auto
qed

text \<open>
  What the node API needs of a pool over sockets: in a state that is in order, every request of a served
  operation has the result and the effect of \<open>cluster_exec\<close>, and the state is in order afterwards.
\<close>

locale peer_pool =
  fixes E :: env and a :: NodeInfo and dumps :: "Message \<Rightarrow> byte list" and loads :: "byte list \<Rightarrow> Message res"
    and P :: "'w pool_ops" and ok :: "'w \<Rightarrow> bool" and nodes :: "'w \<Rightarrow> cluster"
  assumes exec_live: "serving E dumps loads M I \<Longrightarrow> I (nodes w) \<Longrightarrow> M m \<Longrightarrow> ok w \<Longrightarrow> p_exec P h pt m w = (r, w') \<Longrightarrow>
    cluster_exec E a h pt m (nodes w) = (r, nodes w') \<and> I (nodes w') \<and> ok w'"
begin

lemma simulates: "pool_simulation P (cluster_pool E a) (stack_rel E dumps loads ok nodes M I) M"
proof
  fix w W m h pt
  assume rel: "stack_rel E dumps loads ok nodes M I w W" and m: "M m"
  obtain r w' where run: "p_exec P h pt m w = (r, w')" by fastforce
  from rel have "serving E dumps loads M I" "I (nodes w)" "ok w" by (simp_all add: stack_rel_def)
  from exec_live [OF this(1,2) m this(3) run] rel
  show "agree (stack_rel E dumps loads ok nodes M I) (p_exec P h pt m w) (p_exec (cluster_pool E a) h pt m W)"
    by (simp add: agree_def stack_rel_def cluster_pool_def run)
qed

lemma write_refines:
  assumes "ok w" and "wire_ok dumps loads (set_request key v ttl ts)"
    and "wire_ok dumps loads (message OK (PDict [(''key'', PStr key)]))"
    and "node_set P sha now wall ts key v ttl (s, w) = (r, s', w')"
  shows "node_set (cluster_pool E a) sha now wall ts key v ttl (s, nodes w) = (r, s', nodes w')
    \<and> ok w' \<and> (nodes w a = None \<longrightarrow> nodes w' a = None)"
proof -
  let ?M = "\<lambda>m. m = set_request key v ttl ts" and ?I = "\<lambda>W::cluster. nodes w a = None \<longrightarrow> W a = None"
  have "serving E dumps loads ?M ?I" by (rule serving_set [OF assms(2,3)]) auto
  then have "same_node (stack_rel E dumps loads ok nodes ?M ?I) (s, w) (s, nodes w)"
    using assms(1) by (simp add: same_node_def stack_rel_def)
  from pool_simulation.node_set_agrees [OF simulates this refl, of sha now wall] show ?thesis
    unfolding assms(4)
    by (cases "node_set (cluster_pool E a) sha now wall ts key v ttl (s, nodes w)")
      (auto simp: agree_pair stack_rel_def)
qed

lemma read_refines:
  assumes "ok w" and "wire_ok dumps loads (get_request key)" and "replies_ok E dumps loads key (nodes w)"
    and "node_get P sha lww_read_resolve now key (s, w) = (x, s', w')"
  shows "node_get (cluster_pool E a) sha lww_read_resolve now key (s, nodes w) = (x, s', nodes w')
    \<and> ok w' \<and> replies_ok E dumps loads key (nodes w')"
proof -
  let ?M = "\<lambda>m. m = get_request key"
  have "same_node (stack_rel E dumps loads ok nodes ?M (replies_ok E dumps loads key)) (s, w) (s, nodes w)"
    using assms(1,3) serving_get [OF assms(2)] by (simp add: same_node_def stack_rel_def)
  from pool_simulation.node_get_agrees [OF simulates this refl, of sha now] show ?thesis
    unfolding assms(4)
    by (cases "node_get (cluster_pool E a) sha lww_read_resolve now key (s, nodes w)")
      (auto simp: agree_pair stack_rel_def)
qed

lemma delete_refines:
  assumes "ok w" and "wire_ok dumps loads (delete_request key ts)"
    and "wire_ok dumps loads (message OK (PDict [(''key'', PStr key)]))"
    and "wire_ok dumps loads (message NOT_FOUND (PDict [(''key'', PStr key)]))"
    and "node_delete P sha wall ts key (s, w) = (r, s', w')"
  shows "node_delete (cluster_pool E a) sha wall ts key (s, nodes w) = (r, s', nodes w') \<and> ok w'"
proof -
  let ?M = "\<lambda>m. m = delete_request key ts" and ?I = "\<lambda>W::cluster. True"
  have "same_node (stack_rel E dumps loads ok nodes ?M ?I) (s, w) (s, nodes w)"
    using assms(1) serving_delete [OF assms(2-4)] by (simp add: same_node_def stack_rel_def)
  from pool_simulation.node_delete_agrees [OF simulates this refl, of sha wall] show ?thesis
    unfolding assms(5)
    by (cases "node_delete (cluster_pool E a) sha wall ts key (s, nodes w)")
      (auto simp: agree_pair stack_rel_def)
qed

lemma read_your_writes:
  assumes "ok w" and "nodes w a = None"
    and "node_ok ((nodes w)(a \<mapsto> s)) a s" and "n0 \<in> set (replica_nodes sha key s)"
    and "n0 = a \<or> nodes w n0 \<noteq> None \<and> e_link E a n0 = Up"
    and "\<forall>n s1 t. ((nodes w)(a \<mapsto> s)) n = Some s1 \<longrightarrow> lww_stamp (sn_store s1) key = Some t \<longrightarrow> t < ts" and "0 \<le> ts"
    and "\<forall>m \<in> {set_request key v None ts, message OK (PDict [(''key'', PStr key)]), get_request key,
          get_reply key (Some (v, ts, False))}. wire_ok dumps loads m"
    and "replies_ok E dumps loads key (nodes w)"
    and "node_set P sha (e_now E a) (e_wall E a) ts key v None (s, w) = (r, s1, w1)"
    and "node_get P sha lww_read_resolve (e_now E a) key (s1, w1) = (x, s2, w2)"
  shows "x = v"
proof -
  have set: "node_set (cluster_pool E a) sha (e_now E a) (e_wall E a) ts key v None (s, nodes w) = (r, s1, nodes w1)"
    and ok1: "ok w1" and a1: "nodes w1 a = None"
    using write_refines [OF assms(1) _ _ assms(10)] assms(2,8) by auto
  have wrote: "(nodes w1)(a \<mapsto> s1) = snd (cluster_set E sha a ts key v None ((nodes w)(a \<mapsto> s)))"
    using beside_cluster [of "nodes w" a "node_set (cluster_pool E a) sha (e_now E a) (e_wall E a) ts key v None", OF assms(2) set]
    by (simp add: cluster_set_def)
  have "replica_nodes sha key s \<noteq> []" using assms(4) by auto
  from written_replies [OF assms(2,3) this assms(6) _ assms(9) wrote a1] assms(8)
  have "replies_ok E dumps loads key (nodes w1)" by blast
  from read_refines [OF ok1 _ this assms(11)] assms(8)
  have "node_get (cluster_pool E a) sha lww_read_resolve (e_now E a) key (s1, nodes w1) = (x, s2, nodes w2)"
    by blast
  from beside_cluster [of "nodes w1" a "node_get (cluster_pool E a) sha lww_read_resolve (e_now E a) key", OF a1 this] have "fst (cluster_get E sha a key ((nodes w1)(a \<mapsto> s1))) = Some x"
    by (simp add: cluster_get_def)
  moreover have "fst (cluster_get E sha a key ((nodes w1)(a \<mapsto> s1))) = Some v"
    using read_after_write [OF assms(3,3,4,4) _ _ _ assms(6,7) wrote, of E "[0..<length (replica_nodes sha key s)]"] assms(5)
    by (auto simp: schedule_def)
  ultimately show "x = v" by simp
qed

end

section \<open>The blocking pool\<close>

abbreviation stack_pool :: "env \<Rightarrow> NodeInfo \<Rightarrow> (Message \<Rightarrow> byte list) \<Rightarrow> (byte list \<Rightarrow> Message res) \<Rightarrow> (SyncPool \<times> wires) pool_ops" where
  "stack_pool E a dumps loads \<equiv> sync_pool_ops (server_net E a dumps loads) dumps loads"

interpretation stack: peer_pool E a dumps loads "stack_pool E a dumps loads" "stack_ok E a dumps loads mx" "\<lambda>w. wi_nodes (snd w)"
  for E a dumps loads mx
proof
  fix M I w m h pt r w'
  assume s: "serving E dumps loads M I" "I (wi_nodes (snd w))" "M m" "stack_ok E a dumps loads mx w"
    and run: "p_exec (stack_pool E a dumps loads) h pt m w = (r, w')"
  obtain p n x p' n' where w: "w = (p, n)" "sp_execute (server_net E a dumps loads) dumps loads h pt m (p, n) = (x, p', n')"
    by (metis prod.exhaust)
  from s have "I (wi_nodes n)" "stack_ok E a dumps loads mx (p, n)" by (simp_all add: w(1))
  from execute_live [OF s(1) this(1) s(3) this(2) w(2)] run
  show "cluster_exec E a h pt m (wi_nodes (snd w)) = (r, wi_nodes (snd w')) \<and> I (wi_nodes (snd w'))
      \<and> stack_ok E a dumps loads mx w'"
    by (auto simp: sync_pool_ops_def w)
qed

text \<open>C8.
  A write through the blocking pool, frames on sockets and the peers' server loops has the result and the
  effect on every replica that the cluster model gives it, with no hidden retry: whichever connections were
  pooled, whichever peers are down or unreachable; and it leaves the pool and its sockets in order for the
  next request. Hypotheses: the pooled connections are live, and the codec carries the request and the reply.
\<close>

theorem stack_set_refines:
  assumes "stack_ok E a dumps loads mx w"
    and "wire_ok dumps loads (set_request key v ttl ts)" and "wire_ok dumps loads (message OK (PDict [(''key'', PStr key)]))"
    and "node_set (stack_pool E a dumps loads) sha now wall ts key v ttl (s, w) = (r, s', w')"
  shows "node_set (cluster_pool E a) sha now wall ts key v ttl (s, wi_nodes (snd w)) = (r, s', wi_nodes (snd w'))
    \<and> stack_ok E a dumps loads mx w'"
  using stack.write_refines [OF assms] by blast

text \<open>A delete behaves likewise.\<close>

lemma stack_delete_refines:
  assumes "stack_ok E a dumps loads mx w" and "wire_ok dumps loads (delete_request key ts)"
    and "wire_ok dumps loads (message OK (PDict [(''key'', PStr key)]))"
    and "wire_ok dumps loads (message NOT_FOUND (PDict [(''key'', PStr key)]))"
    and "node_delete (stack_pool E a dumps loads) sha wall ts key (s, w) = (r, s', w')"
  shows "node_delete (cluster_pool E a) sha wall ts key (s, wi_nodes (snd w)) = (r, s', wi_nodes (snd w'))
    \<and> stack_ok E a dumps loads mx w'"
  using assms by (rule stack.delete_refines)

text \<open>C1.
  A node that writes a key and reads it back, both times through its pool, the sockets, the framing and the
  server loops of the peers, gets the value it wrote, when it is itself a replica or one replica runs and
  can be reached, and the timestamp is newer than what the replicas hold. Hypotheses: the pooled connections
  are live and the codec carries the messages of the two calls.
\<close>

theorem stack_read_your_writes:
  assumes "stack_ok E a dumps loads mx w" and "wi_nodes (snd w) a = None"
    and "node_ok ((wi_nodes (snd w))(a \<mapsto> s)) a s" and "n0 \<in> set (replica_nodes sha key s)"
    and "n0 = a \<or> wi_nodes (snd w) n0 \<noteq> None \<and> e_link E a n0 = Up"
    and "\<forall>n s1 t. ((wi_nodes (snd w))(a \<mapsto> s)) n = Some s1 \<longrightarrow> lww_stamp (sn_store s1) key = Some t \<longrightarrow> t < ts" and "0 \<le> ts"
    and "\<forall>m \<in> {set_request key v None ts, message OK (PDict [(''key'', PStr key)]), get_request key,
          get_reply key (Some (v, ts, False))}. wire_ok dumps loads m"
    and "replies_ok E dumps loads key (wi_nodes (snd w))"
    and "node_set (stack_pool E a dumps loads) sha (e_now E a) (e_wall E a) ts key v None (s, w) = (r, s1, w1)"
    and "node_get (stack_pool E a dumps loads) sha lww_read_resolve (e_now E a) key (s1, w1) = (x, s2, w2)"
  shows "x = v"
  using assms by (rule stack.read_your_writes)

section \<open>Witnesses\<close>

text \<open>A codec for a list of messages: a message is its position.\<close>

definition list_dumps :: "Message list \<Rightarrow> Message \<Rightarrow> byte list" where
  "list_dumps ms m = [word_of_nat (length (takeWhile (\<lambda>x. x \<noteq> m) ms))]"

definition list_loads :: "Message list \<Rightarrow> byte list \<Rightarrow> Message res" where
  "list_loads ms bs =
     (case bs of
        [b] \<Rightarrow> if unat b < length ms then Inr (ms ! unat b) else Inl UnpicklingError
      | _ \<Rightarrow> Inl UnpicklingError)"

lemma list_codec:
  assumes "m \<in> set ms" and "length ms \<le> 256"
  shows "wire_ok (list_dumps ms) (list_loads ms) m"
proof -
  let ?k = "length (takeWhile (\<lambda>x. x \<noteq> m) ms)"
  have k: "?k < length ms" "ms ! ?k = m"
  proof -
    obtain ys zs where "ms = ys @ m # zs" "m \<notin> set ys" using split_list_first [OF assms(1)] by blast
    then have "takeWhile (\<lambda>x. x \<noteq> m) ms = ys" by (auto simp: takeWhile_append)
    then show "?k < length ms" "ms ! ?k = m" using \<open>ms = ys @ m # zs\<close> by simp_all
  qed
  then have "unat (word_of_nat ?k :: byte) = ?k" using assms(2) by (simp add: unat_of_nat)
  then show ?thesis using k by (simp add: wire_ok_def list_dumps_def list_loads_def)
qed

definition demo_messages :: "Message list" where
  "demo_messages = [set_request ''k'' (PInt 7) None 5, message OK (PDict [(''key'', PStr ''k'')]), get_request ''k'',
     get_reply ''k'' (Some (PInt 7, 5, False)), get_reply ''k'' None]"

definition demo_wires :: wires where
  "demo_wires = \<lparr>wi_made = 0, wi_open = [], wi_peer = (\<lambda>s. demo_node 2), wi_in = (\<lambda>s. []),
     wi_nodes = [demo_node 2 \<mapsto> demo_storage 2]\<rparr>"

definition demo_stack :: "SyncPool \<times> wires" where
  "demo_stack = (sp_init 2, demo_wires)"

lemma demo_stack_ok: "stack_ok (demo_env Up) (demo_node 1) dumps loads 2 demo_stack"
  using server_net_laws [of "demo_env Up" "demo_node 1" dumps loads]
  by (auto simp: stack_ok_def demo_stack_def demo_wires_def sp_inv_def sp_init_def pool_inv_def fits_def idle_live_def
      sp_idle_def demo_env_def server_net_def wf_dict_def split: option.split)

lemma demo_codec: "m \<in> set demo_messages \<Longrightarrow> wire_ok (list_dumps demo_messages) (list_loads demo_messages) m"
  by (rule list_codec) (simp_all add: demo_messages_def)

lemma stack_set_refines_witness:
  "\<exists>r s' w'. node_set (stack_pool (demo_env Up) (demo_node 1) (list_dumps demo_messages) (list_loads demo_messages))
      (\<lambda>s. []) 0 0 5 ''k'' (PInt 7) None (demo_storage 1, demo_stack) = (r, s', w')
    \<and> node_set (cluster_pool (demo_env Up) (demo_node 1)) (\<lambda>s. []) 0 0 5 ''k'' (PInt 7) None
        (demo_storage 1, [demo_node 2 \<mapsto> demo_storage 2]) = (r, s', wi_nodes (snd w'))"
proof -
  obtain r s' w' where run: "node_set (stack_pool (demo_env Up) (demo_node 1) (list_dumps demo_messages) (list_loads demo_messages))
      (\<lambda>s. []) 0 0 5 ''k'' (PInt 7) None (demo_storage 1, demo_stack) = (r, s', w')"
    by (metis prod.exhaust)
  have "wire_ok (list_dumps demo_messages) (list_loads demo_messages) (set_request ''k'' (PInt 7) None 5)"
    "wire_ok (list_dumps demo_messages) (list_loads demo_messages) (message OK (PDict [(''key'', PStr ''k'')]))"
    by (rule demo_codec; simp add: demo_messages_def)+
  from stack_set_refines [OF demo_stack_ok this run] run show ?thesis by (auto simp: demo_stack_def demo_wires_def)
qed

text \<open>The other hypotheses of a write and a read, at a node whose one peer runs.\<close>

lemma demo_wires_ok:
  "wi_nodes demo_wires (demo_node 1) = None"
  "node_ok ((wi_nodes demo_wires)(demo_node 1 \<mapsto> demo_storage 1)) (demo_node 1) (demo_storage 1)"
  "demo_node 1 \<in> set (replica_nodes (\<lambda>s. []) ''k'' (demo_storage 1))"
  "\<forall>n s1 t. ((wi_nodes demo_wires)(demo_node 1 \<mapsto> demo_storage 1)) n = Some s1 \<longrightarrow> lww_stamp (sn_store s1) ''k'' = Some t \<longrightarrow> t < 5"
  "\<forall>m \<in> {set_request ''k'' (PInt 7) None 5, message OK (PDict [(''key'', PStr ''k'')]), get_request ''k'',
      get_reply ''k'' (Some (PInt 7, 5, False))}. wire_ok (list_dumps demo_messages) (list_loads demo_messages) m"
  "replies_ok (demo_env Up) (list_dumps demo_messages) (list_loads demo_messages) ''k'' (wi_nodes demo_wires)"
proof -
  have W: "(wi_nodes demo_wires)(demo_node 1 \<mapsto> demo_storage 1) = demo_cluster"
    by (auto simp: demo_wires_def demo_cluster_def)
  show "wi_nodes demo_wires (demo_node 1) = None" by (simp add: demo_wires_def)
  show "node_ok ((wi_nodes demo_wires)(demo_node 1 \<mapsto> demo_storage 1)) (demo_node 1) (demo_storage 1)"
    unfolding W by (rule demo_cluster_ok(1))
  show "demo_node 1 \<in> set (replica_nodes (\<lambda>s. []) ''k'' (demo_storage 1))" by (simp add: demo_cluster_ok(3))
  show "\<forall>n s1 t. ((wi_nodes demo_wires)(demo_node 1 \<mapsto> demo_storage 1)) n = Some s1 \<longrightarrow> lww_stamp (sn_store s1) ''k'' = Some t \<longrightarrow> t < 5"
    unfolding W using demo_cluster_ok(4) by auto
  show "\<forall>m \<in> {set_request ''k'' (PInt 7) None 5, message OK (PDict [(''key'', PStr ''k'')]), get_request ''k'',
      get_reply ''k'' (Some (PInt 7, 5, False))}. wire_ok (list_dumps demo_messages) (list_loads demo_messages) m"
    by (intro ballI demo_codec) (auto simp: demo_messages_def)
  have "wire_ok (list_dumps demo_messages) (list_loads demo_messages) (get_reply ''k'' None)"
    by (rule demo_codec) (simp add: demo_messages_def)
  then show "replies_ok (demo_env Up) (list_dumps demo_messages) (list_loads demo_messages) ''k'' (wi_nodes demo_wires)"
    by (auto simp: replies_ok_def demo_wires_def demo_storage_def lww_version_def lww_init_def split: if_splits)
qed

lemma stack_read_your_writes_witness:
  "\<exists>r s1 w1 s2 w2. node_set (stack_pool (demo_env Up) (demo_node 1) (list_dumps demo_messages) (list_loads demo_messages))
      (\<lambda>s. []) 0 0 5 ''k'' (PInt 7) None (demo_storage 1, demo_stack) = (r, s1, w1)
    \<and> node_get (stack_pool (demo_env Up) (demo_node 1) (list_dumps demo_messages) (list_loads demo_messages))
      (\<lambda>s. []) lww_read_resolve 0 ''k'' (s1, w1) = (PInt 7, s2, w2)"
proof -
  let ?P = "stack_pool (demo_env Up) (demo_node 1) (list_dumps demo_messages) (list_loads demo_messages)"
  have wires: "snd demo_stack = demo_wires" by (simp add: demo_stack_def)
  obtain r s1 w1 x s2 w2 where run:
    "node_set ?P (\<lambda>s. []) (e_now (demo_env Up) (demo_node 1)) (e_wall (demo_env Up) (demo_node 1)) 5 ''k'' (PInt 7) None
      (demo_storage 1, demo_stack) = (r, s1, w1)"
    "node_get ?P (\<lambda>s. []) lww_read_resolve (e_now (demo_env Up) (demo_node 1)) ''k'' (s1, w1) = (x, s2, w2)"
    by (metis prod.exhaust)
  from stack_read_your_writes [OF demo_stack_ok, unfolded wires, OF demo_wires_ok(1-3) disjI1 [OF refl] demo_wires_ok(4) _
      demo_wires_ok(5,6) run]
  have "x = PInt 7" by simp
  then show ?thesis using run by (auto simp: demo_env_def)
qed

end
