(* ===== verification/Mux_Stack.thy ===== *)
theory Mux_Stack
  imports Stack Mux_Liveness
begin

text \<open>
  The node API over the selector pool, the default of \<open>StorageNode\<close>: a caller sends and waits, the
  selector thread registers the socket and reads it event by event, and the peers' server loops answer. Like
  the blocking pool in \<open>Stack\<close> it refines the cluster model, for a caller that is alone at the time.
\<close>

section \<open>One request\<close>

text \<open>
  The caller's half, the wake-up, and read events of the socket until it is answered: the bytes and errors
  it still delivers and one more are enough (\<open>mux_request_completes\<close>).
\<close>

definition mx_execute :: "('n, rx list) net_ops \<Rightarrow> (Message \<Rightarrow> byte list) \<Rightarrow> (byte list \<Rightarrow> Message res)
    \<Rightarrow> string \<Rightarrow> int \<Rightarrow> Message \<Rightarrow> MuxPool \<times> 'n \<Rightarrow> Message option res \<times> MuxPool \<times> 'n" where
  "mx_execute net dumps loads h pt msg w =
     (case mx_submit net dumps h pt msg w of
        (Inl e, w1) \<Rightarrow> (Inl e, w1)
      | (Inr None, w1) \<Rightarrow> (Inr None, w1)
      | (Inr (Some ticket), p1, n1) \<Rightarrow>
         (let s = fst (last (mx_reg p1));
              w2 = mx_serve net loads s (Suc (rx_size (n_incoming net s n1))) (mx_wake p1, n1)
          in (Inr (mx_result ticket (fst w2)), w2)))"

definition mux_pool :: "env \<Rightarrow> NodeInfo \<Rightarrow> (Message \<Rightarrow> byte list) \<Rightarrow> (byte list \<Rightarrow> Message res) \<Rightarrow> (MuxPool \<times> wires) pool_ops" where
  "mux_pool E a dumps loads =
     \<lparr>p_exec = mx_execute (server_net E a dumps loads) dumps loads, p_close_peer = mx_close_peer (server_net E a dumps loads),
      p_close_all = mx_close_all (server_net E a dumps loads)\<rparr>"

lemma mx_serve_steps: "(mux_step net dumps loads)\<^sup>*\<^sup>* w (mx_serve net loads s k w)"
proof (induction k arbitrary: w)
  case (Suc k)
  obtain p n where w: "w = (p, n)" by fastforce
  show ?case
  proof (cases "map_of (mx_sel p) s")
    case (Some inflight)
    then have "mux_step net dumps loads w (mx_handle_read net loads s inflight w)" unfolding w by (rule mux_step.Read)
    from converse_rtranclp_into_rtranclp [OF this Suc.IH] show ?thesis using Some w by simp
  qed (simp add: w)
qed simp

lemma mx_execute_steps:
  "mx_execute net dumps loads h pt msg w = (Inr r, w') \<Longrightarrow> (mux_step net dumps loads)\<^sup>*\<^sup>* w w'"
proof -
  assume ex: "mx_execute net dumps loads h pt msg w = (Inr r, w')"
  obtain x p1 n1 where sub: "mx_submit net dumps h pt msg w = (x, p1, n1)" by (metis prod_cases3)
  show ?thesis
  proof (cases x)
    case (Inl e)
    then show ?thesis using ex sub by (simp add: mx_execute_def)
  next
    case (Inr t)
    then have step: "mux_step net dumps loads w (p1, n1)" using sub by (intro mux_step.Submit) simp
    show ?thesis
    proof (cases t)
      case None
      then show ?thesis using ex sub Inr step by (auto simp: mx_execute_def)
    next
      case (Some ticket)
      let ?s = "fst (last (mx_reg p1))"
      have "w' = mx_serve net loads ?s (Suc (rx_size (n_incoming net ?s n1))) (mx_wake p1, n1)"
        using ex sub Inr Some by (simp add: mx_execute_def Let_def del: mx_serve.simps)
      moreover have "mux_step net dumps loads (p1, n1) (mx_wake p1, n1)" by (rule mux_step.Wake)
      ultimately show ?thesis
        using step mx_serve_steps [of net dumps loads "(mx_wake p1, n1)" ?s]
        by (metis converse_rtranclp_into_rtranclp)
    qed
  qed
qed

lemma mux_steps_inv: "(mux_step net dumps loads)\<^sup>*\<^sup>* w w' \<Longrightarrow> mx_inv net mx H w \<Longrightarrow> mx_inv net mx H w'"
  by (induction rule: rtranclp_induct) (auto intro: mux_step_inv)

section \<open>A request over a live connection\<close>

definition mux_ok :: "env \<Rightarrow> NodeInfo \<Rightarrow> (Message \<Rightarrow> byte list) \<Rightarrow> (byte list \<Rightarrow> Message res) \<Rightarrow> int \<Rightarrow> MuxPool \<times> wires \<Rightarrow> bool" where
  "mux_ok E a dumps loads mx w \<longleftrightarrow> mx_inv (server_net E a dumps loads) mx {} w \<and> mx_inflight (fst w) = []
     \<and> idle_live E a (q_of (mx_idle (fst w))) (snd w) \<and> (\<forall>b. e_link E a b \<noteq> ReplyLost) \<and> (\<exists>e. loads [] = Inl e)"

text \<open>The selector thread reads a reply that has arrived in one piece with two events.\<close>

lemma serve_reply:
  assumes "send_message dumps m = Inr out" and "loads (dumps m) = Inr m" and "dumps m \<noteq> []"
    and "wi_in n s = [Data out]" and "mx_sel p = [(s, new_inflight t addr)]"
    and "mx_return (server_net E a dumps loads) addr s (p\<lparr>mx_sel := []\<rparr>, n\<lparr>wi_in := (wi_in n)(s := [])\<rparr>) = (p1, n1)"
    and "mx_sel p1 = []"
  shows "mx_serve (server_net E a dumps loads) loads s (Suc (rx_size [Data out])) (p, n) =
    (mx_set_event (new_inflight t addr) (Some m) p1, n1)"
proof -
  let ?net = "server_net E a dumps loads" and ?k = "length (dumps m)"
  let ?hdr = "be_bytes HEADER_SIZE ?k"
  let ?i1 = "(new_inflight t addr)\<lparr>if_expected := ?k, if_buf := [], if_hdr_done := True\<rparr>"
  let ?n1 = "n\<lparr>wi_in := (wi_in n)(s := [Data (dumps m)])\<rparr>"
  have out: "?k < 2 ^ 32" "out = ?hdr @ dumps m" using assms(1) by (auto simp: send_message_Inr)
  have len: "from_bytes_big ?hdr = ?k" using out(1) by (intro from_be_bytes) (simp add: HEADER_SIZE_def)
  have four: "length ?hdr = 4" "HEADER_SIZE = 4" by (simp_all add: HEADER_SIZE_def)
  have "0 < ?k" using assms(3) by simp
  then have "\<not> length out \<le> 4" "take 4 out = ?hdr" "drop 4 out = dumps m" using out(2) four by simp_all
  then have "sock_recv 4 [Data out] = (Inr ?hdr, [Data (dumps m)])" by (simp only: sock_recv.simps if_False)
  moreover have "mx_feed loads (new_inflight t addr) (Inr ?hdr) = MxKeep ?i1"
    using four(2) len by (simp add: mx_feed_def new_inflight_def flip: length_0_conv)
  ultimately have one: "mx_handle_read ?net loads s (new_inflight t addr) (p, n) = (p\<lparr>mx_sel := [(s, ?i1)]\<rparr>, ?n1)"
    using assms(4,5) four by (simp add: mx_handle_read_def new_inflight_def)
  have "sock_recv ?k [Data (dumps m)] = (Inr (dumps m), [])" by simp
  moreover have "mx_feed loads ?i1 (Inr (dumps m)) = MxDeliver m" using assms(2,3) by (simp add: mx_feed_def)
  ultimately have two: "mx_handle_read ?net loads s ?i1 (p\<lparr>mx_sel := [(s, ?i1)]\<rparr>, ?n1) =
      (mx_set_event ?i1 (Some m) p1, n1)"
    using assms(6) by (simp add: mx_handle_read_def mx_unregister_def new_inflight_def)
  have stop: "mx_serve ?net loads s k (mx_set_event ?i1 (Some m) p1, n1) = (mx_set_event ?i1 (Some m) p1, n1)" for k
    using assms(7) by (intro mx_serve_idle) (simp add: mx_set_event_def)
  have "mx_serve ?net loads s (Suc (Suc k)) (p, n) = (mx_set_event ?i1 (Some m) p1, n1)" for k
    using one two stop [of k] assms(5) by simp
  moreover have "mx_set_event ?i1 (Some m) p1 = mx_set_event (new_inflight t addr) (Some m) p1"
    by (simp add: mx_set_event_def new_inflight_def)
  moreover obtain k where "rx_size [Data out] = Suc k" using \<open>\<not> length out \<le> 4\<close> by (cases "length out") auto
  ultimately show ?thesis by metis
qed

text \<open>The caller has connection \<open>s\<close>: the request is answered and \<open>s\<close> is idle again, or closed for want of space.\<close>

lemma mux_answer:
  assumes "serving E dumps loads M I" and "I (wi_nodes n)" and "M m" and "live_to E a n s \<lparr>host = h, port = pt\<rparr>"
    and "idle_live E a (q_of (mx_idle p)) n" and "\<forall>c. s \<notin> set (q_of (mx_idle p) c)" and "mx_inflight p = []"
    and "\<exists>e. loads [] = Inl e" and "mx_acquire (server_net E a dumps loads) h pt w = (Some s, p, n)"
  obtains resp sn sn' p' n' where "wi_nodes n \<lparr>host = h, port = pt\<rparr> = Some sn"
    and "node_handle idle_pool (e_now E \<lparr>host = h, port = pt\<rparr>, e_wall E \<lparr>host = h, port = pt\<rparr>) m (sn, ()) = (Inr resp, sn', ())"
    and "mx_execute (server_net E a dumps loads) dumps loads h pt m w = (Inr (Some resp), p', n')"
    and "wi_nodes n' = (wi_nodes n)(\<lparr>host = h, port = pt\<rparr> \<mapsto> sn')" and "I (wi_nodes n')"
    and "idle_live E a (q_of (mx_idle p')) n'" and "mx_inflight p' = []"
proof -
  let ?net = "server_net E a dumps loads" and ?b = "\<lparr>host = h, port = pt\<rparr>" and ?a = "peer_address h pt"
  have addr: "?a = node_address ?b" by (simp add: peer_address_def node_address_def)
  obtain bs resp sn sn' out where e: "wi_nodes n ?b = Some sn"
    "node_handle idle_pool (e_now E ?b, e_wall E ?b) m (sn, ()) = (Inr resp, sn', ())"
    "I ((wi_nodes n)(?b \<mapsto> sn'))" "send_message dumps m = Inr bs"
    "wi_sendall E dumps loads s bs n =
      (Inr (), n\<lparr>wi_in := (wi_in n)(s := [Data out]), wi_nodes := (wi_nodes n)(?b \<mapsto> sn')\<rparr>)"
    "send_message dumps resp = Inr out" "wire_ok dumps loads resp"
    using send_live [OF assms(1-4)] by metis
  let ?i = "new_inflight (mx_next p) ?a" and ?n1 = "n\<lparr>wi_nodes := (wi_nodes n)(?b \<mapsto> sn')\<rparr>"
  let ?n2 = "n\<lparr>wi_in := (wi_in n)(s := [Data out]), wi_nodes := (wi_nodes n)(?b \<mapsto> sn')\<rparr>"
  let ?p2 = "p\<lparr>mx_reg := [(s, ?i)], mx_next := Suc (mx_next p)\<rparr>"
  let ?pw = "mx_wake ?p2"
  have none: "mx_sel p = []" "mx_reg p = []" using assms(7) by (simp_all add: mx_inflight_def)
  have sub: "mx_submit ?net dumps h pt m w = (Inr (Some (mx_next p)), ?p2, ?n2)"
    using e(4,5) none(2) by (simp add: mx_submit_unfold assms(9))
  have in_s: "(wi_in n)(s := []) = wi_in n" using assms(4) by (auto simp: live_to_def)
  obtain p3 n3 where ret: "mx_return ?net ?a s (?pw\<lparr>mx_sel := []\<rparr>, ?n1) = (p3, n3)" by (metis prod.exhaust)
  have p3: "mx_sel p3 = []" "mx_reg p3 = []" "wi_nodes n3 = (wi_nodes n)(?b \<mapsto> sn')"
    using ret by (auto simp: mx_return_def mx_wake_def Let_def split: if_splits)
  have "dumps resp \<noteq> []" "loads (dumps resp) = Inr resp" using e(7) assms(8) by (auto simp: wire_ok_def)
  have serve: "mx_serve ?net loads s (Suc (rx_size [Data out])) (?pw, ?n2) = (mx_set_event ?i (Some resp) p3, n3)"
  proof (rule serve_reply [where dumps = dumps and m = resp])
    show "mx_return ?net ?a s (?pw\<lparr>mx_sel := []\<rparr>, ?n2\<lparr>wi_in := (wi_in ?n2)(s := [])\<rparr>) = (p3, n3)"
      using ret in_s by simp
  qed (use e(6) \<open>dumps resp \<noteq> []\<close> \<open>loads (dumps resp) = Inr resp\<close> p3(1) none in \<open>simp_all add: mx_wake_def\<close>)
  have "mx_execute ?net dumps loads h pt m w = (Inr (Some resp), mx_set_event ?i (Some resp) p3, n3)"
    unfolding mx_execute_def sub using serve
    by (simp add: Let_def mx_result_def mx_set_event_def new_inflight_def del: mx_serve.simps)
  moreover have "idle_live E a (q_of (mx_idle p3)) n3"
    unfolding idle_live_def
  proof (intro allI ballI)
    fix c x assume x: "x \<in> set (q_of (mx_idle p3) (node_address c))"
    show "live_to E a n3 x c"
    proof (cases "int (length (q_of (mx_idle p) ?a)) < mx_max p")
      case True
      then have "p3 = ?pw\<lparr>mx_sel := [], mx_idle := AList.update ?a (s # q_of (mx_idle p) ?a) (mx_idle p)\<rparr>" "n3 = ?n1"
        using ret by (simp_all add: mx_return_def mx_wake_def)
      then show ?thesis
        using x assms(4,5) by (auto simp: idle_live_def live_to_def addr node_address_inj split: if_splits)
    next
      case False
      then have "mx_idle p3 = AList.update ?a (q_of (mx_idle p) ?a) (mx_idle p)"
        "n3 = ?n1\<lparr>wi_open := removeAll s (wi_open n)\<rparr>"
        using ret by (auto simp: mx_return_def mx_wake_def)
      moreover from this(1) have "x \<in> set (q_of (mx_idle p) (node_address c))" using x by (simp split: if_splits)
      moreover from this have "x \<noteq> s" using assms(6) by auto
      ultimately show ?thesis using assms(5) by (auto simp: idle_live_def live_to_def)
    qed
  qed
  ultimately show thesis
    by (intro that [OF e(1,2), of "mx_set_event ?i (Some resp) p3" n3])
      (use p3 e(3) in \<open>simp_all add: mx_set_event_def mx_inflight_def del: fun_upd_apply\<close>)
qed

lemma mx_execute_live:
  assumes "serving E dumps loads M I" and "I (wi_nodes n)" and "M m" and "mux_ok E a dumps loads mx (p, n)"
    and "mx_execute (server_net E a dumps loads) dumps loads h pt m (p, n) = (r, p', n')"
  shows "cluster_exec E a h pt m (wi_nodes n) = (r, wi_nodes n') \<and> I (wi_nodes n') \<and> mux_ok E a dumps loads mx (p', n')"
proof -
  let ?net = "server_net E a dumps loads" and ?b = "\<lparr>host = h, port = pt\<rparr>" and ?a = "peer_address h pt"
  let ?q = "q_of (mx_idle p)"
  have addr: "?a = node_address ?b" by (simp add: peer_address_def node_address_def)
  have inv: "mx_inv ?net mx {} (p, n)" and live: "idle_live E a ?q n" and none: "mx_inflight p = []"
    and links: "\<forall>b. e_link E a b \<noteq> ReplyLost" and eof: "\<exists>e. loads [] = Inl e"
    using assms(4) by (auto simp: mux_ok_def)
  have pool: "distinct (?q c) \<and> set (?q c) \<subseteq> {..wi_made n} \<and> (\<forall>d. c \<noteq> d \<longrightarrow> set (?q c) \<inter> set (?q d) = {})" for c
    using inv by (auto simp: mx_inv_def pool_inv_def)
  have other: "x \<notin> set (?q c)" if "x \<in> set (?q ?a)" "c \<noteq> ?a" for x c
  proof -
    have "set (?q ?a) \<inter> set (?q c) = {}" using pool [of ?a] that(2) by metis
    then show ?thesis using that(1) by (metis IntI empty_iff)
  qed
  have outcome: "cluster_exec E a h pt m (wi_nodes n) = (r, wi_nodes n') \<and> I (wi_nodes n')
      \<and> idle_live E a (q_of (mx_idle p')) n' \<and> mx_inflight p' = [] \<and> (\<exists>x. r = Inr x)"
  proof (cases "wi_nodes n ?b = None \<or> e_link E a ?b = Unreachable")
    case True
    then have "?q ?a = []"
      using live unfolding idle_live_def addr live_to_def by (metis link.distinct(1) list.set_intros(1) neq_Nil_conv)
    moreover have "wi_connect E a h pt n = (Inl OSError, n)" using True by (auto simp: wi_connect_def)
    ultimately have "(r, p', n') = (Inr None, p, n)"
      using assms(5) by (simp add: mx_execute_def mx_submit_unfold mx_acquire_def Let_def)
    then show ?thesis using True live assms(2) none
      by (auto simp: cluster_exec_def Let_def split: option.split)
  next
    case False
    then have up: "e_link E a ?b = Up" using links by (cases "e_link E a ?b") auto
    obtain s p1 n1 where acq: "mx_acquire ?net h pt (p, n) = (Some s, p1, n1)" "live_to E a n1 s ?b"
      "wi_nodes n1 = wi_nodes n" "idle_live E a (q_of (mx_idle p1)) n1" "\<forall>c. s \<notin> set (q_of (mx_idle p1) c)"
      "mx_inflight p1 = []"
    proof (cases "?q ?a = []")
      case True
      let ?s = "Suc (wi_made n)"
      let ?n1 = "n\<lparr>wi_made := ?s, wi_open := ?s # wi_open n, wi_peer := (wi_peer n)(?s := ?b), wi_in := (wi_in n)(?s := [])\<rparr>"
      have fresh: "?s \<notin> set (?q c)" for c using pool [of c] by auto
      have "idle_live E a ?q ?n1"
        unfolding idle_live_def
      proof (intro allI ballI)
        fix c x assume x: "x \<in> set (?q (node_address c))"
        then have "live_to E a n x c" "x \<noteq> ?s" using live fresh by (auto simp: idle_live_def)
        then show "live_to E a ?n1 x c" by (auto simp: live_to_def)
      qed
      moreover have "mx_acquire ?net h pt (p, n) = (Some ?s, p, ?n1)"
        using True False by (simp add: mx_acquire_def wi_connect_def Let_def)
      ultimately show thesis using False up fresh none by (intro that [of ?s p ?n1]) (auto simp: live_to_def)
    next
      case False
      let ?s = "last (?q ?a)" and ?p1 = "p\<lparr>mx_idle := AList.update ?a (butlast (?q ?a)) (mx_idle p)\<rparr>"
      have split: "?q ?a = butlast (?q ?a) @ [?s]" using False by simp
      have "distinct (butlast (?q ?a) @ [?s])" using pool [of ?a] split by metis
      then have last: "?s \<notin> set (butlast (?q ?a))" by simp
      have "?s \<in> set (?q ?a)" using False by simp
      from other [OF this] last have "\<forall>c. ?s \<notin> set (q_of (mx_idle ?p1) c)" by simp
      moreover have "live_to E a n ?s ?b" using live \<open>?s \<in> set (?q ?a)\<close> unfolding idle_live_def addr by simp
      moreover have "idle_live E a (q_of (mx_idle ?p1)) n"
        using live by (auto simp: idle_live_def addr dest: in_set_butlastD)
      moreover have "mx_acquire ?net h pt (p, n) = (Some ?s, ?p1, n)" using False by (simp add: mx_acquire_def Let_def)
      ultimately show thesis using none by (intro that [of ?s ?p1 n]) (auto simp: mx_inflight_def)
    qed
    have "I (wi_nodes n1)" using assms(2) acq(3) by simp
    from mux_answer [OF assms(1) this assms(3) acq(2,4,5,6) eof acq(1)] obtain resp sn sn' p2 n2 where
      answer: "wi_nodes n1 ?b = Some sn"
      "node_handle idle_pool (e_now E ?b, e_wall E ?b) m (sn, ()) = (Inr resp, sn', ())"
      "mx_execute ?net dumps loads h pt m (p, n) = (Inr (Some resp), p2, n2)"
      "wi_nodes n2 = (wi_nodes n1)(?b \<mapsto> sn')" "I (wi_nodes n2)" "idle_live E a (q_of (mx_idle p2)) n2" "mx_inflight p2 = []"
      by metis
    then show ?thesis using assms(5) up acq(3) by (simp add: cluster_exec_def)
  qed
  then have "mx_inv ?net mx {} (p', n')"
    using mux_steps_inv [OF mx_execute_steps inv] assms(5) by blast
  then show ?thesis using outcome links eof by (simp add: mux_ok_def)
qed

section \<open>The node API over the selector pool\<close>

interpretation mux_stack: peer_pool E a dumps loads "mux_pool E a dumps loads" "mux_ok E a dumps loads mx" "\<lambda>w. wi_nodes (snd w)"
  for E a dumps loads mx
proof
  fix M I w m h pt r w'
  assume s: "serving E dumps loads M I" "I (wi_nodes (snd w))" "M m" "mux_ok E a dumps loads mx w"
    and run: "p_exec (mux_pool E a dumps loads) h pt m w = (r, w')"
  obtain p n p' n' where w: "w = (p, n)" "w' = (p', n')" by fastforce
  from s run have "I (wi_nodes n)" "mux_ok E a dumps loads mx (p, n)"
    "mx_execute (server_net E a dumps loads) dumps loads h pt m (p, n) = (r, p', n')"
    by (simp_all add: w mux_pool_def)
  from mx_execute_live [OF s(1) this(1) s(3) this(2,3)]
  show "cluster_exec E a h pt m (wi_nodes (snd w)) = (r, wi_nodes (snd w')) \<and> I (wi_nodes (snd w'))
      \<and> mux_ok E a dumps loads mx w'"
    by (simp add: w)
qed

text \<open>A write and a delete have the result and the effect of the cluster model.\<close>

lemma mux_stack_set_refines:
  assumes "mux_ok E a dumps loads mx w"
    and "wire_ok dumps loads (set_request key v ttl ts)" and "wire_ok dumps loads (message OK (PDict [(''key'', PStr key)]))"
    and "node_set (mux_pool E a dumps loads) sha now wall ts key v ttl (s, w) = (r, s', w')"
  shows "node_set (cluster_pool E a) sha now wall ts key v ttl (s, wi_nodes (snd w)) = (r, s', wi_nodes (snd w'))
    \<and> mux_ok E a dumps loads mx w'"
  using mux_stack.write_refines [OF assms] by blast

lemma mux_stack_delete_refines:
  assumes "mux_ok E a dumps loads mx w" and "wire_ok dumps loads (delete_request key ts)"
    and "wire_ok dumps loads (message OK (PDict [(''key'', PStr key)]))"
    and "wire_ok dumps loads (message NOT_FOUND (PDict [(''key'', PStr key)]))"
    and "node_delete (mux_pool E a dumps loads) sha wall ts key (s, w) = (r, s', w')"
  shows "node_delete (cluster_pool E a) sha wall ts key (s, wi_nodes (snd w)) = (r, s', wi_nodes (snd w'))
    \<and> mux_ok E a dumps loads mx w'"
  using assms by (rule mux_stack.delete_refines)

text \<open>C4.
  Over the default, selector pool: a node that writes a key and reads it back, both times through the
  caller's half of the pool, the events of the selector thread, the framing and the server loops of the
  peers, gets the value it wrote, when it is itself a replica or one replica runs and can be reached, and
  the timestamp is newer than what the replicas hold. Hypotheses: no other request is in flight, the pooled
  connections are live, and the codec carries the messages of the two calls and rejects the empty frame.
\<close>

theorem mux_stack_read_your_writes:
  assumes "mux_ok E a dumps loads mx w" and "wi_nodes (snd w) a = None"
    and "node_ok ((wi_nodes (snd w))(a \<mapsto> s)) a s" and "n0 \<in> set (replica_nodes sha key s)"
    and "n0 = a \<or> wi_nodes (snd w) n0 \<noteq> None \<and> e_link E a n0 = Up"
    and "\<forall>n s1 t. ((wi_nodes (snd w))(a \<mapsto> s)) n = Some s1 \<longrightarrow> lww_stamp (sn_store s1) key = Some t \<longrightarrow> t < ts" and "0 \<le> ts"
    and "\<forall>m \<in> {set_request key v None ts, message OK (PDict [(''key'', PStr key)]), get_request key,
          get_reply key (Some (v, ts, False))}. wire_ok dumps loads m"
    and "replies_ok E dumps loads key (wi_nodes (snd w))"
    and "node_set (mux_pool E a dumps loads) sha (e_now E a) (e_wall E a) ts key v None (s, w) = (r, s1, w1)"
    and "node_get (mux_pool E a dumps loads) sha lww_read_resolve (e_now E a) key (s1, w1) = (x, s2, w2)"
  shows "x = v"
  using assms by (rule mux_stack.read_your_writes)

definition demo_mux_stack :: "MuxPool \<times> wires" where
  "demo_mux_stack = (mx_init 2, demo_wires)"

lemma demo_mux_ok: "mux_ok (demo_env Up) (demo_node 1) (list_dumps ms) (list_loads ms) 2 demo_mux_stack"
  using server_net_laws [of "demo_env Up" "demo_node 1" "list_dumps ms" "list_loads ms"]
  by (auto simp: mux_ok_def demo_mux_stack_def demo_wires_def mx_inv_def mx_init_def mx_inflight_def mx_tickets_def
      pool_inv_def fits_def idle_live_def demo_env_def server_net_def wf_dict_def list_loads_def split: option.split)

lemma mux_stack_read_your_writes_witness:
  "\<exists>r s1 w1 s2 w2. node_set (mux_pool (demo_env Up) (demo_node 1) (list_dumps demo_messages) (list_loads demo_messages))
      (\<lambda>s. []) 0 0 5 ''k'' (PInt 7) None (demo_storage 1, demo_mux_stack) = (r, s1, w1)
    \<and> node_get (mux_pool (demo_env Up) (demo_node 1) (list_dumps demo_messages) (list_loads demo_messages))
      (\<lambda>s. []) lww_read_resolve 0 ''k'' (s1, w1) = (PInt 7, s2, w2)"
proof -
  let ?P = "mux_pool (demo_env Up) (demo_node 1) (list_dumps demo_messages) (list_loads demo_messages)"
  have wires: "snd demo_mux_stack = demo_wires" by (simp add: demo_mux_stack_def)
  obtain r s1 w1 x s2 w2 where run:
    "node_set ?P (\<lambda>s. []) (e_now (demo_env Up) (demo_node 1)) (e_wall (demo_env Up) (demo_node 1)) 5 ''k'' (PInt 7) None
      (demo_storage 1, demo_mux_stack) = (r, s1, w1)"
    "node_get ?P (\<lambda>s. []) lww_read_resolve (e_now (demo_env Up) (demo_node 1)) ''k'' (s1, w1) = (x, s2, w2)"
    by (metis prod.exhaust)
  from mux_stack_read_your_writes [OF demo_mux_ok, unfolded wires, OF demo_wires_ok(1-3) disjI1 [OF refl] demo_wires_ok(4) _
      demo_wires_ok(5,6) run]
  have "x = PInt 7" by simp
  then show ?thesis using run by (auto simp: demo_env_def)
qed

end
