(* ===== verification/Node_Reachable.thy ===== *)
theory Node_Reachable
  imports Node Lww_Convergence
begin

text \<open>
  Everything a node does, as one step relation: its API calls, the requests it serves, its gossip rounds,
  purges, start and stop, of the blocking and of the asyncio node, over any pool and any behaviour of
  the peers. What holds of a store after any of its methods holds of the store inside a node after any of
  its steps.
\<close>

text \<open>A change of a node by the store methods alone.\<close>

definition only_store :: "StorageNode \<Rightarrow> StorageNode \<Rightarrow> bool" where
  "only_store s s' \<longleftrightarrow> lww_step\<^sup>*\<^sup>* (sn_store s) (sn_store s') \<and> sn_gossip s' = sn_gossip s
     \<and> sn_replication s' = sn_replication s"

lemma only_store_refl [simp]: "only_store s s"
  by (simp add: only_store_def)

lemma only_store_trans: "only_store s s1 \<Longrightarrow> only_store s1 s2 \<Longrightarrow> only_store s s2"
  by (auto simp: only_store_def)

lemma only_store_upd: "lww_step (sn_store s) st \<Longrightarrow> only_store s (s\<lparr>sn_store := st\<rparr>)"
  by (simp add: only_store_def)

lemmas store_steps = step_set step_get step_get_versioned step_delete

definition keeps :: "(StorageNode \<times> 'w \<Rightarrow> 'r \<times> StorageNode \<times> 'w) \<Rightarrow> bool" where
  "keeps f \<longleftrightarrow> (\<forall>sw. only_store (fst sw) (fst (snd (f sw))))"

lemma keepsD: "keeps f \<Longrightarrow> only_store (fst sw) (fst (snd (f sw)))"
  by (simp only: keeps_def)

lemma keeps_handles:
  "keeps (handle_get_versioned P now h key)"
  "keeps (handle_set P now wall h key v ttl ts)"
  "keeps (handle_delete P wall h key ts)"
  by (auto simp: keeps_def handle_get_versioned_def handle_set_def handle_delete_def Let_def case_prod_beta
      intro!: only_store_upd store_steps split: Handle.split sum.split)

lemma lww_collect_keeps: "\<forall>h \<in> set hs. keeps (h key) \<Longrightarrow> only_store (fst sw) (fst (snd (lww_collect key hs sw)))"
proof (induction hs arbitrary: sw)
  case (Cons h hs)
  have "only_store (fst sw) (fst (snd (h key sw)))" using Cons.prems by (auto intro!: keepsD)
  moreover have "only_store (fst (snd (h key sw))) (fst (snd (lww_collect key hs (snd (h key sw)))))"
    using Cons by simp
  ultimately show ?case by (auto simp: case_prod_beta Let_def intro: only_store_trans)
qed simp

lemma fhw_keeps: "\<forall>h \<in> set hs. keeps (h key) \<Longrightarrow> only_store (fst sw) (fst (snd (fhw_read_resolve key hs sw)))"
proof (induction hs arbitrary: sw)
  case (Cons h hs)
  have h: "only_store (fst sw) (fst (snd (h key sw)))" using Cons.prems by (auto intro!: keepsD)
  moreover have "only_store (fst (snd (h key sw))) (fst (snd (fhw_read_resolve key hs (snd (h key sw)))))"
    using Cons by simp
  ultimately have "only_store (fst sw) (fst (snd (fhw_read_resolve key hs (snd (h key sw)))))"
    by (rule only_store_trans)
  then show ?case using h by (auto simp: case_prod_beta split: prod.split sum.split option.split)
qed simp

lemma gather_keeps:
  assumes "\<forall>f \<in> set fs. keeps f" and "set sched \<subseteq> {0..<length fs}"
  shows "only_store (fst sw) (fst (snd (gather_run sched fs rs sw)))"
  using assms(2)
proof (induction sched arbitrary: rs sw)
  case (Cons i js)
  have "only_store (fst sw) (fst (snd ((fs ! i) sw)))"
    using assms(1) Cons.prems by (auto intro!: keepsD)
  moreover have "only_store (fst (snd ((fs ! i) sw)))
      (fst (snd (gather_run js fs (rs[i := Some (fst ((fs ! i) sw))]) (snd ((fs ! i) sw)))))"
    using Cons by simp
  ultimately show ?case by (auto simp: case_prod_beta intro: only_store_trans)
qed simp

lemma run_each_keeps: "\<forall>f \<in> set fs. keeps f \<Longrightarrow> only_store (fst sw) (fst (snd (run_each fs sw)))"
proof (induction fs arbitrary: sw)
  case (Cons f fs)
  have f: "only_store (fst sw) (fst (snd (f sw)))" using Cons.prems by (auto intro!: keepsD)
  moreover have "only_store (fst (snd (f sw))) (fst (snd (run_each fs (snd (f sw)))))"
    using Cons by simp
  ultimately have "only_store (fst sw) (fst (snd (run_each fs (snd (f sw)))))" by (rule only_store_trans)
  then show ?case using f by (auto simp: case_prod_beta split: prod.split sum.split)
qed simp

text \<open>The API calls.\<close>

lemma api_reads:
  "only_store (fst sw) (fst (snd (node_get P sha lww_read_resolve now key sw)))"
  "only_store (fst sw) (fst (snd (node_get P sha fhw_read_resolve now key sw)))"
  "schedule (length (replica_nodes sha key (fst sw))) sched \<Longrightarrow>
     only_store (fst sw) (fst (snd (async_node_get P sha (async_lww_read_resolve sched) now key sw)))"
  "only_store (fst sw) (fst (snd (async_node_get P sha async_fhw_read_resolve now key sw)))"
proof -
  let ?hs = "map (handle_get_versioned P now) (make_handles (fst sw) (replica_nodes sha key (fst sw)))"
  have hs: "\<forall>h \<in> set ?hs. keeps (h key)" by (auto simp: keeps_handles)
  have own: "only_store (fst sw) ((fst sw)\<lparr>sn_store := snd (lww_get now key (sn_store (fst sw)))\<rparr>)"
    by (intro only_store_upd store_steps)
  have seq: "only_store (fst sw) (fst (snd (lww_read_resolve key ?hs sw)))"
    using lww_collect_keeps [OF hs, of sw] by (simp add: lww_read_resolve_def case_prod_beta)
  note fhw = fhw_keeps [OF hs, of sw]
  show "only_store (fst sw) (fst (snd (node_get P sha lww_read_resolve now key sw)))"
    using own seq by (simp add: node_get_def Let_def case_prod_beta)
  show "only_store (fst sw) (fst (snd (node_get P sha fhw_read_resolve now key sw)))"
    using own fhw by (simp add: node_get_def Let_def case_prod_beta)
  show "only_store (fst sw) (fst (snd (async_node_get P sha async_fhw_read_resolve now key sw)))"
    using own fhw by (simp add: async_node_get_def async_fhw_read_resolve_def async_make_handles_def
        async_handle_get_versioned_def Let_def case_prod_beta)
  assume "schedule (length (replica_nodes sha key (fst sw))) sched"
  then have sched: "set sched \<subseteq> {0..<length (map (async_guard key) ?hs)}"
    by (simp add: schedule_def make_handles_length)
  have "keeps (async_guard key h)" if "keeps (h key)" for h :: "(StorageNode \<times> 'a) handle_read"
    using keepsD [OF that] by (auto simp: keeps_def async_guard_def split: prod.split sum.split)
      (metis fst_conv snd_conv)+
  then have "\<forall>f \<in> set (map (async_guard key) ?hs). keeps f" using hs by simp
  from gather_keeps [OF this sched]
  show "only_store (fst sw) (fst (snd (async_node_get P sha (async_lww_read_resolve sched) now key sw)))"
    using own by (simp add: async_node_get_def async_lww_read_resolve_def gather_def async_make_handles_def
        async_handle_get_versioned_def Let_def case_prod_beta)
qed

lemma api_writes:
  "only_store (fst sw) (fst (snd (node_set P sha now wall ts key v ttl sw)))"
  "only_store (fst sw) (fst (snd (node_delete P sha wall ts key sw)))"
  "schedule (length (replica_nodes sha key (fst sw))) sched \<Longrightarrow>
     only_store (fst sw) (fst (snd (async_node_set P sha sched now wall ts key v ttl sw)))"
  "schedule (length (replica_nodes sha key (fst sw))) sched \<Longrightarrow>
     only_store (fst sw) (fst (snd (async_node_delete P sha sched wall ts key sw)))"
proof -
  let ?hs = "make_handles (fst sw) (replica_nodes sha key (fst sw))"
  let ?sets = "map (\<lambda>h. handle_set P now wall h key v ttl ts) ?hs"
    and ?dels = "map (\<lambda>h. handle_delete P wall h key ts) ?hs"
  have keep: "\<forall>f \<in> set ?sets. keeps f" "\<forall>f \<in> set ?dels. keeps f" by (auto simp: keeps_handles)
  have own: "only_store (fst sw) ((fst sw)\<lparr>sn_store := snd (lww_set now wall key v ttl (Some ts) (sn_store (fst sw)))\<rparr>)"
      "only_store (fst sw) ((fst sw)\<lparr>sn_store := snd (lww_delete wall key (Some ts) (sn_store (fst sw)))\<rparr>)"
    by (intro only_store_upd store_steps)+
  show "only_store (fst sw) (fst (snd (node_set P sha now wall ts key v ttl sw)))"
    using own run_each_keeps [OF keep(1), of sw]
    by (auto simp: node_set_def Let_def split: prod.split sum.split)
  show "only_store (fst sw) (fst (snd (node_delete P sha wall ts key sw)))"
    using own run_each_keeps [OF keep(2), of sw]
    by (auto simp: node_delete_def Let_def split: prod.split sum.split)
  assume "schedule (length (replica_nodes sha key (fst sw))) sched"
  then have sched: "set sched \<subseteq> {0..<length ?sets}" "set sched \<subseteq> {0..<length ?dels}"
    by (simp_all add: schedule_def make_handles_length)
  show "only_store (fst sw) (fst (snd (async_node_set P sha sched now wall ts key v ttl sw)))"
    using own gather_keeps [OF keep(1) sched(1), of sw]
    by (simp add: async_node_set_def gather_def async_make_handles_def async_handle_set_def Let_def case_prod_beta)
  show "only_store (fst sw) (fst (snd (async_node_delete P sha sched wall ts key sw)))"
    using own gather_keeps [OF keep(2) sched(2), of sw]
    by (simp add: async_node_delete_def gather_def async_make_handles_def async_handle_delete_def Let_def case_prod_beta)
qed

lemma dispatch_store: "lww_step\<^sup>*\<^sup>* s (snd (dispatch now wall msg s))"
  by (auto simp: dispatch_def dispatch_with_def case_prod_beta intro!: r_into_rtranclp store_steps
      split: MessageType.split sum.split option.split)

section \<open>What gossip does to a node\<close>

definition only_gossip :: "Gossip \<Rightarrow> Gossip \<Rightarrow> bool" where
  "only_gossip g g' \<longleftrightarrow> g_info g' = g_info g \<and> (gossip_wf g \<longrightarrow> gossip_wf g')"

lemma only_gossip_trans: "only_gossip g g1 \<Longrightarrow> only_gossip g1 g2 \<Longrightarrow> only_gossip g g2"
  by (simp add: only_gossip_def)

lemma only_gossip_ops [simp]:
  "only_gossip g g" "only_gossip g (gossip_add n g)" "only_gossip g (gossip_remove n g)"
  by (auto simp: only_gossip_def wf_intros)

lemma gossip_with_only: "only_gossip (fst gw) (fst (gossip_with P peer gw))"
  by (cases gw) (simp add: only_gossip_def gossip_with_wf gossip_with_info)

lemma gossip_round_only: "only_gossip (fst gw) (fst (gossip_round P R pick gw))"
proof -
  have "only_gossip (fst gw) (fst (fold (\<lambda>i. gossip_with P (peers ! i)) pick gw))" for peers
  proof (induction pick arbitrary: gw)
    case (Cons i pick)
    show ?case using only_gossip_trans [OF gossip_with_only Cons.IH] by simp
  qed simp
  then show ?thesis by (simp add: gossip_round_def split: sum.split)
qed

lemma gather_gossip:
  "set sched \<subseteq> {0..<length pick} \<Longrightarrow>
   only_gossip (fst gw) (fst (snd (gather_run sched (map (\<lambda>i gw. ((), async_gossip_with P (peers ! i) gw)) pick) rs gw)))"
proof (induction sched arbitrary: gw rs)
  case (Cons i js)
  then show ?case
    using only_gossip_trans [OF gossip_with_only [of gw P "peers ! (pick ! i)"]]
    by (simp add: async_gossip_with_def)
qed simp

lemma async_gossip_round_only:
  assumes "schedule (length pick) sched"
  shows "only_gossip (fst gw) (fst (async_gossip_round P R pick sched gw))"
proof -
  have "set sched \<subseteq> {0..<length pick}" using assms by (simp add: schedule_def)
  note g = gather_gossip [OF this, of gw P]
  show ?thesis by (simp add: async_gossip_round_def gather_def g split: sum.split)
qed

lemma handle_message_only: "only_gossip (fst gw) (fst (snd (handle_message P msg gw)))"
  by (auto simp: handle_message_def Let_def case_prod_beta split: MessageType.split sum.split)

lemma node_bootstrap_only:
  assumes "node_bootstrap R s = Inr s1"
  shows "only_gossip (sn_gossip s) (sn_gossip (node_join_ring s1)) \<and> sn_store (node_join_ring s1) = sn_store s
    \<and> sn_replication (node_join_ring s1) = sn_replication s"
proof -
  obtain peers where s1: "s1 = s\<lparr>sn_gossip := (sn_gossip s)\<lparr>g_ring := fold rr_add peers (sn_ring s)\<rparr>\<rparr>"
    using assms by (auto simp: node_bootstrap_def res_bind_Inr_iff)
  have "rr_wf (fold rr_add peers r)" if "rr_wf r" for r
    using rr.fold_add [OF that] by simp
  then show ?thesis
    unfolding s1 by (simp add: only_gossip_def node_join_ring_def gossip_wf_def rr.invar_add)
qed

section \<open>The steps of a node\<close>

text \<open>
  A step of a node over its pool's world: any API call, any served request, a gossip round with any sample, a
  purge, start and stop, or a change of the world (the network, the peers) alone.
\<close>

inductive node_step :: "'w pool_ops \<Rightarrow> (string \<Rightarrow> byte list) \<Rightarrow> StorageNode \<times> 'w \<Rightarrow> StorageNode \<times> 'w \<Rightarrow> bool"
  for P sha where
  Get: "node_step P sha sw (snd (node_get P sha lww_read_resolve now key sw))"
| GetFhw: "node_step P sha sw (snd (node_get P sha fhw_read_resolve now key sw))"
| AsyncGet: "schedule (length (replica_nodes sha key (fst sw))) sched \<Longrightarrow>
    node_step P sha sw (snd (async_node_get P sha (async_lww_read_resolve sched) now key sw))"
| AsyncGetFhw: "node_step P sha sw (snd (async_node_get P sha async_fhw_read_resolve now key sw))"
| Set: "node_step P sha sw (snd (node_set P sha now wall ts key v ttl sw))"
| AsyncSet: "schedule (length (replica_nodes sha key (fst sw))) sched \<Longrightarrow>
    node_step P sha sw (snd (async_node_set P sha sched now wall ts key v ttl sw))"
| Delete: "node_step P sha sw (snd (node_delete P sha wall ts key sw))"
| AsyncDelete: "schedule (length (replica_nodes sha key (fst sw))) sched \<Longrightarrow>
    node_step P sha sw (snd (async_node_delete P sha sched wall ts key sw))"
| Serve: "node_step P sha sw (snd (node_handle P clock msg sw))"
| Round: "gossip_round P R pick (sn_gossip s, w) = (g, w') \<Longrightarrow> node_step P sha (s, w) (s\<lparr>sn_gossip := g\<rparr>, w')"
| AsyncRound: "async_gossip_round P R pick sched (sn_gossip s, w) = (g, w') \<Longrightarrow> schedule (length pick) sched \<Longrightarrow>
    node_step P sha (s, w) (s\<lparr>sn_gossip := g\<rparr>, w')"
| Purge: "node_purge now s = Inr s' \<Longrightarrow> node_step P sha (s, w) (s', w)"
| Start: "node_step P sha sw (snd (node_start P R bind sw))"
| AsyncStart: "node_step P sha sw (snd (async_node_start P R bind events sw))"
| Stop: "node_step P sha sw (snd (node_stop P sw))"
| AsyncStop: "node_step P sha sw (async_node_stop P sched sw)"
| World: "node_step P sha (s, w) (s, w')"

definition node_change :: "StorageNode \<Rightarrow> StorageNode \<Rightarrow> bool" where
  "node_change s s' \<longleftrightarrow> lww_step\<^sup>*\<^sup>* (sn_store s) (sn_store s') \<and> only_gossip (sn_gossip s) (sn_gossip s')
     \<and> sn_replication s' = sn_replication s"

lemma node_change_refl: "node_change s s"
  by (simp add: node_change_def)

lemma node_change_trans: "node_change s s1 \<Longrightarrow> node_change s1 s2 \<Longrightarrow> node_change s s2"
  by (auto simp: node_change_def intro: only_gossip_trans)

lemma only_store_change: "only_store s s' \<Longrightarrow> node_change s s'"
  by (simp add: only_store_def node_change_def)

lemma node_handle_change: "node_change (fst sw) (fst (snd (node_handle P clock msg sw)))"
  using handle_message_only [of "(sn_gossip (fst sw), snd sw)" P msg]
    dispatch_store [of "sn_store (fst sw)" "fst clock" "snd clock" msg]
  by (simp add: node_handle_def node_change_def case_prod_beta Let_def)

lemma node_purge_change: "node_purge now s = Inr s' \<Longrightarrow> node_change s s'"
  by (auto simp: node_purge_def res_bind_Inr_iff node_change_def intro!: r_into_rtranclp intro: step_purge)

lemma start_event_change: "node_change (fst sw) (fst (start_event_step P targets ev sw))"
proof (cases "(P, targets, ev, sw)" rule: start_event_step.cases)
  case (2 P targets peer s w)
  then show ?thesis using gossip_with_only [of "(sn_gossip s, w)" P peer]
    by (simp add: async_gossip_with_def node_change_def case_prod_beta)
next
  case (3 P targets now s w)
  then show ?thesis using node_purge_change [of now s]
    by (auto simp: async_node_purge_def node_change_refl split: sum.split)
next
  case (4 P targets clock msg s w)
  then show ?thesis using node_handle_change [of "(s, w)" P clock msg] by simp
qed (simp add: node_change_refl)

lemma start_events_change: "node_change (fst sw) (fst (fold (start_event_step P targets) events sw))"
proof (induction events arbitrary: sw)
  case (Cons ev events)
  show ?case using node_change_trans [OF start_event_change Cons.IH] by simp
qed (simp add: node_change_refl)

lemma node_open_change: "node_change s (snd (async_node_open R bind s))"
  using node_bootstrap_only [of R s] node_change_refl
  by (auto simp: async_node_open_def async_node_bootstrap_def node_change_def split: sum.split)

lemma node_start_change:
  "node_change (fst sw) (fst (snd (node_start P R bind sw)))"
  "node_change (fst sw) (fst (snd (async_node_start P R bind events sw)))"
proof -
  show "node_change (fst sw) (fst (snd (node_start P R bind sw)))"
    using node_bootstrap_only [of R "fst sw"] node_change_refl
    by (auto simp: node_start_def node_change_def Let_def case_prod_beta split: sum.split)
  obtain r s1 where open_eq: "async_node_open R bind (fst sw) = (r, s1)" by fastforce
  then have "node_change (fst sw) s1" using node_open_change [of "fst sw" R bind] by simp
  then show "node_change (fst sw) (fst (snd (async_node_start P R bind events sw)))"
    using node_change_trans [OF _ start_events_change, of "fst sw" "(s1, snd sw)"]
    by (simp add: async_node_start_def open_eq split: sum.split)
qed

lemma node_step_change: "node_step P sha sw sw' \<Longrightarrow> node_change (fst sw) (fst sw')"
proof (induction rule: node_step.induct)
  case (Round R pick s w g w')
  then show ?case using gossip_round_only [of "(sn_gossip s, w)" P R pick] by (simp add: node_change_def)
next
  case (AsyncRound R pick sched s w g w')
  then show ?case using async_gossip_round_only [of pick sched "(sn_gossip s, w)" P R] by (simp add: node_change_def)
next
  case (Stop sw)
  show ?case by (simp add: node_stop_def node_change_refl split: prod.split sum.split)
qed (use only_store_change [OF api_reads(1)] only_store_change [OF api_reads(2)] only_store_change [OF api_reads(3)]
  only_store_change [OF api_reads(4)] only_store_change [OF api_writes(1)] only_store_change [OF api_writes(2)]
  only_store_change [OF api_writes(3)] only_store_change [OF api_writes(4)] node_handle_change node_purge_change
  node_start_change node_change_refl in \<open>auto simp: async_node_stop_def\<close>)

lemma node_steps_change: "(node_step P sha)\<^sup>*\<^sup>* sw sw' \<Longrightarrow> node_change (fst sw) (fst sw')"
  by (induction rule: rtranclp_induct) (auto intro: node_change_refl node_change_trans node_step_change)

lemma lww_reachable_steps: "lww_step\<^sup>*\<^sup>* s s' \<Longrightarrow> lww_reachable s \<Longrightarrow> lww_reachable s'"
  by (induction rule: rtranclp_induct) (auto intro: reach_step)

section \<open>Properties\<close>

text \<open>C29.
  Whatever a node has done since it was made, and whatever its peers and the network have done to it: its
  store is one that a sequence of store methods reaches, so every property of reachable stores holds of
  it, in particular no purge sweep raises; its ring holds no member twice; its identity and its
  replication have not changed; and the replicas of a key are that many distinct members, or all of them.
\<close>

theorem node_reachable_invariant:
  assumes "(node_step P sha)\<^sup>*\<^sup>* (node_init local_host disc adv pt ring repl, w0) (s, w)"
    and "rr_wf ring" and "0 \<le> repl"
  shows "lww_reachable (sn_store s) \<and> (\<exists>s'. node_purge now s = Inr s') \<and> distinct (rr_nodes (sn_ring s))
    \<and> sn_info s = sn_info (node_init local_host disc adv pt ring repl)
    \<and> distinct (replica_nodes sha key s)
    \<and> length (replica_nodes sha key s) = min (nat repl) (rr_len (sn_ring s))"
proof -
  let ?s0 = "node_init local_host disc adv pt ring repl"
  have "node_change ?s0 s" using node_steps_change [OF assms(1)] by simp
  then have change: "lww_step\<^sup>*\<^sup>* (sn_store ?s0) (sn_store s)" "sn_info s = sn_info ?s0" "sn_replication s = repl"
      "gossip_wf (sn_gossip ?s0) \<longrightarrow> gossip_wf (sn_gossip s)"
    by (auto simp: node_change_def only_gossip_def node_init_def Let_def)
  have reachable: "lww_reachable (sn_store s)"
    using lww_reachable_steps [OF change(1)] reach_init by (simp add: node_init_def Let_def)
  then have purge: "\<exists>s'. node_purge now s = Inr s'"
    using lww_purge_eq [OF lww_reachable_wf] by (simp add: node_purge_def)
  have "rr_wf (sn_ring s)" using change(4) assms(2) by (simp add: gossip_wf_def node_init_def Let_def)
  then show ?thesis
    using reachable purge change(2,3) rr.get_members_distinct [of "sn_ring s"] rr.get_nodes_length [OF assms(3)]
    by (simp add: replica_nodes_def rr_len_def rr_wf_def)
qed

lemma node_reachable_invariant_witness:
  "lww_reachable (sn_store (fst (snd (node_set dead_pool (\<lambda>_. []) 0 0 5 ''k'' (PInt 1) None
      (node_init ''h'' (StaticDiscovery []) None 1 rr_init 2, ())))))"
proof -
  let ?s0 = "node_init ''h'' (StaticDiscovery []) None 1 rr_init 2"
  let ?sw = "snd (node_set dead_pool (\<lambda>_. []) 0 0 5 ''k'' (PInt 1) None (?s0, ()))"
  have step: "(node_step dead_pool (\<lambda>_. []))\<^sup>*\<^sup>* (?s0, ()) (fst ?sw, snd ?sw)"
    using node_step.Set [of dead_pool "\<lambda>_. []" "(?s0, ())"] by (simp only: prod.collapse r_into_rtranclp)
  have "rr_wf rr_init" "(0 :: int) \<le> 2" by (simp_all add: rr_wf_def rr_init_def)
  from node_reachable_invariant [OF step this] show ?thesis by simp
qed

end
