(* ===== verification/Service.thy ===== *)
theory Service
  imports Node_Reachable
begin

text \<open>
  The running blocking node (\<open>node/sync.py\<close>): the accept loop, the purge loop, the gossip loop, a
  handler thread per client connection, and \<open>stop\<close> among them. A step is one iteration or half an
  iteration of a loop, one request of a client, one statement of \<open>stop\<close>, or a call of the node's API;
  threads interleave between steps. The time the loops wait is left out.
\<close>

section \<open>Threads\<close>

text \<open>The accept loop is before its test of the stop event, or in \<open>accept\<close> (which times out every half second).\<close>

datatype accept_pc = Checking | Accepting | AcceptEnded
datatype purge_pc = Waiting | PurgeEnded
datatype stop_pc = NotCalled | Announced | EventSet | SocketClosed | JoinedAll | PoolClosed

record 'w service =
  sv_node :: StorageNode
  sv_world :: 'w
  sv_event :: bool
  sv_listening :: bool
  sv_accept :: accept_pc
  sv_purge :: purge_pc
  sv_gossip :: bool
  sv_stop :: stop_pc
  sv_clients :: "nat list"

text \<open>After \<open>start\<close>: the socket listens and the three threads run.\<close>

definition sv_started :: "StorageNode \<Rightarrow> 'w \<Rightarrow> 'w service" where
  "sv_started s w = \<lparr>sv_node = s, sv_world = w, sv_event = False, sv_listening = True, sv_accept = Checking,
     sv_purge = Waiting, sv_gossip = True, sv_stop = NotCalled, sv_clients = []\<rparr>"

definition accept_check :: "'w service \<Rightarrow> 'w service" where
  "accept_check sv = sv\<lparr>sv_accept := (if sv_event sv then AcceptEnded else Accepting)\<rparr>"

text \<open>
  What comes up while the loop is in \<open>accept\<close>: a connection, for which a thread is started if the socket still
  listens and which meets an \<open>OSError\<close> of the closed socket otherwise; the timeout; another \<open>OSError\<close>.
\<close>

datatype accepted = Connection nat | TimedOut | AcceptError

definition accept_take :: "accepted \<Rightarrow> 'w service \<Rightarrow> 'w service" where
  "accept_take ev sv =
     (case ev of
        Connection c \<Rightarrow>
          if sv_listening sv then sv\<lparr>sv_clients := c # sv_clients sv, sv_accept := Checking\<rparr>
          else sv\<lparr>sv_accept := AcceptEnded\<rparr>
      | TimedOut \<Rightarrow> sv\<lparr>sv_accept := Checking\<rparr>
      | AcceptError \<Rightarrow> sv\<lparr>sv_accept := AcceptEnded\<rparr>)"

text \<open>\<open>_stop.wait\<close> returns whether the event is set; an exception of the sweep ends the thread.\<close>

definition purge_iteration :: "rat \<Rightarrow> 'w service \<Rightarrow> 'w service" where
  "purge_iteration now sv =
     (if sv_event sv then sv\<lparr>sv_purge := PurgeEnded\<rparr>
      else (case node_purge now (sv_node sv) of
              Inl e \<Rightarrow> sv\<lparr>sv_purge := PurgeEnded\<rparr>
            | Inr s \<Rightarrow> sv\<lparr>sv_node := s\<rparr>))"

text \<open>\<open>gossip_loop\<close>, \<open>while True\<close>: a round, whose exceptions are caught, and again.\<close>

definition gossip_iteration :: "'w pool_ops \<Rightarrow> resolver \<Rightarrow> nat list \<Rightarrow> 'w service \<Rightarrow> 'w service" where
  "gossip_iteration P R pick sv =
     (case gossip_round P R pick (sn_gossip (sv_node sv), sv_world sv) of
        (g, w) \<Rightarrow> sv\<lparr>sv_node := (sv_node sv)\<lparr>sn_gossip := g\<rparr>, sv_world := w\<rparr>)"

text \<open>A handler thread answers a request; an exception, or the end of the connection, ends it.\<close>

definition client_request :: "'w pool_ops \<Rightarrow> rat \<times> int \<Rightarrow> nat \<Rightarrow> Message \<Rightarrow> 'w service \<Rightarrow> Message res \<times> 'w service" where
  "client_request P clock c msg sv =
     (case node_handle P clock msg (sv_node sv, sv_world sv) of
        (r, s, w) \<Rightarrow>
          (r, sv\<lparr>sv_node := s, sv_world := w,
                 sv_clients := (case r of Inl e \<Rightarrow> removeAll c (sv_clients sv) | Inr _ \<Rightarrow> sv_clients sv)\<rparr>))"

definition client_end :: "nat \<Rightarrow> 'w service \<Rightarrow> 'w service" where
  "client_end c sv = sv\<lparr>sv_clients := removeAll c (sv_clients sv)\<rparr>"

text \<open>\<open>stop\<close>, statement by statement; \<open>join\<close> waits three seconds at most.\<close>

definition stop_statement :: "'w pool_ops \<Rightarrow> 'w service \<Rightarrow> unit res \<times> 'w service" where
  "stop_statement P sv =
     (case sv_stop sv of
        NotCalled \<Rightarrow>
         (case announce_leave P (sn_gossip (sv_node sv)) (sv_world sv) of
            (Inl e, w) \<Rightarrow> (Inl e, sv\<lparr>sv_world := w\<rparr>)
          | (Inr _, w) \<Rightarrow> (Inr (), sv\<lparr>sv_world := w, sv_stop := Announced\<rparr>))
      | Announced \<Rightarrow> (Inr (), sv\<lparr>sv_event := True, sv_stop := EventSet\<rparr>)
      | EventSet \<Rightarrow> (Inr (), sv\<lparr>sv_listening := False, sv_stop := SocketClosed\<rparr>)
      | SocketClosed \<Rightarrow> (Inr (), sv\<lparr>sv_stop := JoinedAll\<rparr>)
      | JoinedAll \<Rightarrow> (Inr (), sv\<lparr>sv_world := p_close_all P (sv_world sv), sv_stop := PoolClosed\<rparr>)
      | PoolClosed \<Rightarrow> (Inr (), sv))"

section \<open>Runs\<close>

datatype label = Accept | Purge | Round | Serve nat "Message res" | Leave nat | Stop | Api

text \<open>Connections are told apart by number.\<close>

inductive sv_step :: "'w pool_ops \<Rightarrow> resolver \<Rightarrow> (string \<Rightarrow> byte list) \<Rightarrow> 'w service \<Rightarrow> label \<Rightarrow> 'w service \<Rightarrow> bool"
  for P R sha where
  AcceptCheck: "sv_accept sv = Checking \<Longrightarrow> sv_step P R sha sv Accept (accept_check sv)"
| AcceptTake: "sv_accept sv = Accepting \<Longrightarrow> \<forall>c. ev = Connection c \<longrightarrow> c \<notin> set (sv_clients sv) \<Longrightarrow>
    sv_step P R sha sv Accept (accept_take ev sv)"
| Purge: "sv_purge sv = Waiting \<Longrightarrow> sv_step P R sha sv Purge (purge_iteration now sv)"
| Round: "sv_gossip sv \<Longrightarrow> sv_step P R sha sv Round (gossip_iteration P R pick sv)"
| Serve: "c \<in> set (sv_clients sv) \<Longrightarrow> client_request P clock c msg sv = (r, sv') \<Longrightarrow> sv_step P R sha sv (Serve c r) sv'"
| Leave: "c \<in> set (sv_clients sv) \<Longrightarrow> sv_step P R sha sv (Leave c) (client_end c sv)"
| Stop: "stop_statement P sv = (r, sv') \<Longrightarrow> sv_step P R sha sv Stop sv'"
| Api: "node_step P sha (sv_node sv, sv_world sv) (s, w) \<Longrightarrow> sv_step P R sha sv Api (sv\<lparr>sv_node := s, sv_world := w\<rparr>)"

inductive_cases sv_stepE: "sv_step P R sha sv l sv'"

inductive sv_run :: "'w pool_ops \<Rightarrow> resolver \<Rightarrow> (string \<Rightarrow> byte list) \<Rightarrow> 'w service \<Rightarrow> label list \<Rightarrow> 'w service \<Rightarrow> bool"
  for P R sha where
  Nil: "sv_run P R sha sv [] sv"
| Cons: "sv_step P R sha sv l sv1 \<Longrightarrow> sv_run P R sha sv1 ls sv' \<Longrightarrow> sv_run P R sha sv (l # ls) sv'"

definition steps_left :: "'w service \<Rightarrow> nat" where
  "steps_left sv = (case sv_accept sv of Checking \<Rightarrow> 1 | Accepting \<Rightarrow> 2 | AcceptEnded \<Rightarrow> 0)
     + (case sv_purge sv of Waiting \<Rightarrow> 1 | PurgeEnded \<Rightarrow> 0)"

lemma gossip_iteration_frame [simp]:
  "sv_event (gossip_iteration P R pick sv) = sv_event sv" "sv_listening (gossip_iteration P R pick sv) = sv_listening sv"
  "sv_accept (gossip_iteration P R pick sv) = sv_accept sv" "sv_purge (gossip_iteration P R pick sv) = sv_purge sv"
  "sv_stop (gossip_iteration P R pick sv) = sv_stop sv" "sv_clients (gossip_iteration P R pick sv) = sv_clients sv"
  "sv_gossip (gossip_iteration P R pick sv) = sv_gossip sv"
  by (simp_all add: gossip_iteration_def split: prod.split)

text \<open>What the statements of \<open>stop\<close> have done by the time it is at a later one.\<close>

definition stop_order :: "'w service \<Rightarrow> bool" where
  "stop_order sv \<longleftrightarrow> (sv_stop sv \<notin> {NotCalled, Announced} \<longrightarrow> sv_event sv)
     \<and> (sv_stop sv \<notin> {NotCalled, Announced, EventSet} \<longrightarrow> \<not> sv_listening sv)"

lemma sv_step_order: "sv_step P R sha sv l sv' \<Longrightarrow> stop_order sv \<Longrightarrow> stop_order sv'"
proof (induction rule: sv_step.induct)
  case (AcceptTake sv ev)
  then show ?case by (cases ev) (auto simp: accept_take_def stop_order_def)
qed (auto simp: accept_check_def purge_iteration_def client_request_def client_end_def stop_statement_def stop_order_def
    split: prod.splits sum.splits stop_pc.splits)

lemma sv_run_order: "sv_run P R sha sv ls sv' \<Longrightarrow> stop_order sv \<Longrightarrow> stop_order sv'"
  by (induction rule: sv_run.induct) (auto dest: sv_step_order)

abbreviation socket_closed :: "'w service \<Rightarrow> bool" where
  "socket_closed sv \<equiv> sv_stop sv \<in> {SocketClosed, JoinedAll, PoolClosed}"

lemma sv_step_closed:
  assumes "sv_step P R sha sv l sv'" and "socket_closed sv" and "sv_event sv" and "\<not> sv_listening sv"
  shows "socket_closed sv' \<and> sv_event sv' \<and> \<not> sv_listening sv' \<and> set (sv_clients sv') \<subseteq> set (sv_clients sv)
    \<and> steps_left sv' + (if l \<in> {Accept, Purge} then 1 else 0) \<le> steps_left sv"
  using assms
proof (induction rule: sv_step.induct)
  case (AcceptTake sv ev)
  then show ?case by (cases ev) (auto simp: accept_take_def steps_left_def)
qed (auto simp: accept_check_def purge_iteration_def client_request_def client_end_def stop_statement_def
    steps_left_def split: prod.splits sum.splits stop_pc.splits)

lemma sv_run_closed:
  assumes "sv_run P R sha sv ls sv'" and "socket_closed sv" and "sv_event sv" and "\<not> sv_listening sv"
  shows "set (sv_clients sv') \<subseteq> set (sv_clients sv)
    \<and> length (filter (\<lambda>l. l \<in> {Accept, Purge}) ls) + steps_left sv' \<le> steps_left sv"
  using assms
proof (induction rule: sv_run.induct)
  case (Cons sv l sv1 ls sv')
  then show ?case using sv_step_closed [OF Cons.hyps(1) Cons.prems] by auto
qed simp

lemma steps_left_bounds:
  "steps_left sv \<le> 3" "steps_left sv = 0 \<Longrightarrow> sv_accept sv = AcceptEnded \<and> sv_purge sv = PurgeEnded"
  by (auto simp: steps_left_def split: accept_pc.splits purge_pc.splits)

lemma sv_started_order: "stop_order (sv_started s w)"
  by (simp add: stop_order_def sv_started_def)

text \<open>C28.
  A node runs from \<open>start\<close> on, with any interleaving of its threads, its clients, its peers and the users of
  the API, and \<open>stop\<close> gets past the closing of the listening socket. From then on, whatever they do, no
  connection is accepted, and the accept loop and the purge loop make at most three more steps together,
  so that both end; the purge loop sweeps no more.
\<close>

theorem stop_ends_service:
  assumes "sv_run P R sha (sv_started s w) before sv" and "sv_stop sv \<in> {SocketClosed, JoinedAll, PoolClosed}"
    and "sv_run P R sha sv ls sv'"
  shows "set (sv_clients sv') \<subseteq> set (sv_clients sv) \<and> length (filter (\<lambda>l. l \<in> {Accept, Purge}) ls) \<le> 3
    \<and> (length (filter (\<lambda>l. l \<in> {Accept, Purge}) ls) = steps_left sv \<longrightarrow>
         sv_accept sv' = AcceptEnded \<and> sv_purge sv' = PurgeEnded)"
proof -
  have "stop_order sv" using sv_run_order [OF assms(1) sv_started_order] .
  then have "sv_event sv" "\<not> sv_listening sv" using assms(2) by (auto simp: stop_order_def)
  from sv_run_closed [OF assms(3,2) this] steps_left_bounds show ?thesis
    by (metis (no_types, lifting) add_leE add_cancel_left_right le_antisym le_trans le_add1)
qed

lemma stop_run:
  assumes "sv_stop sv = NotCalled" and "announce_leave P (sn_gossip (sv_node sv)) (sv_world sv) = (Inr (), w1)"
  shows "sv_run P R sha sv [Stop, Stop, Stop, Stop, Stop]
    (sv\<lparr>sv_world := p_close_all P w1, sv_event := True, sv_listening := False, sv_stop := PoolClosed\<rparr>)"
proof -
  have step: "sv_step P R sha x Stop (snd (stop_statement P x))" for x
    by (rule sv_step.Stop [of P x "fst (stop_statement P x)"]) simp
  let ?f = "\<lambda>x. snd (stop_statement P x)"
  have "sv_run P R sha sv [Stop, Stop, Stop, Stop, Stop] (?f (?f (?f (?f (?f sv)))))"
    by (intro sv_run.Cons [OF step] sv_run.Nil)
  moreover have "?f (?f (?f (?f (?f sv)))) =
      sv\<lparr>sv_world := p_close_all P w1, sv_event := True, sv_listening := False, sv_stop := PoolClosed\<rparr>"
    using assms by (simp add: stop_statement_def)
  ultimately show ?thesis by simp
qed

text \<open>C40.
  \<open>stop\<close> returns with the gossip loop still running and every client connection still served: a request
  that arrives on one of them afterwards is handled and answered as before, writes included, and gossip
  rounds go on over the closed pool.
\<close>

theorem stop_leaves_threads:
  assumes "sv_stop sv = NotCalled" and "sv_gossip sv"
    and "announce_leave P (sn_gossip (sv_node sv)) (sv_world sv) = (Inr (), w1)"
  shows "\<exists>sv'. sv_run P R sha sv [Stop, Stop, Stop, Stop, Stop] sv' \<and> sv_stop sv' = PoolClosed
    \<and> sv_node sv' = sv_node sv \<and> sv_clients sv' = sv_clients sv
    \<and> (\<forall>c \<in> set (sv_clients sv). \<forall>clock msg r s w. node_handle P clock msg (sv_node sv', sv_world sv') = (Inr r, s, w) \<longrightarrow>
         (\<exists>sv''. sv_step P R sha sv' (Serve c (Inr r)) sv'' \<and> sv_node sv'' = s \<and> c \<in> set (sv_clients sv'')))
    \<and> (\<forall>pick. sv_step P R sha sv' Round (gossip_iteration P R pick sv'))"
proof -
  let ?sv = "sv\<lparr>sv_world := p_close_all P w1, sv_event := True, sv_listening := False, sv_stop := PoolClosed\<rparr>"
  have "\<exists>sv''. sv_step P R sha ?sv (Serve c (Inr r)) sv'' \<and> sv_node sv'' = s \<and> c \<in> set (sv_clients sv'')"
    if "c \<in> set (sv_clients sv)" "node_handle P clock msg (sv_node ?sv, sv_world ?sv) = (Inr r, s, w)" for c clock msg r s w
  proof -
    have "client_request P clock c msg ?sv = (Inr r, ?sv\<lparr>sv_node := s, sv_world := w\<rparr>)"
      using that(2) by (simp add: client_request_def)
    then show ?thesis using that(1) sv_step.Serve [of c ?sv P clock msg "Inr r"] by fastforce
  qed
  then show ?thesis
    using stop_run [OF assms(1,3), of R sha] assms(2) by (intro exI [of _ ?sv]) (simp add: sv_step.Round)
qed

section \<open>The loops of the asyncio node\<close>

text \<open>
  Tasks that \<open>stop\<close> cancels. An item is an iteration, or the \<open>CancelledError\<close> that ends the loop, at its
  \<open>sleep\<close> or in its body (\<open>None\<close>). The result says whether the task still runs.
\<close>

fun async_purge_loop :: "rat option list \<Rightarrow> StorageNode \<Rightarrow> bool \<times> StorageNode" where
  "async_purge_loop [] s = (True, s)"
| "async_purge_loop (None # its) s = (False, s)"
| "async_purge_loop (Some now # its) s =
     (case async_node_purge now s of Inl e \<Rightarrow> (False, s) | Inr s' \<Rightarrow> async_purge_loop its s')"

fun async_gossip_loop :: "'w pool_ops \<Rightarrow> resolver \<Rightarrow> (nat list \<times> nat list) option list \<Rightarrow> Gossip \<times> 'w \<Rightarrow> bool \<times> Gossip \<times> 'w" where
  "async_gossip_loop P R [] gw = (True, gw)"
| "async_gossip_loop P R (None # its) gw = (False, gw)"
| "async_gossip_loop P R (Some (pick, sched) # its) gw =
     async_gossip_loop P R its (async_gossip_round P R pick sched gw)"

text \<open>
  Both run until they are cancelled and not longer: no sweep of a store that its methods have made raises.
\<close>

lemma async_purge_loop_runs:
  "lww_reachable (sn_store s) \<Longrightarrow> \<exists>s'. async_purge_loop (map Some ts) s = (True, s') \<and> lww_reachable (sn_store s')
     \<and> async_purge_loop (map Some ts @ None # its) s = (False, s')"
proof (induction ts arbitrary: s)
  case (Cons now ts)
  obtain st where st: "async_node_purge now s = Inr (s\<lparr>sn_store := st\<rparr>)" "lww_reachable st"
    using lww_purge_eq [OF lww_reachable_wf [OF Cons.prems]] reach_step [OF Cons.prems step_purge]
    by (auto simp: async_node_purge_def node_purge_def)
  then show ?case using Cons.IH [of "s\<lparr>sn_store := st\<rparr>"] by simp
qed simp

lemma async_gossip_loop_runs:
  "fst (async_gossip_loop P R (map Some rounds) gw) \<and> \<not> fst (async_gossip_loop P R (map Some rounds @ None # its) gw)
   \<and> snd (async_gossip_loop P R (map Some rounds @ None # its) gw) = snd (async_gossip_loop P R (map Some rounds) gw)"
proof (induction rounds arbitrary: gw)
  case (Cons r rounds)
  then show ?case by (cases r) (simp only: list.simps append_Cons async_gossip_loop.simps, simp)
qed simp

section \<open>The with statement\<close>

text \<open>
  A body under \<open>with\<close> always meets the node with itself in its ring, and \<open>stop\<close> has announced the departure
  and closed the pool when the statement ends without an exception of \<open>start\<close> or \<open>stop\<close>.
\<close>

lemma node_with_brackets:
  assumes "node_with P R bind body sw = (Inr x, sw')"
  shows "\<exists>sw1 sw2 w3. node_start P R bind sw = (Inr (), sw1) \<and> sn_info (fst sw1) \<in> members (sn_gossip (fst sw1))
    \<and> body sw1 = (Inr x, sw2) \<and> announce_leave P (sn_gossip (fst sw2)) (snd sw2) = (Inr (), w3)
    \<and> sw' = (fst sw2, p_close_all P w3)"
proof -
  have "sn_info (fst sw1) \<in> members (sn_gossip (fst sw1))" if "node_start P R bind sw = (Inr (), sw1)" for sw1
    using that by (auto simp: node_start_def node_bootstrap_def node_join_ring_def members_def rr_add_def res_bind_Inr_iff
        Let_def split: sum.splits prod.splits)
  then show ?thesis
    using assms by (auto simp: node_with_def node_stop_def split: sum.splits prod.splits)
qed

section \<open>Witnesses\<close>

text \<open>A node without peers, with one client, whose accept loop is in \<open>accept\<close> when \<open>stop\<close> is called.\<close>

definition demo_resolver :: resolver where
  "demo_resolver = \<lparr>getaddrinfo = \<lambda>h p. Inr [], srv = \<lambda>_. Inr []\<rparr>"

definition demo_service :: "unit service" where
  "demo_service = (sv_started (node_init ''h'' (StaticDiscovery []) None 1 rr_init 2) ())
     \<lparr>sv_accept := Accepting, sv_clients := [7]\<rparr>"

text \<open>
  The accept loop takes a client, and is in \<open>accept\<close> again when \<open>stop\<close> runs; then a second client comes too
  late and both loops end.
\<close>

lemma stop_ends_service_witness:
  "\<exists>s sv sv'. sv_run dead_pool demo_resolver (\<lambda>_. []) (sv_started s ()) [Accept, Accept, Accept, Stop, Stop, Stop] sv
    \<and> sv_stop sv = SocketClosed \<and> sv_clients sv = [7]
    \<and> sv_run dead_pool demo_resolver (\<lambda>_. []) sv [Accept, Purge] sv'
    \<and> sv_accept sv' = AcceptEnded \<and> sv_purge sv' = PurgeEnded \<and> set (sv_clients sv') \<subseteq> {7}"
proof -
  let ?P = "dead_pool" and ?s = "node_init ''h'' (StaticDiscovery []) None 1 rr_init 2"
  let ?f = "\<lambda>x. snd (stop_statement ?P x)"
  let ?a0 = "sv_started ?s ()" let ?a1 = "accept_check ?a0" let ?a2 = "accept_take (Connection 7) ?a1"
  let ?a3 = "accept_check ?a2" let ?sv = "?f (?f (?f ?a3))"
  let ?b1 = "accept_take (Connection 8) ?sv" let ?b2 = "purge_iteration 0 ?b1"
  have stop: "sv_step ?P demo_resolver (\<lambda>_. []) x Stop (?f x)" for x
    by (rule sv_step.Stop [of ?P x "fst (stop_statement ?P x)"]) simp
  have a3: "?a3 = ?a0\<lparr>sv_accept := Accepting, sv_clients := [7]\<rparr>"
    by (simp add: accept_check_def accept_take_def sv_started_def)
  have "announce_leave ?P (sn_gossip ?s) () = (Inr (), ())"
    by (simp add: announce_leave_def broadcast_def node_init_def rr_init_def Let_def)
  then have sv: "?sv = ?a0\<lparr>sv_accept := Accepting, sv_clients := [7], sv_event := True, sv_listening := False,
      sv_stop := SocketClosed\<rparr>"
    unfolding a3 by (simp add: stop_statement_def sv_started_def)
  have one: "sv_run ?P demo_resolver (\<lambda>_. []) ?a0 [Accept, Accept, Accept, Stop, Stop, Stop] ?sv"
  proof -
    have "sv_step ?P demo_resolver (\<lambda>_. []) ?a0 Accept ?a1" "sv_step ?P demo_resolver (\<lambda>_. []) ?a1 Accept ?a2"
      "sv_step ?P demo_resolver (\<lambda>_. []) ?a2 Accept ?a3"
      by (rule sv_step.AcceptCheck sv_step.AcceptTake; simp add: accept_check_def accept_take_def sv_started_def)+
    then show ?thesis
      by (elim sv_run.Cons) (rule sv_run.Cons [OF stop sv_run.Cons [OF stop sv_run.Cons [OF stop sv_run.Nil]]])
  qed
  have two: "sv_run ?P demo_resolver (\<lambda>_. []) ?sv [Accept, Purge] ?b2"
  proof -
    have "sv_step ?P demo_resolver (\<lambda>_. []) ?sv Accept ?b1" "sv_step ?P demo_resolver (\<lambda>_. []) ?b1 Purge ?b2"
      unfolding sv by (rule sv_step.AcceptTake sv_step.Purge; simp add: accept_take_def sv_started_def)+
    then show ?thesis by (elim sv_run.Cons) (rule sv_run.Nil)
  qed
  have "steps_left ?sv = 3" unfolding sv by (simp add: steps_left_def sv_started_def)
  from stop_ends_service [OF one _ two] have sub: "set (sv_clients ?b2) \<subseteq> {7}" unfolding sv by simp
  have "sv_accept ?b2 = AcceptEnded" "sv_purge ?b2 = PurgeEnded"
    unfolding sv by (simp_all add: accept_take_def purge_iteration_def sv_started_def)
  with one two sub show ?thesis
    by (intro exI [of _ ?s] exI [of _ ?sv] exI [of _ ?b2]) (simp add: sv)
qed

lemma stop_leaves_threads_witness:
  "\<exists>sv'. sv_run dead_pool demo_resolver (\<lambda>_. []) demo_service [Stop, Stop, Stop, Stop, Stop] sv'
    \<and> sv_stop sv' = PoolClosed \<and> sv_clients sv' = [7]
    \<and> (\<exists>sv''. sv_step dead_pool demo_resolver (\<lambda>_. []) sv' (Serve 7 (Inr (message OK (PDict [(''key'', PStr ''k'')])))) sv''
        \<and> sn_store (sv_node sv'') \<noteq> sn_store (sv_node sv'))"
proof -
  have start: "sv_stop demo_service = NotCalled" "sv_gossip demo_service"
    "announce_leave dead_pool (sn_gossip (sv_node demo_service)) (sv_world demo_service) = (Inr (), ())"
    by (simp_all add: demo_service_def sv_started_def announce_leave_def broadcast_def node_init_def rr_init_def Let_def)
  obtain sv' where sv': "sv_run dead_pool demo_resolver (\<lambda>_. []) demo_service [Stop, Stop, Stop, Stop, Stop] sv'"
    "sv_stop sv' = PoolClosed" "sv_node sv' = sv_node demo_service" "sv_clients sv' = sv_clients demo_service"
    "\<forall>c \<in> set (sv_clients demo_service). \<forall>clock msg r s w. node_handle dead_pool clock msg (sv_node sv', sv_world sv') = (Inr r, s, w) \<longrightarrow>
         (\<exists>sv''. sv_step dead_pool demo_resolver (\<lambda>_. []) sv' (Serve c (Inr r)) sv'' \<and> sv_node sv'' = s \<and> c \<in> set (sv_clients sv''))"
    using stop_leaves_threads [OF start, of demo_resolver "\<lambda>_. []"] by blast
  let ?s = "sv_node demo_service"
  have "dispatch 0 0 (set_request ''k'' (PInt 1) None 5) (sn_store ?s) = (Inr (message OK (PDict [(''key'', PStr ''k'')])),
      snd (lww_set 0 0 ''k'' (PInt 1) None (Some 5) (sn_store ?s)))"
    by (simp add: dispatch_def lww.dispatch_set)
  then have h: "node_handle dead_pool (0, 0) (set_request ''k'' (PInt 1) None 5) (?s, ()) =
      (Inr (message OK (PDict [(''key'', PStr ''k'')])),
       ?s\<lparr>sn_store := snd (lww_set 0 0 ''k'' (PInt 1) None (Some 5) (sn_store ?s))\<rparr>, ())"
    by (simp add: node_handle_def is_gossip_def)
  have "snd (lww_set 0 0 ''k'' (PInt 1) None (Some 5) (sn_store ?s)) \<noteq> sn_store ?s"
    by (simp add: demo_service_def sv_started_def node_init_def lww_init_def lww_set_def Let_def)
  moreover have "7 \<in> set (sv_clients demo_service)" by (simp add: demo_service_def)
  ultimately show ?thesis
    using sv' h by (intro exI [of _ sv']) (fastforce simp: demo_service_def)
qed

end
