(* ===== verification/Http.thy ===== *)
theory Http
  imports Cluster
begin

text \<open>
  The web front ends of \<open>examples/\<close>: \<open>flask_server.py\<close> on a blocking node, \<open>fastapi_server.py\<close> and
  \<open>docker-compose/app.py\<close> on an asyncio node. A route handler is a function to a status and a body;
  \<open>abort\<close> and \<open>HTTPException\<close> end it with theirs, any other exception leaves it to the framework. Flask
  and FastAPI (routing, JSON, query parsing) are not modelled.
\<close>

section \<open>Responses\<close>

datatype http = Http int pyval | Raises pyerr

text \<open>The \<open>repr\<close> of a string, for the texts of the errors: quotes, escapes, unprintable characters.\<close>

definition hex_digit :: "nat \<Rightarrow> char" where
  "hex_digit n = (if n < 10 then digit_char n else char_of (87 + n))"

definition repr_char :: "char \<Rightarrow> char \<Rightarrow> string" where
  "repr_char q c =
     (let n = of_char c :: nat
      in if c = q \<or> n = 92 then [char_of (92 :: nat), c]
         else if n = 9 then [char_of (92 :: nat), CHR ''t'']
         else if n = 10 then [char_of (92 :: nat), CHR ''n'']
         else if n = 13 then [char_of (92 :: nat), CHR ''r'']
         else if n < 32 \<or> 127 \<le> n \<and> n \<le> 160 \<or> n = 173
           then [char_of (92 :: nat), CHR ''x'', hex_digit (n div 16), hex_digit (n mod 16)]
         else [c])"

definition py_repr_str :: "string \<Rightarrow> string" where
  "py_repr_str s =
     (let sq = char_of (39 :: nat); dq = char_of (34 :: nat); q = if sq \<in> set s \<and> dq \<notin> set s then dq else sq
      in q # concat (map (repr_char q) s) @ [q])"

definition key_not_found :: "string \<Rightarrow> http" where
  "key_not_found key = Http 404 (PStr (''key '' @ py_repr_str key @ '' not found''))"

definition write_failed :: http where
  "write_failed = Http 500 (PStr ''write failed on all replicas'')"

definition health_body :: "rat \<Rightarrow> StorageNode \<Rightarrow> pyval" where
  "health_body now s = PDict [(''address'', PStr (node_address (sn_info s))),
     (''peers'', PInt (int (rr_len (sn_ring s)) - 1)), (''keys'', PInt (int (lww_len now (sn_store s))))]"

section \<open>Flask\<close>

text \<open>The module starts the node; \<open>ring\<close> is the default ring, which the process may have filled already.\<close>

definition flask_start :: "'w pool_ops \<Rightarrow> resolver \<Rightarrow> unit res \<Rightarrow> string \<Rightarrow> string \<Rightarrow> int \<Rightarrow> RendezvousRing \<Rightarrow> 'w
    \<Rightarrow> unit res \<times> StorageNode option \<times> 'w" where
  "flask_start P R bind local_host seed_addr dls_port ring w =
     (case node_from_address seed_addr of
        Inl e \<Rightarrow> (Inl e, None, w)
      | Inr sd \<Rightarrow>
         (case node_start P R bind (node_init local_host (GossipDiscovery sd []) None dls_port ring default_replication, w) of
            (r, s, w') \<Rightarrow> (r, Some s, w')))"

definition flask_get_key :: "'w pool_ops \<Rightarrow> (string \<Rightarrow> byte list) \<Rightarrow> rat \<Rightarrow> string \<Rightarrow> StorageNode \<times> 'w
    \<Rightarrow> http \<times> StorageNode \<times> 'w" where
  "flask_get_key P sha now key sw =
     (case node_get P sha lww_read_resolve now key sw of
        (value, sw') \<Rightarrow> (if value = PNone then key_not_found key else Http 200 value, sw'))"

text \<open>\<open>request.args.get("value", "")\<close>.\<close>

definition flask_set_key :: "'w pool_ops \<Rightarrow> (string \<Rightarrow> byte list) \<Rightarrow> rat \<Rightarrow> int \<Rightarrow> int \<Rightarrow> string \<Rightarrow> string option
    \<Rightarrow> StorageNode \<times> 'w \<Rightarrow> http \<times> StorageNode \<times> 'w" where
  "flask_set_key P sha now wall ts key arg sw =
     (let value = PStr (case arg of None \<Rightarrow> [] | Some x \<Rightarrow> x)
      in case node_set P sha now wall ts key value None sw of
           (Inl e, sw') \<Rightarrow> (Raises e, sw')
         | (Inr ok, sw') \<Rightarrow> (if \<not> ok then write_failed else Http 204 (PStr []), sw'))"

definition flask_delete_key :: "'w pool_ops \<Rightarrow> (string \<Rightarrow> byte list) \<Rightarrow> int \<Rightarrow> int \<Rightarrow> string \<Rightarrow> StorageNode \<times> 'w
    \<Rightarrow> http \<times> StorageNode \<times> 'w" where
  "flask_delete_key P sha wall ts key sw =
     (case node_delete P sha wall ts key sw of
        (Inl e, sw') \<Rightarrow> (Raises e, sw')
      | (Inr ok, sw') \<Rightarrow> (if \<not> ok then key_not_found key else Http 204 (PStr []), sw'))"

definition flask_health :: "rat \<Rightarrow> StorageNode \<Rightarrow> http" where
  "flask_health now s = Http 200 (health_body now s)"

section \<open>FastAPI\<close>

text \<open>The global \<open>_node\<close> is \<open>None\<close> outside the lifespan of the application.\<close>

definition node_or_503 :: "StorageNode option \<times> 'w \<Rightarrow> (StorageNode \<times> 'w \<Rightarrow> http \<times> StorageNode \<times> 'w)
    \<Rightarrow> http \<times> StorageNode option \<times> 'w" where
  "node_or_503 nw f =
     (case fst nw of
        None \<Rightarrow> (Http 503 (PStr ''node not ready''), None, snd nw)
      | Some s \<Rightarrow> (case f (s, snd nw) of (r, s', w') \<Rightarrow> (r, Some s', w')))"

definition fa_startup :: "'w pool_ops \<Rightarrow> resolver \<Rightarrow> unit res \<Rightarrow> start_event list \<Rightarrow> string \<Rightarrow> string \<Rightarrow> int \<Rightarrow> RendezvousRing
    \<Rightarrow> StorageNode option \<times> 'w \<Rightarrow> unit res \<times> StorageNode option \<times> 'w" where
  "fa_startup P R bind events local_host seed_addr dls_port ring nw =
     (case node_from_address seed_addr of
        Inl e \<Rightarrow> (Inl e, nw)
      | Inr sd \<Rightarrow>
         (case async_node_start P R bind events
                 (async_node_init local_host (GossipDiscovery sd []) None dls_port ring default_replication, snd nw) of
            (r, s, w') \<Rightarrow> (r, Some s, w')))"

definition fa_shutdown :: "'w pool_ops \<Rightarrow> nat list \<Rightarrow> StorageNode option \<times> 'w \<Rightarrow> unit res \<times> StorageNode option \<times> 'w" where
  "fa_shutdown P sched nw =
     (case fst nw of
        None \<Rightarrow> (Inl AttributeError, nw)
      | Some s \<Rightarrow> (case async_node_stop P sched (s, snd nw) of (s', w') \<Rightarrow> (Inr (), None, w')))"

definition fa_get_key :: "'w pool_ops \<Rightarrow> (string \<Rightarrow> byte list) \<Rightarrow> nat list \<Rightarrow> rat \<Rightarrow> string \<Rightarrow> StorageNode option \<times> 'w
    \<Rightarrow> http \<times> StorageNode option \<times> 'w" where
  "fa_get_key P sha sched now key nw = node_or_503 nw (\<lambda>sw.
     case async_node_get P sha (async_lww_read_resolve sched) now key sw of
       (value, sw') \<Rightarrow> (if value = PNone then key_not_found key else Http 200 value, sw'))"

definition fa_set_key :: "'w pool_ops \<Rightarrow> (string \<Rightarrow> byte list) \<Rightarrow> nat list \<Rightarrow> rat \<Rightarrow> int \<Rightarrow> int \<Rightarrow> string \<Rightarrow> pyval
    \<Rightarrow> StorageNode option \<times> 'w \<Rightarrow> http \<times> StorageNode option \<times> 'w" where
  "fa_set_key P sha sched now wall ts key value nw = node_or_503 nw (\<lambda>sw.
     case async_node_set P sha sched now wall ts key value None sw of
       (ok, sw') \<Rightarrow> (if \<not> ok then write_failed else Http 204 PNone, sw'))"

definition fa_delete_key :: "'w pool_ops \<Rightarrow> (string \<Rightarrow> byte list) \<Rightarrow> nat list \<Rightarrow> int \<Rightarrow> int \<Rightarrow> string
    \<Rightarrow> StorageNode option \<times> 'w \<Rightarrow> http \<times> StorageNode option \<times> 'w" where
  "fa_delete_key P sha sched wall ts key nw = node_or_503 nw (\<lambda>sw.
     case async_node_delete P sha sched wall ts key sw of
       (ok, sw') \<Rightarrow> (if \<not> ok then key_not_found key else Http 204 PNone, sw'))"

definition fa_health :: "rat \<Rightarrow> StorageNode option \<times> 'w \<Rightarrow> http \<times> StorageNode option \<times> 'w" where
  "fa_health now nw = node_or_503 nw (\<lambda>(s, w). (Http 200 (health_body now s), s, w))"

text \<open>The Docker example differs in its discovery, the A records of the service; its routes are the same.\<close>

definition app_startup :: "'w pool_ops \<Rightarrow> resolver \<Rightarrow> unit res \<Rightarrow> start_event list \<Rightarrow> string \<Rightarrow> string \<Rightarrow> int \<Rightarrow> RendezvousRing
    \<Rightarrow> StorageNode option \<times> 'w \<Rightarrow> unit res \<times> StorageNode option \<times> 'w" where
  "app_startup P R bind events local_host discovery_host dls_port ring nw =
     (case async_node_start P R bind events
             (async_node_init local_host (ARecordDiscovery discovery_host dls_port) None dls_port ring default_replication, snd nw) of
        (r, s, w') \<Rightarrow> (r, Some s, w'))"

definition app_shutdown :: "'w pool_ops \<Rightarrow> nat list \<Rightarrow> StorageNode option \<times> 'w \<Rightarrow> unit res \<times> StorageNode option \<times> 'w" where
  "app_shutdown = fa_shutdown"

definition app_get_key :: "'w pool_ops \<Rightarrow> (string \<Rightarrow> byte list) \<Rightarrow> nat list \<Rightarrow> rat \<Rightarrow> string \<Rightarrow> StorageNode option \<times> 'w
    \<Rightarrow> http \<times> StorageNode option \<times> 'w" where
  "app_get_key = fa_get_key"

definition app_set_key :: "'w pool_ops \<Rightarrow> (string \<Rightarrow> byte list) \<Rightarrow> nat list \<Rightarrow> rat \<Rightarrow> int \<Rightarrow> int \<Rightarrow> string \<Rightarrow> pyval
    \<Rightarrow> StorageNode option \<times> 'w \<Rightarrow> http \<times> StorageNode option \<times> 'w" where
  "app_set_key = fa_set_key"

definition app_delete_key :: "'w pool_ops \<Rightarrow> (string \<Rightarrow> byte list) \<Rightarrow> nat list \<Rightarrow> int \<Rightarrow> int \<Rightarrow> string
    \<Rightarrow> StorageNode option \<times> 'w \<Rightarrow> http \<times> StorageNode option \<times> 'w" where
  "app_delete_key = fa_delete_key"

definition app_health :: "rat \<Rightarrow> StorageNode option \<times> 'w \<Rightarrow> http \<times> StorageNode option \<times> 'w" where
  "app_health = fa_health"

section \<open>Properties\<close>

text \<open>C31.
  A value that a \<open>PUT\<close> at one Flask front end has stored is what a later \<open>GET\<close> returns with status 200, at
  any Flask, FastAPI or Docker front end whose node reaches a replica the write has reached: with the
  timestamp newer than what the replicas hold, whatever else fails on the way. The query value defaults to
  the empty string, which is stored and read back as such.
\<close>

theorem http_put_then_get:
  assumes "node_ok W a sa" and "node_ok W c sc"
    and "n0 \<in> set (replica_nodes sha key sa)" and "n0 \<in> set (replica_nodes sha key sc)"
    and "W n0 \<noteq> None" and "n0 = a \<or> e_link E a n0 \<noteq> Unreachable" and "n0 = c \<or> e_link E' c n0 = Up"
    and "\<forall>n s t. W n = Some s \<longrightarrow> lww_stamp (sn_store s) key = Some t \<longrightarrow> t < ts" and "0 \<le> ts"
    and "W1 = snd (at_node a (flask_set_key (cluster_pool E a) sha (e_now E a) (e_wall E a) ts key arg) W)"
    and "schedule (length (replica_nodes sha key sc)) sched"
  shows "let answer = Http 200 (PStr (case arg of None \<Rightarrow> [] | Some x \<Rightarrow> x))
    in fst (at_node c (flask_get_key (cluster_pool E' c) sha (e_now E' c) key) W1) = Some answer
      \<and> fst (fa_get_key (cluster_pool E' c) sha sched (e_now E' c) key (W1 c, W1(c := None))) = answer
      \<and> fst (app_get_key (cluster_pool E' c) sha sched (e_now E' c) key (W1 c, W1(c := None))) = answer"
proof -
  let ?v = "PStr (case arg of None \<Rightarrow> [] | Some x \<Rightarrow> x)"
  have "W1 = snd (cluster_set E sha a ts key ?v None W)"
    unfolding assms(10) cluster_set_def at_node_def flask_set_key_def
    by (auto simp: Let_def split: option.splits prod.splits sum.splits)
  from read_after_write [OF assms(1-9) this assms(11)]
  have get: "fst (cluster_get E' sha c key W1) = Some ?v" "fst (cluster_async_get E' sha sched c key W1) = Some ?v"
    by simp_all
  from get(1) obtain s where s: "W1 c = Some s" by (auto simp: cluster_get_def at_node_def split: option.splits)
  show ?thesis
    using get s
    by (auto simp: Let_def cluster_get_def cluster_async_get_def at_node_def flask_get_key_def fa_get_key_def
        app_get_key_def node_or_503_def split: prod.splits)
qed

text \<open>
  What a client learns from a \<open>PUT\<close> or a \<open>DELETE\<close>: the status says whether some replica acknowledged, and
  not what happened. The request takes effect on every replica it reaches in either case, so a \<open>PUT\<close>
  answered with 500 may have stored the value and a \<open>DELETE\<close> answered with 404 may have deleted it.
\<close>

theorem http_status_of_acknowledgements:
  assumes "node_ok W a s" and "replica_nodes sha key s \<noteq> []"
  shows "at_node a (flask_set_key (cluster_pool E a) sha (e_now E a) (e_wall E a) ts key (Some x)) W =
      (Some (if \<exists>n \<in> set (replica_nodes sha key s). set_ack E a key ts W n then Http 204 (PStr [])
             else Http 500 (PStr ''write failed on all replicas'')),
       upd_stores E a (set_effect E key (PStr x) None ts) (set (replica_nodes sha key s)) W)
    \<and> at_node a (flask_delete_key (cluster_pool E a) sha (e_wall E a) ts key) W =
      (Some (if \<exists>n \<in> set (replica_nodes sha key s). delete_ack E a key ts W n then Http 204 (PStr [])
             else key_not_found key),
       upd_stores E a (delete_effect E key ts) (set (replica_nodes sha key s)) W)"
proof -
  have w: "W a = Some s" using assms(1) by (simp add: node_ok_def)
  obtain r s1 w1 where set: "node_set (cluster_pool E a) sha (e_now E a) (e_wall E a) ts key (PStr x) None (s, W(a := None)) = (r, s1, w1)"
    by (metis prod.exhaust)
  obtain r' s2 w2 where del: "node_delete (cluster_pool E a) sha (e_wall E a) ts key (s, W(a := None)) = (r', s2, w2)"
    by (metis prod.exhaust)
  show ?thesis
    using cluster_set_eq [OF assms, of E ts "PStr x" None] cluster_delete_eq [OF assms, of E ts] w set del
    by (auto simp: cluster_set_def cluster_delete_def at_node_def flask_set_key_def flask_delete_key_def write_failed_def
        list_ex_iff)
qed

text \<open>
  A node of the Flask example that is its own seed is a member of its ring twice when the machine's
  host name does not resolve to the seed's host: as the seed \<open>127.0.0.1:7001\<close> and under its advertised
  address. Both names of the one server then fill the two replicas of every key.
\<close>

theorem example_node_has_two_names:
  assumes "flask_start P R (Inr ()) local_host ''127.0.0.1:7001'' 7001 rr_init w = (r, Some s, w')"
    and "local_host \<noteq> ''127.0.0.1''"
  shows "set (replica_nodes sha key s) = {\<lparr>host = ''127.0.0.1'', port = 7001\<rparr>, \<lparr>host = local_host, port = 7001\<rparr>}
    \<and> sn_info s = \<lparr>host = local_host, port = 7001\<rparr>"
proof -
  let ?a = "\<lparr>host = ''127.0.0.1'', port = 7001\<rparr>" and ?b = "\<lparr>host = local_host, port = 7001\<rparr>"
  have seed: "node_from_address ''127.0.0.1:7001'' = Inr ?a" by code_simp
  have s: "rr_nodes (sn_ring s) = [?a, ?b]" "sn_info s = ?b" "sn_replication s = 2"
    using assms unfolding flask_start_def seed
    by (auto simp: node_start_def node_bootstrap_def node_join_ring_def node_init_def rr_init_def rr_add_def
        default_replication_def split: prod.splits)
  then have wf: "rr_wf (sn_ring s)" using assms(2) by (simp add: rr_wf_def)
  let ?ns = "replica_nodes sha key s"
  have "set ?ns \<subseteq> {?a, ?b}" "distinct ?ns" "length ?ns = 2"
    using rr.get_nodes_members [of sha key 2 "sn_ring s"] rr.get_members_distinct [OF wf, of sha key 2]
      rr.get_nodes_length [of 2 sha key "sn_ring s"] s
    by (simp_all add: replica_nodes_def)
  moreover from this have "card (set ?ns) = card {?a, ?b}" using assms(2) by (simp add: distinct_card)
  ultimately have "set ?ns = {?a, ?b}" by (intro card_subset_eq) simp_all
  then show ?thesis using s(2) by simp
qed

section \<open>Witnesses\<close>

lemma http_put_then_get_witness:
  "fst (at_node (demo_node 2) (flask_get_key (cluster_pool (demo_env Up) (demo_node 2)) (\<lambda>s. []) 0 ''k'')
      (snd (at_node (demo_node 1) (flask_set_key (cluster_pool (demo_env Unreachable) (demo_node 1)) (\<lambda>s. []) 0 0 5 ''k'' None)
        demo_cluster))) = Some (Http 200 (PStr []))"
proof -
  note demo = demo_cluster_ok
  have mem: "demo_node 1 \<in> set (replica_nodes (\<lambda>s. []) ''k'' (demo_storage p))" for p by (simp add: demo(3))
  have stamps: "\<forall>n s t. demo_cluster n = Some s \<longrightarrow> lww_stamp (sn_store s) ''k'' = Some t \<longrightarrow> t < (5 :: int)"
    using demo(4) by auto
  have sched: "schedule (length (replica_nodes (\<lambda>s. []) ''k'' (demo_storage 2))) [0, 1]"
    by (auto simp: demo(3) schedule_def)
  have run: "demo_cluster (demo_node 1) \<noteq> None" by (simp add: demo_cluster_def)
  have up: "e_link (demo_env Up) (demo_node 2) (demo_node 1) = Up" by (simp add: demo_env_def)
  from http_put_then_get [OF demo(1,2) mem mem run disjI1 [OF refl] disjI2 [OF up] stamps _ refl sched,
      of None "demo_env Unreachable"]
  show ?thesis by (simp add: demo_env_def Let_def)
qed

text \<open>The reply of the other replica is lost and the first one rejects the write as stale.\<close>

lemma http_status_of_acknowledgements_witness:
  "fst (at_node (demo_node 1) (flask_delete_key (cluster_pool (demo_env ReplyLost) (demo_node 1)) (\<lambda>s. []) 0 5 ''k'') demo_cluster)
     = Some (key_not_found ''k'')"
proof -
  have "replica_nodes (\<lambda>s. []) ''k'' (demo_storage 1) \<noteq> []" by (simp add: demo_cluster_ok(3))
  from conjunct2 [OF http_status_of_acknowledgements [OF demo_cluster_ok(1) this, of "demo_env ReplyLost" 5 "[]"]]
  show ?thesis
    by (simp add: demo_cluster_ok(3) delete_ack_def demo_cluster_def demo_storage_def demo_env_def lww_delete_def
        lww_init_def dict_simps)
qed

lemma example_node_has_two_names_witness:
  "\<exists>s w'. flask_start idle_pool \<lparr>getaddrinfo = \<lambda>h p. Inr [], srv = \<lambda>_. Inr []\<rparr> (Inr ()) ''10.0.0.7'' ''127.0.0.1:7001'' 7001 rr_init ()
      = (Inr (), Some s, w')
    \<and> set (replica_nodes (\<lambda>s. []) ''k'' s) = {\<lparr>host = ''127.0.0.1'', port = 7001\<rparr>, \<lparr>host = ''10.0.0.7'', port = 7001\<rparr>}"
proof -
  let ?R = "\<lparr>getaddrinfo = \<lambda>h p. Inr [], srv = \<lambda>_. Inr []\<rparr>"
  have "node_from_address ''127.0.0.1:7001'' = Inr \<lparr>host = ''127.0.0.1'', port = 7001\<rparr>" by code_simp
  moreover have "broadcast_to idle_pool m ns () = (Inr (), ())" for m ns
    by (induction ns) (simp_all add: idle_pool_def)
  ultimately obtain s w' where start: "flask_start idle_pool ?R (Inr ()) ''10.0.0.7'' ''127.0.0.1:7001'' 7001 rr_init () = (Inr (), Some s, w')"
    by (simp add: flask_start_def node_start_def node_bootstrap_def node_init_def announce_join_def broadcast_def Let_def)
  from example_node_has_two_names [OF this, of "\<lambda>s. []" "''k''"] start show ?thesis by auto
qed

end
