(* ===== verification/Pool_Tasks.thy ===== *)
theory Pool_Tasks
  imports Async_Pool Pool_Shared
begin

text \<open>
  The asyncio pool (\<open>connection_pool/async_.py\<close>) with several coroutines in \<open>execute\<close> at once. The
  event loop switches between them only where they wait: for a new connection, for \<open>drain\<close>, and in
  \<open>readexactly\<close>, once for each piece of data that arrives. An await that has nothing to wait for is a
  resumption at once. \<open>close_peer\<close> and \<open>close_all\<close> never wait. A task may be cancelled while it
  waits; \<open>CancelledError\<close> is not an \<open>Exception\<close>, so none of the handlers of \<open>execute\<close> sees it. A timeout of
  \<open>wait_for\<close> is a \<open>Fault\<close> of the stream.
\<close>

section \<open>The parts between two waits\<close>

text \<open>What \<open>recv_message_async\<close> reads: the header, or a body of the length the header gave.\<close>

datatype stage = Header | Body nat

text \<open>
  The result in \<open>Sending\<close> is that of the write, which \<open>drain\<close> reports. The flag is \<open>reused\<close>.
\<close>

datatype task =
    Queued call
  | Opening call nat
  | Sending call nat nat bool "unit res"
  | Reading call nat nat bool stage
  | Returned "Message option"
  | Cancelled "nat option"

fun call_message :: "call \<Rightarrow> Message" where
  "call_message (Call h pt msg) = msg"

definition tk_queue :: "string \<Rightarrow> ThreadPool \<Rightarrow> nat \<times> ThreadPool" where
  "tk_queue a p = (case map_of (th_dict p) a of Some q \<Rightarrow> (q, p) | None \<Rightarrow> (th_next p, th_new a p))"

text \<open>The handlers: close the connection; a reused one is replaced once.\<close>

definition tk_fail :: "('n, 's) net_ops \<Rightarrow> call \<Rightarrow> nat \<Rightarrow> nat \<Rightarrow> bool \<Rightarrow> ThreadPool \<times> 'n \<Rightarrow> task \<times> ThreadPool \<times> 'n" where
  "tk_fail net c q s reused w =
     (if reused then Opening c q else Returned None, fst w, snd (n_close net s (snd w)))"

text \<open>\<open>send_message_async\<close>, to its \<open>drain\<close>.\<close>

definition tk_send :: "('n, 's) net_ops \<Rightarrow> (Message \<Rightarrow> byte list) \<Rightarrow> call \<Rightarrow> nat \<Rightarrow> nat \<Rightarrow> bool \<Rightarrow> ThreadPool \<times> 'n
    \<Rightarrow> task \<times> ThreadPool \<times> 'n" where
  "tk_send net dumps c q s reused w =
     (case send_message_async dumps (call_message c) of
        Inl e \<Rightarrow> tk_fail net c q s reused w
      | Inr bs \<Rightarrow> (case n_sendall net s bs (snd w) of (r, n1) \<Rightarrow> (Sending c q s reused r, fst w, n1)))"

text \<open>From the start of \<open>execute\<close> to its first wait: the queue, an idle connection, the request.\<close>

definition tk_begin :: "('n, 's) net_ops \<Rightarrow> (Message \<Rightarrow> byte list) \<Rightarrow> call \<Rightarrow> ThreadPool \<times> 'n \<Rightarrow> task \<times> ThreadPool \<times> 'n" where
  "tk_begin net dumps c w =
     (let (q, p) = tk_queue (call_address c) (fst w); (idle, xs) = ap_take net (th_heap p q) (snd w); p1 = th_set q xs p
      in case idle of
           Some s \<Rightarrow> tk_send net dumps c q s True (p1, snd w)
         | None \<Rightarrow> (Opening c q, p1, snd w))"

fun tk_open :: "('n, 's) net_ops \<Rightarrow> (Message \<Rightarrow> byte list) \<Rightarrow> call \<Rightarrow> nat \<Rightarrow> ThreadPool \<times> 'n \<Rightarrow> task \<times> ThreadPool \<times> 'n" where
  "tk_open net dumps (Call h pt msg) q (p, n) =
     (case n_connect net h pt n of
        (Inl e, n1) \<Rightarrow> (Returned None, p, n1)
      | (Inr s, n1) \<Rightarrow> tk_send net dumps (Call h pt msg) q s False (p, n1))"

text \<open>
  The end of an attempt, with the reply or the exception of reading it: the connection goes back to the queue
  object the call had looked up, or the call fails.
\<close>

definition tk_finish :: "('n, 's) net_ops \<Rightarrow> call \<Rightarrow> nat \<Rightarrow> nat \<Rightarrow> bool \<Rightarrow> Message res \<Rightarrow> ThreadPool \<times> 'n
    \<Rightarrow> task \<times> ThreadPool \<times> 'n" where
  "tk_finish net c q s reused r w =
     (case r of
        Inl e \<Rightarrow> tk_fail net c q s reused w
      | Inr response \<Rightarrow>
         if n_closing net s (snd w) then (Returned (Some response), w)
         else (case lifo_put (th_max (fst w)) s (th_heap (fst w) q) of
                 Some xs \<Rightarrow> (Returned (Some response), th_set q xs (fst w), snd w)
               | None \<Rightarrow> (Returned (Some response), fst w, snd (n_close net s (snd w)))))"

text \<open>As far as the bytes in the reader's buffer go: the message (or the exception of \<open>loads\<close>), or wait for more.\<close>

datatype scan = More stage | Got "Message res"

fun tk_scan :: "(byte list \<Rightarrow> Message res) \<Rightarrow> stage \<Rightarrow> byte list \<Rightarrow> scan \<times> byte list" where
  "tk_scan loads (Body k) buf =
     (if k \<le> length buf then (Got (loads (take k buf)), drop k buf) else (More (Body k), buf))"
| "tk_scan loads Header buf =
     (if HEADER_SIZE \<le> length buf
      then (let k = from_bytes_big (take HEADER_SIZE buf); rest = drop HEADER_SIZE buf
            in if k \<le> length rest then (Got (loads (take k rest)), drop k rest) else (More (Body k), rest))
      else (More Header, buf))"

definition tk_read :: "('n, byte list \<times> rx list) net_ops \<Rightarrow> (byte list \<Rightarrow> Message res) \<Rightarrow> call \<Rightarrow> nat \<Rightarrow> nat \<Rightarrow> bool
    \<Rightarrow> stage \<Rightarrow> ThreadPool \<times> 'n \<Rightarrow> task \<times> ThreadPool \<times> 'n" where
  "tk_read net loads c q s reused stage w =
     (case n_incoming net s (snd w) of
        (buf, st) \<Rightarrow>
         (case tk_scan loads stage buf of
            (More stage', buf') \<Rightarrow> (Reading c q s reused stage', fst w, n_advance net s (buf', st) (snd w))
          | (Got r, buf') \<Rightarrow> tk_finish net c q s reused r (fst w, n_advance net s (buf', st) (snd w))))"

text \<open>What wakes a reader: data, the end of the stream, or an exception set on it.\<close>

fun read_event :: "byte list \<times> rx list \<Rightarrow> unit res \<times> byte list \<times> rx list" where
  "read_event (buf, []) = (Inl IncompleteReadError, [], [])"
| "read_event (buf, Fault e # st) = (Inl e, buf, st)"
| "read_event (buf, Data bs # st) =
     (if bs = [] then (Inl IncompleteReadError, [], st) else (Inr (), buf @ bs, st))"

fun tk_resume :: "('n, byte list \<times> rx list) net_ops \<Rightarrow> (Message \<Rightarrow> byte list) \<Rightarrow> (byte list \<Rightarrow> Message res)
    \<Rightarrow> task \<Rightarrow> ThreadPool \<times> 'n \<Rightarrow> task \<times> ThreadPool \<times> 'n" where
  "tk_resume net dumps loads (Queued c) w = tk_begin net dumps c w"
| "tk_resume net dumps loads (Opening c q) w = tk_open net dumps c q w"
| "tk_resume net dumps loads (Sending c q s reused r) w =
     (case r of Inl e \<Rightarrow> tk_fail net c q s reused w | Inr _ \<Rightarrow> tk_read net loads c q s reused Header w)"
| "tk_resume net dumps loads (Reading c q s reused stage) w =
     (case read_event (n_incoming net s (snd w)) of
        (r, rd) \<Rightarrow>
         (let w1 = (fst w, n_advance net s rd (snd w))
          in case r of Inl e \<Rightarrow> tk_fail net c q s reused w1 | Inr _ \<Rightarrow> tk_read net loads c q s reused stage w1))"
| "tk_resume net dumps loads (Returned r) w = (Returned r, w)"
| "tk_resume net dumps loads (Cancelled s) w = (Cancelled s, w)"

text \<open>A cancelled task drops what it has; opening a connection that is not there yet leaves nothing behind.\<close>

fun tk_cancel :: "task \<Rightarrow> task" where
  "tk_cancel (Queued c) = Cancelled None"
| "tk_cancel (Opening c q) = Cancelled None"
| "tk_cancel (Sending c q s reused r) = Cancelled (Some s)"
| "tk_cancel (Reading c q s reused stage) = Cancelled (Some s)"
| "tk_cancel (Returned r) = Returned r"
| "tk_cancel (Cancelled s) = Cancelled s"

definition tk_drain :: "('n, 's) net_ops \<Rightarrow> nat \<Rightarrow> ThreadPool \<times> 'n \<Rightarrow> ThreadPool \<times> 'n" where
  "tk_drain net q w = (th_set q [] (fst w), ap_drain net (th_heap (fst w) q) (snd w))"

definition tk_close_peer :: "('n, 's) net_ops \<Rightarrow> string \<Rightarrow> int \<Rightarrow> ThreadPool \<times> 'n \<Rightarrow> ThreadPool \<times> 'n" where
  "tk_close_peer net h pt w =
     (case map_of (th_dict (fst w)) (peer_address h pt) of
        None \<Rightarrow> w
      | Some q \<Rightarrow> tk_drain net q ((fst w)\<lparr>th_dict := AList.delete (peer_address h pt) (th_dict (fst w))\<rparr>, snd w))"

definition tk_close_all :: "('n, 's) net_ops \<Rightarrow> ThreadPool \<times> 'n \<Rightarrow> ThreadPool \<times> 'n" where
  "tk_close_all net w =
     (case fold (tk_drain net) (map snd (th_dict (fst w))) w of (p, n) \<Rightarrow> (p\<lparr>th_dict := []\<rparr>, n))"

section \<open>Interleaving\<close>

fun running :: "task \<Rightarrow> bool" where
  "running (Returned r) = False"
| "running (Cancelled s) = False"
| "running _ = True"

inductive tk_move :: "('n, byte list \<times> rx list) net_ops \<Rightarrow> (Message \<Rightarrow> byte list) \<Rightarrow> (byte list \<Rightarrow> Message res)
    \<Rightarrow> (nat \<Rightarrow> task) \<times> ThreadPool \<times> 'n \<Rightarrow> (nat \<Rightarrow> task) \<times> ThreadPool \<times> 'n \<Rightarrow> bool" for net dumps loads where
  Create: "tasks t = Returned r \<Longrightarrow> tk_move net dumps loads (tasks, w) (tasks(t := Queued c), w)"
| Resume: "tk_resume net dumps loads (tasks t) w = (task', w') \<Longrightarrow> tk_move net dumps loads (tasks, w) (tasks(t := task'), w')"
| Cancel: "tk_move net dumps loads (tasks, w) (tasks(t := tk_cancel (tasks t)), w)"
| ClosePeer: "tk_move net dumps loads (tasks, w) (tasks, tk_close_peer net h pt w)"
| CloseAll: "tk_move net dumps loads (tasks, w) (tasks, tk_close_all net w)"
| Net: "n_made net n \<subseteq> n_made net n' \<Longrightarrow> n_open net n' \<subseteq> n_open net n \<Longrightarrow>
    tk_move net dumps loads (tasks, p, n) (tasks, p, n')"

abbreviation tk_moves where
  "tk_moves net dumps loads \<equiv> (tk_move net dumps loads)\<^sup>*\<^sup>*"

fun tk_held :: "task \<Rightarrow> nat set" where
  "tk_held (Sending c q s reused r) = {s}"
| "tk_held (Reading c q s reused stage) = {s}"
| "tk_held (Cancelled (Some s)) = {s}"
| "tk_held _ = {}"

definition tk_inv :: "('n, 's) net_ops \<Rightarrow> int \<Rightarrow> (nat \<Rightarrow> task) \<times> ThreadPool \<times> 'n \<Rightarrow> bool" where
  "tk_inv net mx w \<longleftrightarrow> (case w of (tasks, p, n) \<Rightarrow> shared_inv net mx (\<lambda>t. tk_held (tasks t)) p n)"

lemma tk_held_update: "(\<lambda>u. tk_held ((tasks(t := x)) u)) = (\<lambda>u. tk_held (tasks u))(t := tk_held x)"
  by (simp add: fun_eq_iff)

lemma tk_held_same: "tk_held x = tk_held (tasks t) \<Longrightarrow> (\<lambda>u. tk_held ((tasks(t := x)) u)) = (\<lambda>u. tk_held (tasks u))"
  by (simp add: fun_eq_iff)

lemma tk_held_cancel [simp]: "tk_held (tk_cancel x) = tk_held x"
  by (cases x rule: tk_cancel.cases) (auto split: option.splits elim: tk_held.elims)

section \<open>Accounting\<close>

text \<open>Each part, beside the connections \<open>K\<close> of the other tasks.\<close>

definition part_ok :: "('n, 's) net_ops \<Rightarrow> int \<Rightarrow> nat set \<Rightarrow> task \<times> ThreadPool \<times> 'n \<Rightarrow> bool" where
  "part_ok net mx K x \<longleftrightarrow> (case x of (t, p, n) \<Rightarrow>
     pool_inv net (queue_cap mx) (th_heap p) (tk_held t \<union> K) n \<and> tk_held t \<inter> K = {} \<and> th_max p = mx)"

lemma tk_fail_ok:
  assumes "pool_inv net (queue_cap mx) (th_heap p) (insert s K) n" and "th_max p = mx"
  shows "part_ok net mx K (tk_fail net c q s reused (p, n))"
proof -
  obtain r n1 where n1: "n_close net s n = (r, n1)" by fastforce
  show ?thesis using pool_inv_close [OF assms(1) n1] n1 assms(2) by (auto simp: part_ok_def tk_fail_def)
qed

lemma tk_send_ok:
  assumes "pool_inv net (queue_cap mx) (th_heap p) (insert s K) n" and "s \<notin> K" and "th_max p = mx"
  shows "part_ok net mx K (tk_send net dumps c q s reused (p, n))"
proof (cases "send_message_async dumps (call_message c)")
  case (Inl e)
  then show ?thesis using tk_fail_ok [OF assms(1,3)] by (simp add: tk_send_def)
next
  case (Inr bs)
  obtain r n1 where n1: "n_sendall net s bs n = (r, n1)" by fastforce
  show ?thesis
    using Inr n1 pool_inv_sendall [OF assms(1) n1] assms(2,3) by (simp add: tk_send_def part_ok_def)
qed

lemma tk_queue_simps:
  "tk_queue a p = (q, p1) \<Longrightarrow> th_heap p1 = th_heap p \<and> th_max p1 = th_max p \<and> map_of (th_dict p1) a = Some q"
  by (auto simp: tk_queue_def split: option.splits)

lemma tk_begin_ok:
  assumes "pool_inv net (queue_cap mx) (th_heap p) K n" and "th_max p = mx"
  shows "part_ok net mx K (tk_begin net dumps c (p, n))"
proof -
  obtain q p1 where p1: "tk_queue (call_address c) p = (q, p1)" by fastforce
  note p1_simps = tk_queue_simps [OF p1]
  obtain idle xs where take: "ap_take net (th_heap p q) n = (idle, xs)" by fastforce
  note after = ap_take_inv [OF assms(1) refl take]
  show ?thesis
  proof (cases idle)
    case None
    then show ?thesis using after take p1 p1_simps assms(2) by (simp add: tk_begin_def part_ok_def)
  next
    case (Some s)
    then have "part_ok net mx K (tk_send net dumps c q s True (th_set q xs p1, n))"
      using after p1_simps assms(2) by (intro tk_send_ok) simp_all
    then show ?thesis using Some take p1 p1_simps by (simp add: tk_begin_def)
  qed
qed

lemma tk_open_ok:
  assumes "pool_inv net (queue_cap mx) (th_heap p) K n" and "th_max p = mx"
  shows "part_ok net mx K (tk_open net dumps c q (p, n))"
proof -
  obtain h pt msg r n1 where c: "c = Call h pt msg" "n_connect net h pt n = (r, n1)"
    by (metis call.exhaust prod.exhaust)
  show ?thesis
  proof (cases r)
    case (Inl e)
    then show ?thesis using c pool_inv_refused [OF assms(1)] assms(2) by (simp add: part_ok_def)
  next
    case (Inr s)
    note new = pool_inv_connect [OF assms(1) c(2) [unfolded Inr]]
    then show ?thesis using c Inr tk_send_ok [OF new assms(2)] by simp
  qed
qed

lemma tk_finish_ok:
  assumes "pool_inv net (queue_cap mx) (th_heap p) (insert s K) n" and "s \<notin> K" and "th_max p = mx"
  shows "part_ok net mx K (tk_finish net c q s reused r (p, n))"
proof (cases r)
  case (Inl e)
  then show ?thesis using tk_fail_ok [OF assms(1,3)] by (simp add: tk_finish_def)
next
  case (Inr m)
  show ?thesis
  proof (cases "n_closing net s n")
    case True
    then show ?thesis
      using Inr assms(3) pool_inv_forget [OF assms(1) law_closing [OF pool_inv_laws [OF assms(1)] True]]
      by (simp add: tk_finish_def part_ok_def)
  next
    case live: False
    show ?thesis
    proof (cases "lifo_put (th_max p) s (th_heap p q)")
      case (Some xs)
      then show ?thesis
        using Inr live assms(2,3) lifo_put_fits [OF Some] pool_inv_put [OF assms(1,2), of q "[]" "th_heap p q"]
        by (simp add: tk_finish_def part_ok_def)
    next
      case None
      obtain u n2 where n2: "n_close net s n = (u, n2)" by fastforce
      then show ?thesis
        using Inr live assms(3) None pool_inv_close [OF assms(1) n2] by (simp add: tk_finish_def part_ok_def)
    qed
  qed
qed

lemma tk_read_ok:
  assumes "pool_inv net (queue_cap mx) (th_heap p) (insert s K) n" and "s \<notin> K" and "th_max p = mx"
  shows "part_ok net mx K (tk_read net loads c q s reused stage (p, n))"
proof -
  obtain buf st where rd: "n_incoming net s n = (buf, st)" by fastforce
  obtain x buf' where scan: "tk_scan loads stage buf = (x, buf')" by fastforce
  note inv = pool_inv_advance [OF assms(1), of s "(buf', st)"]
  show ?thesis
    using rd scan inv assms(2,3) tk_finish_ok [OF inv assms(2,3)] by (cases x) (simp_all add: tk_read_def part_ok_def)
qed

lemma tk_resume_ok:
  assumes "pool_inv net (queue_cap mx) (th_heap p) (tk_held t \<union> K) n" and "tk_held t \<inter> K = {}" and "th_max p = mx"
  shows "part_ok net mx K (tk_resume net dumps loads t (p, n))"
proof (cases t)
  case (Queued c)
  then show ?thesis using assms tk_begin_ok by simp
next
  case (Opening c q)
  then show ?thesis using assms tk_open_ok by simp
next
  case (Sending c q s reused r)
  then show ?thesis using assms tk_fail_ok tk_read_ok by (cases r) simp_all
next
  case (Reading c q s reused stage)
  obtain r rd where ev: "read_event (n_incoming net s n) = (r, rd)" by (metis prod.exhaust)
  have inv: "pool_inv net (queue_cap mx) (th_heap p) (insert s K) (n_advance net s rd n)"
    using pool_inv_advance assms(1) Reading by simp
  then show ?thesis
    using Reading ev assms(2,3) tk_fail_ok [OF inv] tk_read_ok [OF inv] by (cases r) simp_all
qed (use assms in \<open>simp_all add: part_ok_def\<close>)

lemma tk_drain_inv:
  assumes "shared_inv net mx H p n"
  shows "case tk_drain net q (p, n) of (p', n') \<Rightarrow> shared_inv net mx H p' n'"
proof -
  have inv: "pool_inv net (queue_cap mx) (th_heap p) (\<Union>t. H t) n" using assms by (simp add: shared_inv_def)
  have "pool_inv net (queue_cap mx) ((th_heap p)(q := [])) (set (th_heap p q) \<union> (\<Union>t. H t)) n"
    by (rule pool_inv_move [OF inv]) (auto simp: fits_def split: option.splits)
  from ap_drain_inv [OF this] show ?thesis using assms by (simp add: shared_inv_def tk_drain_def)
qed

lemma shared_inv_dict: "shared_inv net mx H (p\<lparr>th_dict := d\<rparr>) n = shared_inv net mx H p n"
  by (simp add: shared_inv_def)

lemma tk_close_peer_inv:
  assumes "shared_inv net mx H p n"
  shows "case tk_close_peer net h pt (p, n) of (p', n') \<Rightarrow> shared_inv net mx H p' n'"
  using assms tk_drain_inv [of net mx H "p\<lparr>th_dict := AList.delete (peer_address h pt) (th_dict p)\<rparr>" n]
  by (simp add: tk_close_peer_def shared_inv_dict split: option.split)

lemma tk_drains_inv:
  assumes "shared_inv net mx H p n"
  shows "case fold (tk_drain net) qs (p, n) of (p', n') \<Rightarrow> shared_inv net mx H p' n'"
  using assms
proof (induction qs arbitrary: p n)
  case (Cons q qs)
  then show ?case using tk_drain_inv [OF Cons.prems, of q] by (cases "tk_drain net q (p, n)") simp
qed simp

lemma tk_close_all_inv:
  assumes "shared_inv net mx H p n"
  shows "case tk_close_all net (p, n) of (p', n') \<Rightarrow> shared_inv net mx H p' n'"
  using tk_drains_inv [OF assms, of "map snd (th_dict p)"]
  by (simp add: tk_close_all_def shared_inv_dict split: prod.splits)

lemma tk_move_inv: "tk_move net dumps loads w w' \<Longrightarrow> tk_inv net mx w \<Longrightarrow> tk_inv net mx w'"
proof (induction rule: tk_move.induct)
  case (Create tasks t r w c)
  then show ?case using tk_held_same [of "Queued c" tasks t] by (simp add: tk_inv_def del: fun_upd_apply)
next
  case (Resume tasks t w task' w')
  obtain p n p' n' where w: "w = (p, n)" "w' = (p', n')" by (metis prod.exhaust)
  have inv: "shared_inv net mx (\<lambda>t. tk_held (tasks t)) p n" using Resume.prems w by (simp add: tk_inv_def)
  have "pool_inv net (queue_cap mx) (th_heap p') (tk_held task' \<union> K) n' \<and> tk_held task' \<inter> K = {} \<and> th_max p' = mx"
    if "pool_inv net (queue_cap mx) (th_heap p) (tk_held (tasks t) \<union> K) n" "tk_held (tasks t) \<inter> K = {}" "th_max p = mx" for K
    using tk_resume_ok [OF that, of dumps loads] Resume.hyps w by (simp add: part_ok_def)
  from shared_inv_step [OF inv this] show ?case using w by (simp add: tk_inv_def tk_held_update del: fun_upd_apply)
next
  case (Cancel tasks w t)
  then show ?case using tk_held_same [of "tk_cancel (tasks t)" tasks t] by (simp add: tk_inv_def del: fun_upd_apply)
next
  case (ClosePeer tasks w h pt)
  then show ?case using tk_close_peer_inv [of net mx _ "fst w" "snd w" h pt] by (auto simp: tk_inv_def split: prod.splits)
next
  case (CloseAll tasks w)
  then show ?case using tk_close_all_inv [of net mx _ "fst w" "snd w"] by (auto simp: tk_inv_def split: prod.splits)
next
  case (Net n n' tasks p)
  then show ?case by (auto simp: tk_inv_def intro: shared_inv_net)
qed

lemma tk_moves_inv: "tk_moves net dumps loads w w' \<Longrightarrow> tk_inv net mx w \<Longrightarrow> tk_inv net mx w'"
  by (induction rule: rtranclp_induct) (auto intro: tk_move_inv)

text \<open>C12.
  Whatever coroutines share an asyncio pool, and however their calls, cancellations, peer drops and
  \<open>close_all\<close> interleave with each other and with the network: no two tasks have the same connection, a
  connection a task has is in no queue, a queue holds it once and within its bound, no connection is in two
  queues, and every open connection is in a queue, in use by a running call, or was left behind by a
  cancelled one.
\<close>

theorem tasks_accounting:
  assumes "net_laws net" and "n_open net n0 = {}" and "0 < mx"
    and "tk_moves net dumps loads ((\<lambda>t. Returned None), th_init mx, n0) (tasks, p, n)"
  shows "(\<forall>t u. t \<noteq> u \<longrightarrow> tk_held (tasks t) \<inter> tk_held (tasks u) = {})
    \<and> (\<forall>t q. tk_held (tasks t) \<inter> set (th_heap p q) = {})
    \<and> (\<forall>q. distinct (th_heap p q) \<and> length (th_heap p q) \<le> nat mx)
    \<and> (\<forall>q q'. q \<noteq> q' \<longrightarrow> set (th_heap p q) \<inter> set (th_heap p q') = {})
    \<and> n_open net n \<subseteq> (\<Union>t. tk_held (tasks t)) \<union> (\<Union>q. set (th_heap p q))"
proof -
  have "tk_inv net mx ((\<lambda>t. Returned None), th_init mx, n0)"
    using shared_inv_init [OF assms(1,2)] by (simp add: tk_inv_def)
  from tk_moves_inv [OF assms(4) this] shared_inv_facts [OF _ assms(3)] show ?thesis
    by (simp only: tk_inv_def prod.case)
qed

section \<open>Cancellation\<close>

lemma tk_move_cancelled: "tk_move net dumps loads w w' \<Longrightarrow> fst w t = Cancelled x \<Longrightarrow> fst w' t = Cancelled x"
  by (induction rule: tk_move.induct) auto

lemma tk_moves_cancelled: "tk_moves net dumps loads w w' \<Longrightarrow> fst w t = Cancelled x \<Longrightarrow> fst w' t = Cancelled x"
  by (induction rule: rtranclp_induct) (auto intro: tk_move_cancelled)

lemma ap_drain_open: "closes_one net \<Longrightarrow> s \<notin> set xs \<Longrightarrow> s \<in> n_open net n \<Longrightarrow> s \<in> n_open net (ap_drain net xs n)"
proof (induction xs arbitrary: n)
  case (Cons x xs)
  then have "s \<in> n_open net (snd (n_close net x n))" by (auto simp: closes_one_def)
  then show ?case using Cons by (simp add: ap_drain_def)
qed (simp add: ap_drain_def)

lemma tk_drains_open:
  assumes "closes_one net"
  shows "\<forall>q. s \<notin> set (th_heap p q) \<Longrightarrow> s \<in> n_open net n \<Longrightarrow> s \<in> n_open net (snd (fold (tk_drain net) qs (p, n)))"
proof (induction qs arbitrary: p n)
  case (Cons q qs)
  have "\<forall>x. s \<notin> set (th_heap (th_set q [] p) x)" using Cons.prems by simp
  from Cons.IH [OF this ap_drain_open [OF assms]] Cons.prems show ?case by (simp add: tk_drain_def)
qed simp

text \<open>C38.
  A call that is cancelled while it has a connection, in \<open>drain\<close> or while it waits for its reply (as \<open>stop\<close>
  cancels the gossip task, with a round in progress), leaks its connection: after the \<open>close_all\<close> that follows, the connection is still open, and
  whatever happens later, no queue and no other call of the pool has it, so nothing in the package closes it.
  Hypotheses: the socket layer keeps its laws and closes only what it is told to. What Python's garbage
  collector does with the abandoned stream is outside.
\<close>

theorem cancelled_call_leaks:
  assumes "net_laws net" and "closes_one net" and "n_open net n0 = {}"
    and "tk_moves net dumps loads ((\<lambda>t. Returned None), th_init mx, n0) (tasks, p, n)"
    and "running (tasks t)" and "s \<in> tk_held (tasks t)" and "s \<in> n_open net n"
  shows "\<exists>tasks1 p1 n1. tk_moves net dumps loads (tasks, p, n) (tasks1, p1, n1)
    \<and> tasks1 = tasks(t := Cancelled (Some s)) \<and> (p1, n1) = tk_close_all net (p, n) \<and> s \<in> n_open net n1
    \<and> (\<forall>tasks2 p2 n2. tk_moves net dumps loads (tasks1, p1, n1) (tasks2, p2, n2) \<longrightarrow>
         (\<forall>q. s \<notin> set (th_heap p2 q)) \<and> (\<forall>u. u \<noteq> t \<longrightarrow> s \<notin> tk_held (tasks2 u)))"
proof -
  let ?tasks = "tasks(t := Cancelled (Some s))"
  obtain p1 n1 where p1: "tk_close_all net (p, n) = (p1, n1)" by fastforce
  have "tk_inv net mx ((\<lambda>t. Returned None), th_init mx, n0)"
    using shared_inv_init [OF assms(1,3)] by (simp add: tk_inv_def)
  from tk_moves_inv [OF assms(4) this] have inv: "tk_inv net mx (tasks, p, n)" .
  have lost: "(\<forall>q. s \<notin> set (th_heap p2 q)) \<and> (\<forall>u. u \<noteq> t \<longrightarrow> s \<notin> tk_held (tasks2 u))"
    if "tk_inv net mx (tasks2, p2, n2)" "s \<in> tk_held (tasks2 t)" for tasks2 p2 n2
  proof -
    have pool: "pool_inv net (queue_cap mx) (th_heap p2) (\<Union>t. tk_held (tasks2 t)) n2"
      and dis: "\<forall>t u. t \<noteq> u \<longrightarrow> tk_held (tasks2 t) \<inter> tk_held (tasks2 u) = {}"
      using that(1) by (simp_all add: tk_inv_def shared_inv_def)
    have "s \<notin> set (th_heap p2 q)" for q using pool_inv_queue [OF pool, of q] that(2) by blast
    then show ?thesis using dis that(2) by blast
  qed
  have "tk_cancel (tasks t) = Cancelled (Some s)" using assms(5,6) by (cases "tasks t") auto
  then have "tk_move net dumps loads (tasks, p, n) (?tasks, p, n)"
    using tk_move.Cancel [of net dumps loads tasks "(p, n)" t] by simp
  moreover have "tk_move net dumps loads (?tasks, p, n) (?tasks, p1, n1)"
    using tk_move.CloseAll [of net dumps loads ?tasks "(p, n)"] p1 by simp
  ultimately have moves: "tk_moves net dumps loads (tasks, p, n) (?tasks, p1, n1)"
    by (meson converse_rtranclp_into_rtranclp rtranclp.rtrancl_refl)
  have "s \<in> n_open net n1"
    using tk_drains_open [OF assms(2), of s p n "map snd (th_dict p)"] lost [OF inv assms(6)] assms(7) p1
    by (auto simp: tk_close_all_def split: prod.splits)
  moreover have "(\<forall>q. s \<notin> set (th_heap p2 q)) \<and> (\<forall>u. u \<noteq> t \<longrightarrow> s \<notin> tk_held (tasks2 u))"
    if "tk_moves net dumps loads (?tasks, p1, n1) (tasks2, p2, n2)" for tasks2 p2 n2
    using lost [OF tk_moves_inv [OF that tk_moves_inv [OF moves inv]]] tk_moves_cancelled [OF that, of t "Some s"] by simp
  ultimately show ?thesis using moves p1 by (intro exI [of _ ?tasks] exI [of _ p1] exI [of _ n1]) simp
qed

section \<open>Calls end\<close>

text \<open>
  How many resumptions a call needs at most. A reader that waits gets a byte with each, or fails; \<open>LENGTHS\<close> is
  the number of values the length prefix has.
\<close>

abbreviation LENGTHS :: nat where
  "LENGTHS \<equiv> 2 ^ 32"

fun read_rank :: "stage \<Rightarrow> nat \<Rightarrow> nat" where
  "read_rank Header m = LENGTHS + Suc (HEADER_SIZE - m)"
| "read_rank (Body k) m = Suc (k - m)"

fun tk_rank :: "('n, byte list \<times> rx list) net_ops \<Rightarrow> task \<Rightarrow> 'n \<Rightarrow> nat" where
  "tk_rank net (Queued c) n = 2 * LENGTHS + 14"
| "tk_rank net (Sending c q s reused r) n = LENGTHS + 6 + (if reused then LENGTHS + 7 else 0)"
| "tk_rank net (Reading c q s reused stage) n =
     read_rank stage (length (fst (n_incoming net s n))) + (if reused then LENGTHS + 7 else 0)"
| "tk_rank net (Opening c q) n = LENGTHS + 7"
| "tk_rank net _ n = 0"

lemma tk_fail_rank: "(case tk_fail net c q s reused w of (t, _, n) \<Rightarrow> tk_rank net t n) = (if reused then LENGTHS + 7 else 0)"
  by (simp add: tk_fail_def)

lemma tk_finish_rank:
  "(case tk_finish net c q s reused r w of (t, _, n) \<Rightarrow> tk_rank net t n) \<le> (if reused then LENGTHS + 7 else 0)"
  using tk_fail_rank [of net c q s reused w]
  by (cases w) (auto simp: tk_finish_def split: sum.split option.split)

text \<open>The bytes in the buffer have been scanned: what is left to wait for.\<close>

lemma tk_scan_rank:
  assumes "tk_scan loads stage buf = (More stage', buf')"
  shows "(stage' = stage \<and> buf' = buf \<and> (\<forall>k. stage = Body k \<longrightarrow> length buf < k)) \<or> read_rank stage' (length buf') \<le> LENGTHS"
proof (cases stage)
  case Header
  show ?thesis
  proof (cases "HEADER_SIZE \<le> length buf")
    case True
    have "from_bytes_big (take HEADER_SIZE buf) < 256 ^ HEADER_SIZE"
      using from_bytes_big_bound [of "take HEADER_SIZE buf"] True by simp
    then have "from_bytes_big (take HEADER_SIZE buf) < LENGTHS" by (simp add: HEADER_SIZE_def)
    then show ?thesis using assms Header True by (auto simp: Let_def split: if_splits)
  next
    case False
    then show ?thesis using assms Header by simp
  qed
next
  case (Body k)
  then show ?thesis using assms by (auto split: if_splits)
qed

lemma tk_read_rank:
  assumes "\<forall>s. reads_on net s" and "n_incoming net s n = (buf, st)"
    and "\<forall>stage' buf'. tk_scan loads stage buf = (More stage', buf') \<longrightarrow> read_rank stage' (length buf') \<le> r"
  shows "(case tk_read net loads c q s reused stage (p, n) of (t, _, n') \<Rightarrow> tk_rank net t n')
    \<le> r + (if reused then LENGTHS + 7 else 0)"
proof -
  obtain x buf' where scan: "tk_scan loads stage buf = (x, buf')" by fastforce
  have again: "n_incoming net s (n_advance net s (buf', st) n) = (buf', st)" using assms(1) by (simp add: reads_on_def)
  show ?thesis
  proof (cases x)
    case (More stage')
    then show ?thesis using scan assms(2,3) again by (simp add: tk_read_def)
  next
    case (Got m)
    then show ?thesis
      using scan assms(2) tk_finish_rank [of net c q s reused m "(p, n_advance net s (buf', st) n)"]
      by (simp add: tk_read_def)
  qed
qed

lemma tk_send_rank:
  "tk_send net dumps c q s reused w = (t, p, n) \<Longrightarrow> tk_rank net t n \<le> LENGTHS + 6 + (if reused then LENGTHS + 7 else 0)"
  using tk_fail_rank [of net c q s reused w] by (auto simp: tk_send_def split: sum.splits prod.splits)

lemma tk_resume_rank:
  assumes "\<forall>s. reads_on net s" and "running t" and "tk_resume net dumps loads t (p, n) = (t', p', n')"
  shows "tk_rank net t' n' < tk_rank net t n"
proof (cases t)
  case (Queued c)
  then show ?thesis
    using assms(3) by (auto simp: tk_begin_def Let_def dest: tk_send_rank split: prod.splits option.splits)
next
  case (Opening c q)
  obtain h pt msg where "c = Call h pt msg" by (cases c)
  then show ?thesis
    using assms(3) Opening by (auto dest: tk_send_rank split: prod.splits sum.splits)
next
  case (Sending c q s reused r)
  show ?thesis
  proof (cases r)
    case (Inl e)
    then show ?thesis using assms(3) Sending tk_fail_rank [of net c q s reused "(p, n)"] by simp
  next
    case (Inr u)
    obtain buf st where rd: "n_incoming net s n = (buf, st)" by fastforce
    have "\<forall>stage' buf'. tk_scan loads Header buf = (More stage', buf') \<longrightarrow> read_rank stage' (length buf') \<le> LENGTHS + 5"
      using tk_scan_rank [of loads Header buf] by (auto simp: HEADER_SIZE_def)
    from tk_read_rank [OF assms(1) rd this, of c q reused p] show ?thesis using assms(3) Sending Inr by simp
  qed
next
  case (Reading c q s reused stage)
  obtain buf st where rd: "n_incoming net s n = (buf, st)" by fastforce
  obtain r rd' where ev: "read_event (buf, st) = (r, rd')" by (metis prod.exhaust)
  show ?thesis
  proof (cases r)
    case (Inl e)
    then show ?thesis
      using assms(3) Reading rd ev tk_fail_rank [of net c q s reused "(p, n_advance net s rd' n)"]
      by (cases stage) simp_all
  next
    case (Inr u)
    obtain bs st' where data: "st = Data bs # st'" "bs \<noteq> []" "rd' = (buf @ bs, st')"
      using ev Inr by (cases "(buf, st)" rule: read_event.cases) (auto split: if_splits)
    have "n_incoming net s (n_advance net s rd' n) = (buf @ bs, st')" using assms(1) data(3) by (simp add: reads_on_def)
    moreover have "read_rank stage' (length buf') \<le> read_rank stage (length buf) - 1"
      if scan: "tk_scan loads stage (buf @ bs) = (More stage', buf')" for stage' buf'
    proof -
      have more: "length buf < length (buf @ bs)" using data(2) by (simp add: Suc_le_eq)
      consider "stage' = stage" "buf' = buf @ bs" "\<forall>k. stage = Body k \<longrightarrow> length (buf @ bs) < k"
          "stage = Header \<longrightarrow> length (buf @ bs) < HEADER_SIZE"
        | "stage = Header" "read_rank stage' (length buf') \<le> LENGTHS"
        using tk_scan_rank [OF scan] scan by (cases stage) (auto simp: Let_def split: if_splits)
      then show ?thesis
      proof cases
        case 1
        then show ?thesis using more
        proof (cases stage)
          case Header
          then have "length (buf @ bs) < HEADER_SIZE" using 1(4) by simp
          then show ?thesis unfolding 1(1,2) Header read_rank.simps using more by linarith
        next
          case (Body k)
          then have "length (buf @ bs) < k" using 1(3) by simp
          then show ?thesis unfolding 1(1,2) Body read_rank.simps using more by linarith
        qed
      next
        case 2
        then show ?thesis by simp
      qed
    qed
    ultimately have "tk_rank net t' n' \<le> read_rank stage (length buf) - 1 + (if reused then LENGTHS + 7 else 0)"
      using tk_read_rank [OF assms(1), of s "n_advance net s rd' n" "buf @ bs" st' loads stage
          "read_rank stage (length buf) - 1" c q reused p] assms(3) Reading rd ev Inr by simp
    moreover have "0 < read_rank stage (length buf)" by (cases stage) simp_all
    ultimately show ?thesis using Reading rd by simp
  qed
qed (use assms in simp_all)

lemma tk_resume_not_cancelled:
  assumes "\<forall>x. t \<noteq> Cancelled x" and "tk_resume net dumps loads t w = (t', w')"
  shows "t' \<noteq> Cancelled y"
proof -
  have fail: "fst (tk_fail net c q s b v) \<noteq> Cancelled y" for c q s b v by (simp add: tk_fail_def)
  have send: "fst (tk_send net dumps c q s b v) \<noteq> Cancelled y" for c q s b v
    using fail by (auto simp: tk_send_def split: sum.split prod.split)
  have "fst (tk_finish net c q s b r v) \<noteq> Cancelled y" for c q s b r v
    using fail by (auto simp: tk_finish_def split: sum.split option.split)
  then have "fst (tk_read net loads c q s b stage v) \<noteq> Cancelled y" for c q s b stage v
    by (auto simp: tk_read_def split: prod.split scan.split)
  moreover have "fst (tk_open net dumps c q v) \<noteq> Cancelled y" for c q v
    using send by (cases c; cases v) (auto split: sum.split prod.split)
  moreover have "fst (tk_begin net dumps c v) \<noteq> Cancelled y" for c v
    using send by (auto simp: tk_begin_def Let_def split: prod.split option.split)
  ultimately have "fst (tk_resume net dumps loads t w) \<noteq> Cancelled y"
    using assms(1) fail by (cases t) (auto simp: Let_def split: sum.split prod.split)
  then show ?thesis using assms(2) by simp
qed

text \<open>C35.
  A call of the asyncio pool that is not cancelled returns, a response or \<open>None\<close>, and never raises; the number
  of its resumptions is bounded by the bytes the length prefix can announce: it makes at most two attempts, and
  in each it waits once for \<open>drain\<close> and then once for each piece of data, with at least a byte in
  each, until it has the message or the stream ends or fails. This holds whatever the other
  coroutines, the pool and the network do between two resumptions; only the bytes in the buffer of a
  connection that the call itself has are left alone.
\<close>

theorem tasks_end:
  assumes "\<forall>s. reads_on net s" and "fst (f 0) = Queued c"
    and "\<forall>i. \<exists>w. tk_resume net dumps loads (fst (f i)) (snd (f i)) = (fst (f (Suc i)), w)
      \<and> (\<forall>s \<in> tk_held (fst (f (Suc i))).
           fst (n_incoming net s (snd (snd (f (Suc i))))) = fst (n_incoming net s (snd w)))"
  shows "\<exists>r. fst (f (2 * 2 ^ 32 + 14)) = Returned r"
proof -
  let ?rank = "\<lambda>i. tk_rank net (fst (f i)) (snd (snd (f i)))"
  have step: "?rank (Suc i) < ?rank i" if "running (fst (f i))" for i
  proof -
    obtain w where w: "tk_resume net dumps loads (fst (f i)) (snd (f i)) = (fst (f (Suc i)), w)"
      and kept: "\<forall>s \<in> tk_held (fst (f (Suc i))). fst (n_incoming net s (snd (snd (f (Suc i))))) = fst (n_incoming net s (snd w))"
      using assms(3) by blast
    have "tk_rank net (fst (f (Suc i))) (snd w) < ?rank i"
      using tk_resume_rank [OF assms(1) that, of dumps loads "fst (snd (f i))" "snd (snd (f i))" _ "fst w" "snd w"] w by simp
    moreover have "?rank (Suc i) = tk_rank net (fst (f (Suc i))) (snd w)"
      using kept by (cases "fst (f (Suc i))") simp_all
    ultimately show ?thesis by simp
  qed
  have "?rank i + i \<le> ?rank 0 \<or> \<not> running (fst (f i))" for i
  proof (induction i)
    case (Suc i)
    have "\<not> running (fst (f (Suc i)))" if "\<not> running (fst (f i))"
    proof -
      obtain w where "tk_resume net dumps loads (fst (f i)) (snd (f i)) = (fst (f (Suc i)), w)" using assms(3) by blast
      then show ?thesis using that by (cases "fst (f i)") auto
    qed
    then show ?case using Suc.IH step [of i] by linarith
  qed simp
  from this [of "2 * 2 ^ 32 + 14"] have "\<not> running (fst (f (2 * 2 ^ 32 + 14)))"
    using assms(2) step [of "2 * 2 ^ 32 + 14"] by (cases "running (fst (f (2 * 2 ^ 32 + 14)))") auto
  moreover have "fst (f i) \<noteq> Cancelled x" for i x
  proof (induction i arbitrary: x)
    case (Suc i)
    then show ?case using assms(3) tk_resume_not_cancelled [of "fst (f i)" net dumps loads "snd (f i)"] by blast
  qed (simp add: assms(2))
  ultimately show ?thesis by (cases "fst (f (2 * 2 ^ 32 + 14))") auto
qed

section \<open>A call on its own\<close>

fun tk_run :: "('n, byte list \<times> rx list) net_ops \<Rightarrow> (Message \<Rightarrow> byte list) \<Rightarrow> (byte list \<Rightarrow> Message res)
    \<Rightarrow> nat \<Rightarrow> task \<times> ThreadPool \<times> 'n \<Rightarrow> task \<times> ThreadPool \<times> 'n" where
  "tk_run net dumps loads 0 x = x"
| "tk_run net dumps loads (Suc k) (t, w) = tk_run net dumps loads k (tk_resume net dumps loads t w)"

lemma tk_run_add: "tk_run net dumps loads (j + k) x = tk_run net dumps loads k (tk_run net dumps loads j x)"
proof (induction j arbitrary: x)
  case (Suc j)
  then show ?case by (cases x) simp
qed simp

lemma tk_run_moves:
  "tk_run net dumps loads k (tasks t, w) = (x, w') \<Longrightarrow> tk_moves net dumps loads (tasks, w) (tasks(t := x), w')"
proof (induction k arbitrary: tasks w)
  case 0
  then show ?case by (metis fun_upd_triv prod.inject rtranclp.rtrancl_refl tk_run.simps(1))
next
  case (Suc k)
  obtain t1 w1 where step: "tk_resume net dumps loads (tasks t) w = (t1, w1)" by (rule prod.exhaust)
  then have "tk_move net dumps loads (tasks, w) (tasks(t := t1), w1)" by (rule tk_move.Resume)
  moreover have "tk_moves net dumps loads (tasks(t := t1), w1) (tasks(t := t1, t := x), w')"
    using Suc.prems step by (intro Suc.IH) simp
  ultimately show ?case by (simp only: fun_upd_upd)
qed

text \<open>The pool as \<open>Async_Pool\<close> has it.\<close>

definition whole :: "ThreadPool \<Rightarrow> AsyncPool" where
  "whole p = \<lparr>ap_max = th_max p, ap_queues = stored p\<rparr>"

lemma whole_sel [simp]: "ap_max (whole p) = th_max p" "ap_queues (whole p) = stored p"
  by (simp_all add: whole_def)

lemma whole_new: "map_of (th_dict p) a = None \<Longrightarrow> th_wf p \<Longrightarrow> whole (th_new a p) = ap_queue a (whole p)"
  by (simp add: whole_def ap_queue_def map_of_stored stored_new)

lemma whole_set: "map_of (th_dict p) a = Some q \<Longrightarrow> th_wf p \<Longrightarrow> whole (th_set q xs p) = ap_put a xs (whole p)"
  by (simp add: whole_def ap_put_def stored_set)

text \<open>
  The socket layer of a call that runs alone: a reader has next what the last read has left, and only that.
\<close>

definition steady :: "('n, 's) net_ops \<Rightarrow> bool" where
  "steady net \<longleftrightarrow> (\<forall>s. reads_on net s) \<and> (\<forall>s x y n. n_advance net s y (n_advance net s x n) = n_advance net s y n)"

lemma steadyD:
  assumes "steady net"
  shows "n_incoming net s (n_advance net s x n) = x" "n_advance net s y (n_advance net s x n) = n_advance net s y n"
  using assms unfolding steady_def reads_on_def by blast+

text \<open>Reading from a stage on, at one go.\<close>

definition read_on :: "(byte list \<Rightarrow> Message res) \<Rightarrow> stage \<Rightarrow> byte list \<times> rx list \<Rightarrow> Message res \<times> byte list \<times> rx list" where
  "read_on loads stage rd =
     (case stage of
        Header \<Rightarrow> recv_message_async loads rd
      | Body k \<Rightarrow> (case readexactly k rd of (Inl e, rd') \<Rightarrow> (Inl e, rd') | (Inr d, rd') \<Rightarrow> (loads d, rd')))"

fun wanted :: "stage \<Rightarrow> nat" where
  "wanted Header = HEADER_SIZE"
| "wanted (Body k) = k"

lemma readexactly_ready: "n \<le> length buf \<Longrightarrow> readexactly n (buf, st) = (Inr (take n buf), drop n buf, st)"
  by (cases "(n, buf, st)" rule: readexactly.cases) auto

lemma read_on_header:
  "HEADER_SIZE \<le> length buf \<Longrightarrow>
     read_on loads Header (buf, st) = read_on loads (Body (from_bytes_big (take HEADER_SIZE buf))) (drop HEADER_SIZE buf, st)"
  by (simp add: read_on_def recv_message_async_def recv_message_with_def readexactly_ready split: prod.split sum.split)

lemma read_on_body: "k \<le> length buf \<Longrightarrow> read_on loads (Body k) (buf, st) = (loads (take k buf), drop k buf, st)"
  by (simp add: read_on_def readexactly_ready)

lemma read_on_scan:
  "tk_scan loads stage buf = (Got r, buf') \<Longrightarrow> read_on loads stage (buf, st) = (r, buf', st)"
  "tk_scan loads stage buf = (More stage', buf') \<Longrightarrow>
     read_on loads stage (buf, st) = read_on loads stage' (buf', st) \<and> length buf' < wanted stage'"
  by (cases stage; auto simp: read_on_header read_on_body Let_def not_le split: if_splits)+

lemma read_on_event:
  assumes "length buf < wanted stage"
  shows "read_on loads stage (buf, st) =
    (case read_event (buf, st) of (Inl e, rd) \<Rightarrow> (Inl e, rd) | (Inr _, rd) \<Rightarrow> read_on loads stage rd)"
  using assms
  by (cases stage; cases "(buf, st)" rule: read_event.cases)
    (auto simp: read_on_def recv_message_async_def recv_message_with_def)

lemma read_whole:
  assumes "steady net"
  shows "n_incoming net s n = (buf, st) \<Longrightarrow> read_on loads stage (buf, st) = (r, rd) \<Longrightarrow>
    \<exists>k. tk_run net dumps loads k (tk_read net loads c q s b stage (p, n)) = tk_finish net c q s b r (p, n_advance net s rd n)"
proof (induction st arbitrary: n buf stage)
  case Nil
  obtain x buf' where scan: "tk_scan loads stage buf = (x, buf')" by fastforce
  show ?case
  proof (cases x)
    case (Got m)
    then show ?thesis using Nil scan read_on_scan(1) by (intro exI [of _ 0]) (simp add: tk_read_def)
  next
    case (More stage')
    have "n_incoming net s (n_advance net s (buf', []) n) = (buf', [])"
      "n_advance net s rd (n_advance net s (buf', []) n) = n_advance net s rd n"
      by (simp_all add: steadyD [OF assms])
    moreover have "(r, rd) = (Inl IncompleteReadError, [], [])"
      using Nil(2) More scan read_on_scan(2) [of loads stage buf stage' buf' "[]"] read_on_event [of buf' stage' loads "[]"] by simp
    ultimately show ?thesis using Nil(1) More scan
      by (intro exI [of _ 1]) (simp add: tk_read_def tk_finish_def)
  qed
next
  case (Cons y st)
  obtain x buf' where scan: "tk_scan loads stage buf = (x, buf')" by fastforce
  show ?case
  proof (cases x)
    case (Got m)
    then show ?thesis using Cons.prems scan read_on_scan(1) by (intro exI [of _ 0]) (simp add: tk_read_def)
  next
    case (More stage')
    let ?n1 = "n_advance net s (buf', y # st) n"
    have n1: "n_incoming net s ?n1 = (buf', y # st)" "n_advance net s z ?n1 = n_advance net s z n" for z
      by (simp_all add: steadyD [OF assms])
    have read: "tk_read net loads c q s b stage (p, n) = (Reading c q s b stage', p, ?n1)"
      using Cons.prems(1) More scan by (simp add: tk_read_def)
    obtain u rd' where ev: "read_event (buf', y # st) = (u, rd')" by (metis prod.exhaust)
    have rest: "(case u of Inl e \<Rightarrow> (Inl e, rd') | Inr _ \<Rightarrow> read_on loads stage' rd') = (r, rd)"
      using Cons.prems(2) More scan ev read_on_scan(2) [of loads stage buf stage' buf' "y # st"]
        read_on_event [of buf' stage' loads "y # st"] by simp
    show ?thesis
    proof (cases u)
      case (Inl e)
      then have "r = Inl e \<and> rd = rd'" using rest by simp
      then show ?thesis using read n1 ev Inl by (intro exI [of _ 1]) (simp add: tk_finish_def)
    next
      case (Inr v)
      then obtain buf2 where rd': "rd' = (buf2, st)"
        using ev by (cases "(buf', y # st)" rule: read_event.cases) (auto split: if_splits)
      have "n_incoming net s (n_advance net s rd' n) = (buf2, st)"
        by (simp add: rd' steadyD [OF assms])
      from Cons.IH [OF this] rest Inr rd' obtain k where
        "tk_run net dumps loads k (tk_read net loads c q s b stage' (p, n_advance net s rd' n)) =
          tk_finish net c q s b r (p, n_advance net s rd (n_advance net s rd' n))" by auto
      moreover have "n_advance net s rd (n_advance net s rd' n) = n_advance net s rd n"
        by (simp add: steadyD [OF assms])
      ultimately show ?thesis using read n1 ev Inr by (intro exI [of _ "Suc k"]) simp
    qed
  qed
qed

lemma attempt_whole:
  assumes "steady net" and "th_wf p" and "map_of (th_dict p) (peer_address h pt) = Some q"
    and "ap_attempt net dumps loads (peer_address h pt) s msg (whole p, n) = (r, w1)"
  shows "\<exists>k p1 n1. w1 = (whole p1, n1) \<and> th_wf p1 \<and> th_dict p1 = th_dict p
    \<and> tk_run net dumps loads k (tk_send net dumps (Call h pt msg) q s b (p, n)) =
        (case r of Inl e \<Rightarrow> tk_fail net (Call h pt msg) q s b (p1, n1) | Inr m \<Rightarrow> (Returned (Some m), p1, n1))"
proof -
  let ?c = "Call h pt msg"
  have ok: ?thesis if "w1 = (whole p1, n1)" "th_wf p1" "th_dict p1 = th_dict p"
    "tk_run net dumps loads k (tk_send net dumps ?c q s b (p, n)) =
        (case r of Inl e \<Rightarrow> tk_fail net ?c q s b (p1, n1) | Inr m \<Rightarrow> (Returned (Some m), p1, n1))" for k p1 n1
    using that by blast
  show ?thesis
  proof (cases "send_message_async dumps msg")
    case (Inl e)
    then show ?thesis using assms by (intro ok [of p n 0]) (auto simp: ap_attempt_def tk_send_def)
  next
    case bytes: (Inr bs)
    obtain u n1 where n1: "n_sendall net s bs n = (u, n1)" by fastforce
    show ?thesis
    proof (cases u)
      case (Inl e)
      then show ?thesis using assms bytes n1 by (intro ok [of p n1 1]) (auto simp: ap_attempt_def tk_send_def)
    next
      case sent: (Inr v)
      obtain buf st where rd: "n_incoming net s n1 = (buf, st)" by fastforce
      obtain x rd' where x: "recv_message_async loads (buf, st) = (x, rd')" by (metis prod.exhaust)
      let ?n2 = "n_advance net s rd' n1"
      have "read_on loads Header (buf, st) = (x, rd')" using x by (simp add: read_on_def)
      from read_whole [OF assms(1) rd this, of dumps ?c q b p] obtain k where
        "tk_run net dumps loads k (tk_read net loads ?c q s b Header (p, n1)) = tk_finish net ?c q s b x (p, ?n2)" by blast
      then have run: "tk_run net dumps loads (Suc k) (tk_send net dumps ?c q s b (p, n)) = tk_finish net ?c q s b x (p, ?n2)"
        using bytes n1 sent by (simp add: tk_send_def)
      show ?thesis
      proof (cases x)
        case (Inl e)
        then show ?thesis using assms bytes n1 sent rd x run
          by (intro ok [of p ?n2 "Suc k"]) (auto simp: ap_attempt_def tk_finish_def simp del: tk_run.simps)
      next
        case (Inr m)
        show ?thesis
        proof (cases "n_closing net s ?n2 \<or> lifo_put (th_max p) s (th_heap p q) = None")
          case True
          then show ?thesis
            using assms bytes n1 sent rd x run Inr
            by (intro ok [of p "if n_closing net s ?n2 then ?n2 else snd (n_close net s ?n2)" "Suc k"])
              (auto simp: ap_attempt_def tk_finish_def q_of_stored simp del: tk_run.simps split: if_splits)
        next
          case False
          then obtain xs where xs: "lifo_put (th_max p) s (th_heap p q) = Some xs" by auto
          have "w1 = (whole (th_set q xs p), ?n2)" "r = Inr m"
            using assms bytes n1 sent rd x Inr False xs
            by (simp_all add: ap_attempt_def q_of_stored whole_set)
          then show ?thesis
            using run Inr False xs th_wf_set [OF assms(2) th_wf_known [OF assms(2,3)]]
            by (intro ok [of "th_set q xs p" ?n2 "Suc k"]) (simp_all add: tk_finish_def del: tk_run.simps)
        qed
      qed
    qed
  qed
qed

lemma first_whole:
  assumes "steady net" and "th_wf p" and "map_of (th_dict p) (peer_address h pt) = Some q"
    and "ap_first net dumps loads h pt msg b s (whole p, n) = (r, w1)"
  shows "\<exists>k p1 n1. w1 = (whole p1, n1) \<and> th_wf p1
    \<and> tk_run net dumps loads k (tk_send net dumps (Call h pt msg) q s b (p, n)) = (Returned r, p1, n1)"
proof -
  let ?c = "Call h pt msg" and ?run = "tk_run net dumps loads"
  obtain r1 v1 where v1: "ap_attempt net dumps loads (peer_address h pt) s msg (whole p, n) = (r1, v1)"
    by (rule prod.exhaust)
  from attempt_whole [OF assms(1-3) this, of b] obtain k p1 n1 where one: "v1 = (whole p1, n1)" "th_wf p1"
    "th_dict p1 = th_dict p" "?run k (tk_send net dumps ?c q s b (p, n)) =
      (case r1 of Inl e \<Rightarrow> tk_fail net ?c q s b (p1, n1) | Inr m \<Rightarrow> (Returned (Some m), p1, n1))" by blast
  show ?thesis
  proof (cases r1)
    case (Inr m)
    then show ?thesis using one v1 assms(4) by (auto simp: ap_first_def)
  next
    case (Inl e)
    let ?n2 = "snd (n_close net s n1)"
    show ?thesis
    proof (cases b)
      case False
      then have "r = None \<and> w1 = (whole p1, ?n2)" using one v1 Inl assms(4) by (auto simp: ap_first_def)
      then show ?thesis using one Inl False by (auto simp: tk_fail_def)
    next
      case True
      obtain x n3 where x: "n_connect net h pt ?n2 = (x, n3)" by fastforce
      have opens: "?run (k + 1) (tk_send net dumps ?c q s b (p, n)) =
          (case x of Inl e \<Rightarrow> (Returned None, p1, n3) | Inr s2 \<Rightarrow> tk_send net dumps ?c q s2 False (p1, n3))"
        using one(4) Inl True x by (simp only: tk_run_add) (simp add: tk_fail_def split: sum.split)
      show ?thesis
      proof (cases x)
        case (Inl e2)
        then have "r = None \<and> w1 = (whole p1, n3)"
          using one v1 \<open>r1 = Inl e\<close> True x assms(4) by (auto simp: ap_first_def)
        then show ?thesis using opens Inl one(2) by auto
      next
        case (Inr s2)
        obtain r4 v4 where v4: "ap_attempt net dumps loads (peer_address h pt) s2 msg (whole p1, n3) = (r4, v4)"
          by (rule prod.exhaust)
        from attempt_whole [OF assms(1) one(2) _ this, of q False] assms(3) one(3) obtain k4 p4 n4 where
          two: "v4 = (whole p4, n4)" "th_wf p4" "?run k4 (tk_send net dumps ?c q s2 False (p1, n3)) =
            (case r4 of Inl e \<Rightarrow> tk_fail net ?c q s2 False (p4, n4) | Inr m \<Rightarrow> (Returned (Some m), p4, n4))" by auto
        have "?run (k + 1 + k4) (tk_send net dumps ?c q s b (p, n)) =
            (case r4 of Inl e \<Rightarrow> (Returned None, p4, snd (n_close net s2 n4)) | Inr m \<Rightarrow> (Returned (Some m), p4, n4))"
          unfolding tk_run_add [of net dumps loads "k + 1" k4] opens
          using Inr two(3) by (simp add: tk_fail_def split: sum.split)
        moreover have "(r, w1) = (case r4 of Inl e \<Rightarrow> (None, whole p4, snd (n_close net s2 n4)) | Inr m \<Rightarrow> (Some m, whole p4, n4))"
          using one v1 Inr \<open>r1 = Inl e\<close> True x assms(4) v4 two by (simp add: ap_first_def split: sum.splits)
        ultimately show ?thesis using two(2) by (cases r4; simp only: sum.case prod.inject) blast+
      qed
    qed
  qed
qed

lemma tk_queue_whole:
  assumes "th_wf p" and "tk_queue a p = (q, p1)"
  shows "th_wf p1 \<and> map_of (th_dict p1) a = Some q \<and> whole p1 = ap_queue a (whole p)"
proof (cases "map_of (th_dict p) a")
  case None
  then show ?thesis using assms th_wf_new whole_new by (auto simp: tk_queue_def)
next
  case (Some x)
  then show ?thesis using assms by (auto simp: tk_queue_def ap_queue_def map_of_stored)
qed

lemma execute_whole:
  assumes "steady net" and "th_wf p" and "ap_execute net dumps loads h pt msg (whole p, n) = (r, w1)"
  shows "\<exists>k p1 n1. w1 = (whole p1, n1) \<and> th_wf p1
    \<and> tk_run net dumps loads k (Queued (Call h pt msg), p, n) = (Returned r, p1, n1)"
proof -
  let ?a = "peer_address h pt" and ?c = "Call h pt msg" and ?run = "tk_run net dumps loads"
  obtain q p0 where p0: "tk_queue ?a p = (q, p0)" by fastforce
  note look = tk_queue_whole [OF assms(2) p0]
  obtain idle xs where take: "ap_take net (th_heap p0 q) n = (idle, xs)" by fastforce
  let ?p = "th_set q xs p0"
  have wf: "th_wf ?p" "map_of (th_dict ?p) ?a = Some q" "whole ?p = ap_put ?a xs (ap_queue ?a (whole p))"
    using look th_wf_set [of p0 q xs] th_wf_known [of p0 ?a q] whole_set [of p0 ?a q xs] by simp_all
  have heap: "q_of (ap_queues (ap_queue ?a (whole p))) ?a = th_heap p0 q"
    using look q_of_stored [of p0 ?a q] by (metis whole_sel(2))
  have "th_heap p0 = th_heap p" using tk_queue_simps [OF p0] by simp
  then have begin_c: "?run 1 (Queued ?c, p, n) =
      (case idle of Some s \<Rightarrow> tk_send net dumps ?c q s True (?p, n) | None \<Rightarrow> (Opening ?c q, ?p, n))"
    using p0 take by (simp add: tk_begin_def split: option.split)
  show ?thesis
  proof (cases idle)
    case (Some s)
    have "ap_first net dumps loads h pt msg True s (whole ?p, n) = (r, w1)"
      using assms(3) heap take Some wf(3) by (simp add: ap_execute_def Let_def)
    from first_whole [OF assms(1) wf(1,2) this] obtain j p1 n1 where rest: "w1 = (whole p1, n1)" "th_wf p1"
      "?run j (tk_send net dumps ?c q s True (?p, n)) = (Returned r, p1, n1)" by blast
    then have "?run (1 + j) (Queued ?c, p, n) = (Returned r, p1, n1)"
      using begin_c Some by (simp only: tk_run_add) simp
    then show ?thesis using rest by blast
  next
    case None
    obtain x n2 where x: "n_connect net h pt n = (x, n2)" by fastforce
    have two: "?run (1 + 1) (Queued ?c, p, n) =
        (case x of Inl e \<Rightarrow> (Returned None, ?p, n2) | Inr s \<Rightarrow> tk_send net dumps ?c q s False (?p, n2))"
      using begin_c None x by (simp only: tk_run_add) (simp split: sum.split)
    show ?thesis
    proof (cases x)
      case (Inl e)
      then have "r = None \<and> w1 = (whole ?p, n2)"
        using assms(3) heap take None wf(3) x by (auto simp: ap_execute_def Let_def)
      moreover have "?run 2 (Queued ?c, p, n) = (Returned None, ?p, n2)"
        using two Inl by (simp add: numeral_2_eq_2)
      ultimately show ?thesis using wf(1) by blast
    next
      case (Inr s)
      have "ap_first net dumps loads h pt msg False s (whole ?p, n2) = (r, w1)"
        using assms(3) heap take None wf(3) x Inr by (simp add: ap_execute_def Let_def)
      from first_whole [OF assms(1) wf(1,2) this] obtain j p1 n1 where rest: "w1 = (whole p1, n1)" "th_wf p1"
        "?run j (tk_send net dumps ?c q s False (?p, n2)) = (Returned r, p1, n1)" by blast
      then have "?run (1 + 1 + j) (Queued ?c, p, n) = (Returned r, p1, n1)"
        unfolding tk_run_add [of net dumps loads "1 + 1" j] two using Inr by simp
      then show ?thesis using rest by blast
    qed
  qed
qed

text \<open>
  A call that no other coroutine disturbs runs exactly as the single-caller model of the asyncio pool says:
  it returns the same response and leaves the same queues and the same network. Hypothesis: between its
  resumptions its connections receive nothing but what the stream says.
\<close>

theorem task_alone:
  assumes "steady net" and "th_wf p" and "tasks t = Queued (Call h pt msg)"
    and "ap_execute net dumps loads h pt msg (whole p, n) = (r, w1)"
  shows "\<exists>p1 n1. w1 = (whole p1, n1) \<and> th_wf p1
    \<and> tk_moves net dumps loads (tasks, p, n) (tasks(t := Returned r), p1, n1)"
  using execute_whole [OF assms(1,2,4)] tk_run_moves [of net dumps loads _ tasks t, unfolded assms(3)] by blast

section \<open>Witnesses\<close>

definition demo_task :: call where
  "demo_task = Call ''a'' 1 (message PING PNone)"

lemma async_sends: "send_message_async toy_dumps (message PING PNone) = Inr [0, 0, 0, 1, 7]"
  using toy_sends(1) by (simp add: send_message_def send_message_async_def to_bytes_big_def Let_def)

text \<open>A call that has sent its request and waits for the header of the reply.\<close>

abbreviation demo_reading :: task where
  "demo_reading \<equiv> Reading demo_task 0 1 False Header"

lemma demo_waits:
  "\<exists>p. tk_moves silent_streams toy_dumps toy_loads ((\<lambda>t. Returned None), th_init 1, (0, []))
      ((\<lambda>t. Returned None)(0 := demo_reading), p, (1, [1]))"
proof -
  let ?tasks = "(\<lambda>t. Returned None)(0 := Queued demo_task)" and ?p = "th_init 1"
  have "tk_move silent_streams toy_dumps toy_loads ((\<lambda>t. Returned None), ?p, (0, [])) (?tasks, ?p, (0, []))"
    by (rule tk_move.Create) simp
  moreover have "tk_run silent_streams toy_dumps toy_loads 3 (Queued demo_task, ?p, (0, [])) =
      (demo_reading, th_set 0 [] (th_new (peer_address ''a'' 1) ?p), (1, [1]))"
    by (simp add: eval_nat_numeral tk_begin_def tk_queue_def th_init_def demo_task_def tk_send_def tk_read_def
        demo_net_def async_sends header_size_Suc)
  then have "tk_moves silent_streams toy_dumps toy_loads (?tasks, ?p, (0, []))
      (?tasks(0 := demo_reading), th_set 0 [] (th_new (peer_address ''a'' 1) ?p), (1, [1]))"
    by (intro tk_run_moves [of _ _ _ 3]) simp
  ultimately show ?thesis by (auto intro: converse_rtranclp_into_rtranclp)
qed

lemma tasks_accounting_witness:
  "\<exists>p. tk_moves silent_streams toy_dumps toy_loads ((\<lambda>t. Returned None), th_init 1, (0, []))
      ((\<lambda>t. Returned None)(0 := demo_reading), p, (1, [1])) \<and> (\<forall>q. 1 \<notin> set (th_heap p q))"
proof -
  let ?tasks = "(\<lambda>t. Returned None)(0 := demo_reading)"
  obtain p where p: "tk_moves silent_streams toy_dumps toy_loads ((\<lambda>t. Returned None), th_init 1, (0, []))
      (?tasks, p, (1, [1]))" using demo_waits by blast
  note tasks_accounting [OF demo_net_laws(1,3) zero_less_one p]
  then have "tk_held (?tasks (0::nat)) \<inter> set (th_heap p q) = {}" for q by blast
  then have "\<forall>q. 1 \<notin> set (th_heap p q)" by simp
  with p show ?thesis by (intro exI conjI)
qed

lemma cancelled_call_leaks_witness:
  "\<exists>p p1 n1. tk_moves silent_streams toy_dumps toy_loads
      ((\<lambda>t. Returned None)(0 := demo_reading), p, (1, [1]))
      ((\<lambda>t. Returned None)(0 := demo_reading, 0 := Cancelled (Some 1)), p1, n1)
    \<and> (p1, n1) = tk_close_all silent_streams (p, (1, [1])) \<and> 1 \<in> n_open silent_streams n1"
proof -
  obtain p where p: "tk_moves silent_streams toy_dumps toy_loads ((\<lambda>t. Returned None), th_init 1, (0, []))
      ((\<lambda>t. Returned None)(0 := demo_reading), p, (1, [1]))" using demo_waits by blast
  have one: "closes_one silent_streams" by (auto simp: closes_one_def demo_net_def)
  have wait: "running (((\<lambda>t. Returned None)(0 := demo_reading)) 0)" "1 \<in> tk_held (((\<lambda>t. Returned None)(0 := demo_reading)) 0)"
    "1 \<in> n_open silent_streams (1, [1])" by (simp_all add: demo_net_def)
  from cancelled_call_leaks [where t = 0, OF demo_net_laws(1) one demo_net_laws(3) p wait] show ?thesis by blast
qed

text \<open>A stream of a reply that arrives in three pieces.\<close>

definition piece_net :: "(nat \<Rightarrow> byte list \<times> rx list, byte list \<times> rx list) net_ops" where
  "piece_net =
     \<lparr>n_connect = (\<lambda>h p n. (Inr 1, n)), n_sendall = (\<lambda>s bs n. (Inr (), n)), n_incoming = (\<lambda>s n. n s),
      n_advance = (\<lambda>s st n. n(s := st)), n_close = (\<lambda>s n. (Inr (), n)), n_closing = (\<lambda>s n. False),
      n_made = (\<lambda>n. UNIV), n_open = (\<lambda>n. UNIV)\<rparr>"

definition pieces :: "nat \<Rightarrow> byte list \<times> rx list" where
  "pieces = (\<lambda>s. ([], [Data [0, 0], Data [0, 2, 9], Data [9]]))"

lemma piece_net_steady: "steady piece_net"
  by (simp add: steady_def reads_on_def piece_net_def)

lemma task_alone_witness:
  "\<exists>r p n. tk_moves piece_net toy_dumps toy_loads ((\<lambda>t. Returned None)(0 := Queued demo_task), th_init 1, pieces)
      ((\<lambda>t. Returned None)(0 := Queued demo_task, 0 := Returned r), p, n)"
proof -
  obtain r w where w: "ap_execute piece_net toy_dumps toy_loads ''a'' 1 (message PING PNone) (whole (th_init 1), pieces) = (r, w)"
    by (rule prod.exhaust)
  have "((\<lambda>t. Returned None)(0 := Queued demo_task)) 0 = Queued (Call ''a'' 1 (message PING PNone))"
    by (simp add: demo_task_def)
  from task_alone [where p = "th_init 1" and t = 0 and tasks = "(\<lambda>t. Returned None)(0 := Queued demo_task)",
      OF piece_net_steady th_wf_init this w] show ?thesis by blast
qed

lemma two_bytes: "from_bytes_big [0, 0, 0, 2] = 2"
  by code_simp

text \<open>The call is resumed six times: to start, with the connection, after \<open>drain\<close>, and for each piece.\<close>

lemma tasks_end_witness:
  "\<exists>f. f 0 = (Queued demo_task, th_init 1, pieces) \<and> (\<forall>i. f (Suc i) = tk_resume piece_net toy_dumps toy_loads (fst (f i)) (snd (f i)))
    \<and> fst (f 6) = Returned (Some (message OK PNone)) \<and> (\<exists>r. fst (f (2 * 2 ^ 32 + 14)) = Returned r)"
proof -
  let ?step = "\<lambda>x. tk_resume piece_net toy_dumps toy_loads (fst x) (snd x)"
  let ?f = "\<lambda>i. (?step ^^ i) (Queued demo_task, th_init 1, pieces)"
  have "\<exists>r. fst (?f (2 * 2 ^ 32 + 14)) = Returned r"
  proof (rule tasks_end)
    show "\<forall>s. reads_on piece_net s" using piece_net_steady by (simp add: steady_def)
    show "fst (?f 0) = Queued demo_task" by simp
    show "\<forall>i. \<exists>w. tk_resume piece_net toy_dumps toy_loads (fst (?f i)) (snd (?f i)) = (fst (?f (Suc i)), w)
        \<and> (\<forall>s \<in> tk_held (fst (?f (Suc i))).
             fst (n_incoming piece_net s (snd (snd (?f (Suc i))))) = fst (n_incoming piece_net s (snd w)))"
    proof
      fix i
      show "\<exists>w. tk_resume piece_net toy_dumps toy_loads (fst (?f i)) (snd (?f i)) = (fst (?f (Suc i)), w)
        \<and> (\<forall>s \<in> tk_held (fst (?f (Suc i))).
             fst (n_incoming piece_net s (snd (snd (?f (Suc i))))) = fst (n_incoming piece_net s (snd w)))"
        by (intro exI [of _ "snd (?f (Suc i))"]) simp
    qed
  qed
  moreover have "fst (?f 6) = Returned (Some (message OK PNone))"
    by (simp add: eval_nat_numeral tk_begin_def tk_queue_def th_init_def demo_task_def tk_send_def tk_read_def tk_finish_def
        piece_net_def pieces_def async_sends header_size_Suc two_bytes toy_loads_def lifo_put_def)
  ultimately show ?thesis by (intro exI [of _ ?f]) simp
qed

end
