(* ===== verification/Cluster_Store.thy ===== *)
theory Cluster_Store
  imports Cluster Store_Refinement
begin

text \<open>
  A cluster whose links are up, whose nodes agree on the replicas of each key and share a clock is one
  \<open>LocalStore\<close>: whichever node a client talks to, blocking or asyncio, \<open>get\<close>, \<open>set\<close> and \<open>delete\<close> answer
  what the plain store of \<open>store/basic.py\<close> would. \<open>Store_Refinement\<close> says so of a single store; here
  are the handles, the messages and the resolution of the replicas in between.
\<close>

section \<open>Reads and deletes of both kinds of node\<close>

definition cluster_async_delete where
  "cluster_async_delete E sha sched a ts key W =
     at_node a (async_node_delete (cluster_pool E a) sha sched (e_wall E a) ts key) W"

lemma run_each_collect:
  "run_each (map (\<lambda>h. h key) hs) w = (Inr rs, w') \<Longrightarrow> lww_collect key hs w = (rs, w')"
  by (induction hs arbitrary: w rs w') (auto split: sum.splits prod.splits)

lemma visible_local: "W n = W' n \<Longrightarrow> visible E a key W n = visible E a key W' n"
  by (simp add: visible_def)

lemma replica_call_get:
  "replica_call E a (\<lambda>n. handle_get_versioned (cluster_pool E a) (e_now E a) (handle_for a n) key)
     (get_effect E key) (\<lambda>W n. Inr (visible E a key W n))"
  unfolding replica_call_def using read_replica visible_local by blast

lemma replica_call_guarded:
  "replica_call E a (\<lambda>n. async_guard key (handle_get_versioned (cluster_pool E a) (e_now E a) (handle_for a n)))
     (get_effect E key) (\<lambda>W n. Inr (visible E a key W n))"
  unfolding replica_call_def
proof (intro conjI allI impI)
  fix s :: StorageNode and w :: cluster and n assume "sn_info s = a" and "w a = None"
  with read_replica [of s a w E n key] show "\<exists>s' w'.
      async_guard key (handle_get_versioned (cluster_pool E a) (e_now E a) (handle_for a n)) (s, w) =
        (Inr (visible E a key (w(a \<mapsto> s)) n), s', w')
      \<and> sn_gossip s' = sn_gossip s \<and> w' a = None \<and> w'(a \<mapsto> s') = upd_stores E a (get_effect E key) {n} (w(a \<mapsto> s))"
    by (auto simp: async_guard_def)
qed (use visible_local in blast)

lemma cluster_get_eq:
  assumes "node_ok W a s" and "replica_nodes sha key s \<noteq> []"
  shows "cluster_get E sha a key W =
    (Some (lww_answer (map (visible E a key W) (replica_nodes sha key s))),
     upd_stores E a (get_effect E key) (set (replica_nodes sha key s)) W)"
proof -
  have w: "W a = Some s" "sn_info s = a" using node_okD [OF assms(1)] by auto
  let ?hs = "map (handle_get_versioned (cluster_pool E a) (e_now E a)) (map (handle_for a) (replica_nodes sha key s))"
  obtain s' w' where run: "run_each (map (\<lambda>n. handle_get_versioned (cluster_pool E a) (e_now E a) (handle_for a n) key)
      (replica_nodes sha key s)) (s, W(a := None))
      = (Inr (map (visible E a key W) (replica_nodes sha key s)), s', w')"
      "w'(a \<mapsto> s') = upd_stores E a (get_effect E key) (set (replica_nodes sha key s)) W"
    using run_each_replicas [OF replica_call_get [of E a key] replica_nodes_distinct [OF assms(1), of sha key] w(2), of "W(a := None)"]
      restore_node [of W a s] w(1) by (auto simp del: fun_upd_apply simp add: fun_upd_same)
  have "lww_collect key ?hs (s, W(a := None)) = (map (visible E a key W) (replica_nodes sha key s), s', w')"
    by (rule run_each_collect) (use run(1) in \<open>simp add: comp_def\<close>)
  then show ?thesis using w assms(2) run(2)
    by (simp add: cluster_get_def at_node_def node_get_def lww_read_resolve_def make_handles_for comp_def)
qed

lemma cluster_async_get_eq:
  assumes "node_ok W a s" and "replica_nodes sha key s \<noteq> []" and "schedule (length (replica_nodes sha key s)) sched"
  shows "cluster_async_get E sha sched a key W = cluster_get E sha a key W"
proof -
  have w: "W a = Some s" "sn_info s = a" using node_okD [OF assms(1)] by auto
  obtain s' w' where run: "gather sched (map (\<lambda>n. async_guard key (handle_get_versioned (cluster_pool E a) (e_now E a) (handle_for a n)))
      (replica_nodes sha key s)) (s, W(a := None))
      = (map (\<lambda>n. Some (Inr (visible E a key W n))) (replica_nodes sha key s), s', w')"
      "w'(a \<mapsto> s') = upd_stores E a (get_effect E key) (set (replica_nodes sha key s)) W"
    using gather_replicas [OF replica_call_guarded [of E a key] replica_nodes_distinct [OF assms(1), of sha key] w(2) _ assms(3), of "W(a := None)"]
      restore_node [of W a s] w(1) by (auto simp del: fun_upd_apply simp add: fun_upd_same)
  then show ?thesis using w assms(2)
    by (simp add: cluster_get_eq [OF assms(1,2)] cluster_async_get_def at_node_def async_node_get_def
        async_lww_read_resolve_def async_make_handles_def async_handle_get_versioned_def make_handles_for comp_def)
qed

lemma cluster_async_delete_eq:
  assumes "node_ok W a s" and "replica_nodes sha key s \<noteq> []" and "schedule (length (replica_nodes sha key s)) sched"
  shows "cluster_async_delete E sha sched a ts key W =
    (Some (list_ex (delete_ack E a key ts W) (replica_nodes sha key s)),
     upd_stores E a (delete_effect E key ts) (set (replica_nodes sha key s)) W)"
proof -
  have w: "W a = Some s" "sn_info s = a" using node_okD [OF assms(1)] by auto
  obtain s' w' where "gather sched (map (\<lambda>n. handle_delete (cluster_pool E a) (e_wall E a) (handle_for a n) key ts)
      (replica_nodes sha key s)) (s, W(a := None))
      = (map (\<lambda>n. Some (Inr (delete_ack E a key ts W n))) (replica_nodes sha key s), s', w')"
      "w'(a \<mapsto> s') = upd_stores E a (delete_effect E key ts) (set (replica_nodes sha key s)) W"
    using gather_replicas [OF replica_call_delete [of E a key ts] replica_nodes_distinct [OF assms(1), of sha key] w(2) _ assms(3), of "W(a := None)"]
      restore_node [of W a s] w(1) by (auto simp del: fun_upd_apply simp add: fun_upd_same)
  then show ?thesis using w assms(2)
    by (simp add: cluster_async_delete_def at_node_def async_node_delete_def async_make_handles_def async_handle_delete_def
        make_handles_for comp_def any_true_acks)
qed

section \<open>Requests of clients\<close>

text \<open>
  A request: the clocks and links at the time, the node the client calls and its kind (an asyncio node
  with the completion order of its calls, or a blocking one), the \<open>time_ns\<close> the node reads, the call.
\<close>

record request =
  rq_env :: env
  rq_node :: NodeInfo
  rq_async :: "nat list option"
  rq_ts :: int
  rq_call :: store_call

fun call_key :: "store_call \<Rightarrow> string option" where
  "call_key (CSet k v ttl) = Some k"
| "call_key (CGet k) = Some k"
| "call_key (CDelete k) = Some k"
| "call_key _ = None"

fun answer :: "('r \<Rightarrow> store_answer) \<Rightarrow> 'r option \<times> cluster \<Rightarrow> store_answer \<times> cluster" where
  "answer f (None, W) = (ANone, W)"
| "answer f (Some r, W) = (f r, W)"

fun bool_answer :: "bool res \<Rightarrow> store_answer" where
  "bool_answer (Inl e) = ARaise e"
| "bool_answer (Inr b) = ABool b"

definition cluster_call :: "(string \<Rightarrow> byte list) \<Rightarrow> request \<Rightarrow> cluster \<Rightarrow> store_answer \<times> cluster" where
  "cluster_call sha r W =
     (let E = rq_env r; a = rq_node r; ts = rq_ts r
      in case (rq_call r, rq_async r) of
           (CSet k v ttl, None) \<Rightarrow> answer bool_answer (cluster_set E sha a ts k v ttl W)
         | (CSet k v ttl, Some sched) \<Rightarrow> answer ABool (cluster_async_set E sha sched a ts k v ttl W)
         | (CGet k, None) \<Rightarrow> answer AVal (cluster_get E sha a k W)
         | (CGet k, Some sched) \<Rightarrow> answer AVal (cluster_async_get E sha sched a k W)
         | (CDelete k, None) \<Rightarrow> answer bool_answer (cluster_delete E sha a ts k W)
         | (CDelete k, Some sched) \<Rightarrow> answer ABool (cluster_async_delete E sha sched a ts k W)
         | _ \<Rightarrow> (ANone, W))"

fun run_requests :: "(string \<Rightarrow> byte list) \<Rightarrow> request list \<Rightarrow> cluster \<Rightarrow> store_answer list \<times> cluster" where
  "run_requests sha [] W = ([], W)"
| "run_requests sha (r # rs) W =
     (case cluster_call sha r W of (x, W1) \<Rightarrow> case run_requests sha rs W1 of (xs, W2) \<Rightarrow> (x # xs, W2))"

text \<open>The nodes that run agree on the replicas of every key, and those run.\<close>

definition agreed :: "(string \<Rightarrow> byte list) \<Rightarrow> (string \<Rightarrow> NodeInfo list) \<Rightarrow> cluster \<Rightarrow> bool" where
  "agreed sha reps W \<longleftrightarrow>
     (\<forall>a s. W a = Some s \<longrightarrow> node_ok W a s \<and> (\<forall>k. replica_nodes sha k s = reps k))
     \<and> (\<forall>k. reps k \<noteq> [] \<and> (\<forall>n \<in> set (reps k). W n \<noteq> None))"

text \<open>All links are up and all monotonic clocks show the same time.\<close>

definition healthy :: "env \<Rightarrow> bool" where
  "healthy E \<longleftrightarrow> (\<forall>a b. e_link E a b = Up \<and> e_now E a = e_now E b)"

definition request_ok :: "(string \<Rightarrow> NodeInfo list) \<Rightarrow> cluster \<Rightarrow> request \<Rightarrow> bool" where
  "request_ok reps W r \<longleftrightarrow> healthy (rq_env r) \<and> W (rq_node r) \<noteq> None
     \<and> (\<exists>k. call_key (rq_call r) = Some k \<and> (\<forall>sched. rq_async r = Some sched \<longrightarrow> schedule (length (reps k)) sched))"

section \<open>The cluster as one store\<close>

definition one_store :: "(string \<Rightarrow> byte list) \<Rightarrow> (string \<Rightarrow> NodeInfo list) \<Rightarrow> int \<Rightarrow> cluster \<Rightarrow> LocalStore \<Rightarrow> bool" where
  "one_store sha reps latest W l \<longleftrightarrow> agreed sha reps W
     \<and> (\<forall>k. \<forall>n \<in> set (reps k). \<forall>s. W n = Some s \<longrightarrow> live_entry (sn_store s) k = map_of (ls_data l) k)
     \<and> (\<forall>n s k t. W n = Some s \<longrightarrow> lww_stamp (sn_store s) k = Some t \<longrightarrow> 0 \<le> t \<and> t \<le> latest)"

lemma live_entry_set:
  "live_entry (snd (lww_set now wall k v ttl (Some ts) s)) k' =
     (if k' = k \<and> supersedes (lww_stamp s k) ts then Some (v, expiry now ttl) else live_entry s k')"
  by (auto simp: live_entry_def lww_set_def lww_stamp_def supersedes_def write_ts_def Let_def dict_simps split: option.split)

lemma live_entry_delete:
  "live_entry (snd (lww_delete wall k (Some ts) s)) k' =
     (if k' = k \<and> supersedes (lww_stamp s k) ts then None else live_entry s k')"
  by (simp add: live_entry_def lww_delete_lookup supersedes_def write_ts_def Let_def)

lemma live_entry_get:
  "live_entry (snd (lww_get_versioned now k s)) k' =
     (if k' = k \<and> (case live_entry s k of Some (v, e) \<Rightarrow> overdue now e | None \<Rightarrow> False) then None else live_entry s k')"
  by (auto simp: live_entry_def lww_get_versioned_state dict_simps split: option.split slot.split)

lemma version_live:
  "lww_version now s k = Some (v, t, False) \<longleftrightarrow> lww_stamp s k = Some t \<and> (\<exists>e. live_entry s k = Some (v, e) \<and> \<not> overdue now e)"
  by (auto simp: lww_version_def lww_stamp_def live_entry_def split: option.splits slot.splits if_splits)

lemma agreedD:
  assumes "agreed sha reps W" and "W a = Some s"
  shows "node_ok W a s" "replica_nodes sha k s = reps k" "reps k \<noteq> []"
  using assms by (auto simp: agreed_def)

lemma agreed_upd: "agreed sha reps W \<Longrightarrow> agreed sha reps (upd_stores E a F N W)"
  unfolding agreed_def by (auto simp: upd_stores_def node_ok_def replica_nodes_def)

lemma one_store_upd:
  assumes "one_store sha reps latest W l" and "healthy E" and "latest \<le> latest'"
    and "map_of (ls_data l') = (map_of (ls_data l))(k := X)"
    and "\<And>n s k'. n \<in> set (reps k) \<Longrightarrow> W n = Some s \<Longrightarrow>
      live_entry (F n (sn_store s)) k' = (if k' = k then X else live_entry (sn_store s) k')"
    and "\<And>n s k' t. W n = Some s \<Longrightarrow> lww_stamp (F n (sn_store s)) k' = Some t \<Longrightarrow> 0 \<le> t \<and> t \<le> latest'"
  shows "one_store sha reps latest' (upd_stores E a F (set (reps k)) W) l'"
  unfolding one_store_def
proof (intro conjI allI ballI impI)
  have ag: "agreed sha reps W" and live: "\<And>k n s. n \<in> set (reps k) \<Longrightarrow> W n = Some s \<Longrightarrow> live_entry (sn_store s) k = map_of (ls_data l) k"
    and stamps: "\<And>n s k t. W n = Some s \<Longrightarrow> lww_stamp (sn_store s) k = Some t \<Longrightarrow> 0 \<le> t \<and> t \<le> latest"
    using assms(1) unfolding one_store_def by blast+
  show "agreed sha reps (upd_stores E a F (set (reps k)) W)" using ag by (rule agreed_upd)
  have new: "upd_stores E a F (set (reps k)) W n =
      (if n \<in> set (reps k) then map_option (\<lambda>s. s\<lparr>sn_store := F n (sn_store s)\<rparr>) (W n) else W n)" for n
    using assms(2) by (simp add: upd_stores_def healthy_def)
  fix n s
  assume n: "upd_stores E a F (set (reps k)) W n = Some s"
  then obtain s0 where s0: "W n = Some s0" "sn_store s = (if n \<in> set (reps k) then F n (sn_store s0) else sn_store s0)"
    unfolding new by (auto split: if_splits)
  show "live_entry (sn_store s) k' = map_of (ls_data l') k'" if "n \<in> set (reps k')" for k'
    using live [OF that s0(1)] assms(5) [OF _ s0(1), of k'] s0(2) that assms(4) by auto
  show "0 \<le> t" "t \<le> latest'" if "lww_stamp (sn_store s) k' = Some t" for k' t
    using that s0(2) stamps [OF s0(1), of k' t] assms(6) [OF s0(1), of k' t] assms(3) by (auto split: if_splits)
qed

lemma supersedes_upto:
  "(\<forall>t. lww_stamp s k = Some t \<longrightarrow> t \<le> latest) \<Longrightarrow> latest \<le> ts \<Longrightarrow> supersedes (lww_stamp s k) ts"
  by (auto simp: supersedes_def split: option.split)

lemma lww_answer_all:
  assumes "rs \<noteq> []" and "\<forall>r \<in> set rs. \<exists>t. 0 \<le> t \<and> r = Some (v, t, False)"
  shows "lww_answer rs = v"
proof -
  have best: "\<exists>t'. 0 \<le> t' \<and> lww_best (v, t, False) rs = (v, t', False)"
    if "\<forall>r \<in> set rs. \<exists>t. 0 \<le> t \<and> r = Some (v, t, False)" "0 \<le> t" for rs t
    using that by (induction rs arbitrary: t) auto
  obtain t rs' where rs: "rs = Some (v, t, False) # rs'" "0 \<le> t" using assms by (cases rs) auto
  then show ?thesis using best [of rs' t] assms(2) by (auto simp: lww_answer_def)
qed

lemma lww_answer_dead:
  assumes "\<forall>r \<in> set rs. \<forall>v t. r \<noteq> Some (v, t, False)"
  shows "lww_answer rs = PNone"
proof -
  have "case lww_best (bv, bt, bd) rs of (v, t, d) \<Rightarrow> t < 0 \<or> d"
    if "\<forall>r \<in> set rs. \<forall>v t. r \<noteq> Some (v, t, False)" "bt < 0 \<or> bd" for rs bv bt bd
    using that
  proof (induction rs arbitrary: bv bt bd)
    case (Cons r rs)
    show ?case
    proof (cases r)
      case (Some x)
      then obtain v t where "x = (v, t, True)" using Cons.prems(1) by (cases x) auto
      then show ?thesis using Some Cons.prems Cons.IH [of t True v] Cons.IH [of bt bd bv] by simp
    qed (use Cons in simp)
  qed simp
  from this [OF assms, of "- 1" False PNone] show ?thesis by (auto simp: lww_answer_def)
qed

text \<open>The reader finds the same live value, or none, at every replica.\<close>

lemma one_store_answer:
  assumes "one_store sha reps latest W l" and "healthy E" and "W a \<noteq> None"
  shows "lww_answer (map (visible E a k W) (reps k)) = fst (ls_get (e_now E a) k l)"
proof -
  have vis: "(\<forall>v t. visible E a k W n = Some (v, t, False) \<longrightarrow> 0 \<le> t) \<and>
      (case map_of (ls_data l) k of
         Some (v, e) \<Rightarrow> if overdue (e_now E a) e then \<forall>v' t. visible E a k W n \<noteq> Some (v', t, False)
           else \<exists>t. 0 \<le> t \<and> visible E a k W n = Some (v, t, False)
       | None \<Rightarrow> \<forall>v' t. visible E a k W n \<noteq> Some (v', t, False))" if "n \<in> set (reps k)" for n
  proof -
    have "W n \<noteq> None" using assms(1) that unfolding one_store_def agreed_def by blast
    then obtain s where s: "W n = Some s" by blast
    have live: "live_entry (sn_store s) k = map_of (ls_data l) k"
      and stamps: "\<And>t. lww_stamp (sn_store s) k = Some t \<Longrightarrow> 0 \<le> t"
      using assms(1) that s unfolding one_store_def by blast+
    have now: "e_now E n = e_now E a" and up: "e_link E a n = Up" using assms(2) unfolding healthy_def by blast+
    have eq: "visible E a k W n = Some (v, t, False) \<longleftrightarrow> lww_version (e_now E a) (sn_store s) k = Some (v, t, False)" for v t
      using s now up by (auto simp: visible_def split: option.split bool.split)
    show ?thesis unfolding eq version_live live
      using stamps live by (auto simp: live_entry_def lww_stamp_def split: option.splits slot.splits)
  qed
  have reps: "reps k \<noteq> []" using assms(1) by (simp add: one_store_def agreed_def)
  show ?thesis
  proof (cases "\<exists>v e. map_of (ls_data l) k = Some (v, e) \<and> \<not> overdue (e_now E a) e")
    case True
    then obtain v e where d: "map_of (ls_data l) k = Some (v, e)" "\<not> overdue (e_now E a) e" by blast
    then have "lww_answer (map (visible E a k W) (reps k)) = v"
      using reps vis by (intro lww_answer_all) auto
    then show ?thesis using d by (simp add: ls_get_def)
  next
    case False
    then have "visible E a k W n \<noteq> Some (v, t, False)" if "n \<in> set (reps k)" for n v t
      using vis [OF that] by (cases "map_of (ls_data l) k") auto
    then have "lww_answer (map (visible E a k W) (reps k)) = PNone"
      by (intro lww_answer_dead) auto
    then show ?thesis using False by (auto simp: ls_get_def split: option.split)
  qed
qed

lemma one_store_agreed: "one_store sha reps latest W l \<Longrightarrow> agreed sha reps W"
  by (simp add: one_store_def)

lemma one_store_stamps:
  "one_store sha reps latest W l \<Longrightarrow> W n = Some s \<Longrightarrow> lww_stamp (sn_store s) k = Some t \<Longrightarrow> 0 \<le> t \<and> t \<le> latest"
  unfolding one_store_def by blast

lemma one_store_live:
  "one_store sha reps latest W l \<Longrightarrow> n \<in> set (reps k) \<Longrightarrow> W n = Some s \<Longrightarrow> live_entry (sn_store s) k = map_of (ls_data l) k"
  unfolding one_store_def by blast

lemma set_step:
  assumes "one_store sha reps latest W l" and "healthy E" and "latest \<le> ts" and "0 \<le> ts"
  shows "one_store sha reps ts (upd_stores E a (set_effect E k v ttl ts) (set (reps k)) W) (snd (ls_set (e_now E a) k v ttl l))"
proof (rule one_store_upd [OF assms(1-3), where X = "Some (v, expiry (e_now E a) ttl)"])
  show "map_of (ls_data (snd (ls_set (e_now E a) k v ttl l))) = (map_of (ls_data l))(k \<mapsto> (v, expiry (e_now E a) ttl))"
    by (simp add: ls_set_def Let_def dict_simps fun_eq_iff)
  have now: "e_now E n = e_now E a" for n using assms(2) unfolding healthy_def by blast
  fix n s k' assume s: "W n = Some s"
  have sup: "supersedes (lww_stamp (sn_store s) k) ts"
    using one_store_stamps [OF assms(1) s] assms(3) by (intro supersedes_upto) auto
  then show "live_entry (set_effect E k v ttl ts n (sn_store s)) k' =
      (if k' = k then Some (v, expiry (e_now E a) ttl) else live_entry (sn_store s) k')"
    by (simp add: set_effect_def live_entry_set now [of n])
  fix t assume "lww_stamp (set_effect E k v ttl ts n (sn_store s)) k' = Some t"
  then show "0 \<le> t \<and> t \<le> ts"
    using one_store_stamps [OF assms(1) s, of k' t] assms(3,4)
    by (auto simp: set_effect_def lww_set_stamp split: if_splits)
qed

lemma delete_step:
  assumes "one_store sha reps latest W l" and "healthy E" and "latest \<le> ts" and "0 \<le> ts"
  shows "one_store sha reps ts (upd_stores E a (delete_effect E k ts) (set (reps k)) W) (snd (ls_delete k l))"
proof (rule one_store_upd [OF assms(1-3), where X = None])
  show "map_of (ls_data (snd (ls_delete k l))) = (map_of (ls_data l))(k := None)"
    by (simp add: ls_delete_def dict_simps fun_eq_iff)
  fix n s k' assume s: "W n = Some s"
  have sup: "supersedes (lww_stamp (sn_store s) k) ts"
    using one_store_stamps [OF assms(1) s] assms(3) by (intro supersedes_upto) auto
  then show "live_entry (delete_effect E k ts n (sn_store s)) k' = (if k' = k then None else live_entry (sn_store s) k')"
    by (simp add: delete_effect_def live_entry_delete)
  fix t assume "lww_stamp (delete_effect E k ts n (sn_store s)) k' = Some t"
  then show "0 \<le> t \<and> t \<le> ts"
    using one_store_stamps [OF assms(1) s, of k' t] assms(3,4)
    by (auto simp: delete_effect_def lww_stamp_def lww_delete_lookup write_ts_def Let_def split: if_splits)
qed

lemma get_step:
  assumes "one_store sha reps latest W l" and "healthy E"
  shows "one_store sha reps latest (upd_stores E a (get_effect E k) (set (reps k)) W) (snd (ls_get (e_now E a) k l))"
proof (rule one_store_upd [OF assms order_refl, where X = "map_of (ls_data (snd (ls_get (e_now E a) k l))) k"])
  show "map_of (ls_data (snd (ls_get (e_now E a) k l))) = (map_of (ls_data l))(k := map_of (ls_data (snd (ls_get (e_now E a) k l))) k)"
    by (auto simp: ls_get_def dict_simps fun_eq_iff split: option.split)
  have now: "e_now E n = e_now E a" for n using assms(2) unfolding healthy_def by blast
  fix n s k' assume s: "W n = Some s"
  show "live_entry (get_effect E k n (sn_store s)) k' =
      (if k' = k then map_of (ls_data (snd (ls_get (e_now E a) k l))) k else live_entry (sn_store s) k')"
    if "n \<in> set (reps k)"
    using one_store_live [OF assms(1) that s]
    by (auto simp: get_effect_def live_entry_get now [of n] ls_get_def dict_simps split: option.split)
  fix t assume "lww_stamp (get_effect E k n (sn_store s)) k' = Some t"
  then show "0 \<le> t \<and> t \<le> latest"
    using one_store_stamps [OF assms(1) s, of k' t] lww_get_versioned_stamp [of "e_now E n" k "sn_store s" k']
    by (auto simp: get_effect_def)
qed

text \<open>Every write is acknowledged, and a delete says whether the key was there.\<close>

lemma one_store_acks:
  assumes "one_store sha reps latest W l" and "healthy E" and "latest \<le> ts"
  shows "list_ex (set_ack E a k ts W) (reps k)"
    and "list_ex (delete_ack E a k ts W) (reps k) \<longleftrightarrow> map_of (ls_data l) k \<noteq> None"
proof -
  have ag: "agreed sha reps W" using assms(1) by (rule one_store_agreed)
  have up: "e_link E a n = Up" for n using assms(2) unfolding healthy_def by blast
  have run: "\<exists>s. W n = Some s" if "n \<in> set (reps k)" for n using ag that unfolding agreed_def by blast
  have "reps k \<noteq> []" using ag by (simp add: agreed_def)
  have "set_ack E a k ts W n" if n: "n \<in> set (reps k)" for n
  proof -
    obtain s where s: "W n = Some s" using run [OF n] by blast
    have "supersedes (lww_stamp (sn_store s) k) ts"
      using one_store_stamps [OF assms(1) s] assms(3) by (intro supersedes_upto) auto
    then show ?thesis using s up by (simp add: set_ack_def)
  qed
  then show "list_ex (set_ack E a k ts W) (reps k)" using \<open>reps k \<noteq> []\<close> by (cases "reps k") auto
  have "delete_ack E a k ts W n \<longleftrightarrow> map_of (ls_data l) k \<noteq> None" if n: "n \<in> set (reps k)" for n
  proof -
    obtain s where s: "W n = Some s" using run [OF n] by blast
    then show ?thesis using up one_store_live [OF assms(1) n s, symmetric]
      by (auto simp: delete_ack_def lww_delete_result live_entry_def split: option.splits slot.splits)
  qed
  then show "list_ex (delete_ack E a k ts W) (reps k) \<longleftrightarrow> map_of (ls_data l) k \<noteq> None"
    using \<open>reps k \<noteq> []\<close> by (auto simp: list_ex_iff neq_Nil_conv)
qed

text \<open>One request.\<close>

abbreviation plain_call :: "request \<Rightarrow> LocalStore \<Rightarrow> store_answer \<times> LocalStore" where
  "plain_call r \<equiv> basic_call (e_now (rq_env r) (rq_node r)) (rq_ts r) (rq_call r)"

lemma request_step:
  assumes "one_store sha reps latest W l" and "request_ok reps W r" and "latest \<le> rq_ts r" and "0 \<le> rq_ts r"
  shows "fst (cluster_call sha r W) = fst (plain_call r l)
    \<and> one_store sha reps (rq_ts r) (snd (cluster_call sha r W)) (snd (plain_call r l))
    \<and> dom (snd (cluster_call sha r W)) = dom W
    \<and> (\<exists>F N. snd (cluster_call sha r W) = upd_stores (rq_env r) (rq_node r) F N W)"
proof -
  have upd: "\<exists>F N. upd_stores E a G M W = upd_stores E a F N W" for E a G M by blast
  let ?E = "rq_env r" and ?a = "rq_node r"
  obtain s k where ok: "healthy ?E" "W ?a = Some s" "call_key (rq_call r) = Some k"
    "\<forall>sched. rq_async r = Some sched \<longrightarrow> schedule (length (reps k)) sched" using assms(2) by (auto simp: request_ok_def)
  note node = agreedD [OF one_store_agreed [OF assms(1)] ok(2)]
  have sched: "schedule (length (replica_nodes sha k s)) sched" if "rq_async r = Some sched" for sched
    using ok(4) node(2) that by simp
  have ne: "replica_nodes sha k s \<noteq> []" using node(2,3) by simp
  have dom: "dom (upd_stores ?E ?a F N W) = dom W" for F N by (auto simp: upd_stores_def split: if_splits)
  have later: "one_store sha reps (rq_ts r) W' l'" if "one_store sha reps latest W' l'" for W' l'
    using that assms(3) unfolding one_store_def by (meson order_trans)
  show ?thesis
  proof (cases "rq_call r")
    case (CSet k' v ttl)
    then have "cluster_call sha r W = (ABool True, upd_stores ?E ?a (set_effect ?E k v ttl (rq_ts r)) (set (reps k)) W)"
      using ok(3) one_store_acks(1) [OF assms(1) ok(1) assms(3), of ?a k] node(2)
        cluster_set_eq [OF node(1) ne] cluster_async_set_eq [OF node(1) ne sched]
      by (cases "rq_async r") (simp_all add: cluster_call_def Let_def)
    then show ?thesis using CSet ok(3) dom upd set_step [OF assms(1) ok(1) assms(3,4)] by (simp add: ls_set_def Let_def)
  next
    case (CGet k')
    then have "cluster_call sha r W = (AVal (lww_answer (map (visible ?E ?a k W) (reps k))),
        upd_stores ?E ?a (get_effect ?E k) (set (reps k)) W)"
      using ok(3) node(2) cluster_get_eq [OF node(1) ne] cluster_async_get_eq [OF node(1) ne sched]
      by (cases "rq_async r") (simp_all add: cluster_call_def Let_def)
    then show ?thesis
      using CGet ok(2,3) dom upd later [OF get_step [OF assms(1) ok(1)]] one_store_answer [OF assms(1) ok(1), of ?a k] by simp
  next
    case (CDelete k')
    then have "cluster_call sha r W = (ABool (list_ex (delete_ack ?E ?a k (rq_ts r) W) (reps k)),
        upd_stores ?E ?a (delete_effect ?E k (rq_ts r)) (set (reps k)) W)"
      using ok(3) node(2) cluster_delete_eq [OF node(1) ne] cluster_async_delete_eq [OF node(1) ne sched]
      by (cases "rq_async r") (simp_all add: cluster_call_def Let_def)
    then show ?thesis
      using CDelete ok(3) dom upd delete_step [OF assms(1) ok(1) assms(3,4)] one_store_acks(2) [OF assms(1) ok(1) assms(3), of ?a k]
      by (simp add: ls_delete_def)
  qed (use ok(3) in simp_all)
qed

lemma requests_run:
  assumes "one_store sha reps latest W l" and "\<forall>r \<in> set rs. request_ok reps W r"
    and "sorted (map rq_ts rs)" and "\<forall>r \<in> set rs. latest \<le> rq_ts r \<and> 0 \<le> rq_ts r"
  shows "fst (run_requests sha rs W) =
    fst (run_calls basic_call (map (\<lambda>r. (e_now (rq_env r) (rq_node r), rq_ts r, rq_call r)) rs) l)"
  using assms
proof (induction rs arbitrary: latest W l)
  case (Cons r rs)
  have step: "fst (cluster_call sha r W) = fst (plain_call r l)"
    "one_store sha reps (rq_ts r) (snd (cluster_call sha r W)) (snd (plain_call r l))"
    "dom (snd (cluster_call sha r W)) = dom W"
    using request_step [OF Cons.prems(1), of r] Cons.prems(2,4) by simp_all
  have "\<forall>x \<in> set rs. request_ok reps (snd (cluster_call sha r W)) x"
    using Cons.prems(2) step(3) by (auto simp: request_ok_def dom_def)
  from Cons.IH [OF step(2) this] Cons.prems(3,4) step(1) show ?case by (simp add: case_prod_beta)
qed simp

lemma one_store_init:
  assumes "agreed sha reps W" and "\<forall>a s. W a = Some s \<longrightarrow> sn_store s = lww_init"
  shows "one_store sha reps 0 W ls_init"
  using assms by (auto simp: one_store_def live_entry_def lww_init_def ls_init_def lww_stamp_def)

lemma requests_run_init:
  assumes "agreed sha reps W" and "\<forall>a s. W a = Some s \<longrightarrow> sn_store s = lww_init"
    and "\<forall>r \<in> set rs. request_ok reps W r" and "sorted (map rq_ts rs)" and "\<forall>r \<in> set rs. 0 \<le> rq_ts r"
  shows "fst (run_requests sha rs W) =
    fst (run_calls basic_call (map (\<lambda>r. (e_now (rq_env r) (rq_node r), rq_ts r, rq_call r)) rs) ls_init)"
  by (rule requests_run [OF one_store_init [OF assms(1,2)] assms(3,4)]) (use assms(5) in simp)

text \<open>C2.
  A healthy cluster is one store: clients call \<open>get\<close>, \<open>set\<close> and \<open>delete\<close> on any of its nodes, blocking or
  asyncio, in any order, and every call returns what one plain \<open>LocalStore\<close> would return to the same calls:
  the value last set, whoever set it, \<open>None\<close> after a delete or when the time to live is over, and whether
  there was something to delete. Hypotheses: the links are up, the nodes run, agree on the replicas of each
  key and share a monotonic clock, the stores are empty at first, and the timestamps do not go back.
\<close>

theorem cluster_is_one_store:
  assumes "agreed sha reps W" and "\<forall>a s. W a = Some s \<longrightarrow> sn_store s = lww_init"
    and "\<forall>r \<in> set rs. request_ok reps W r" and "sorted (map rq_ts rs)" and "\<forall>r \<in> set rs. 0 \<le> rq_ts r"
  shows "fst (run_requests sha rs W) =
    fst (run_calls basic_call (map (\<lambda>r. (e_now (rq_env r) (rq_node r), rq_ts r, rq_call r)) rs) ls_init)"
  by (rule requests_run_init [OF assms])

section \<open>Witness\<close>

lemma demo_agreed: "agreed (\<lambda>s. []) (\<lambda>k. [demo_node 1, demo_node 2]) demo_cluster"
proof -
  have "replica_nodes (\<lambda>s. []) k (demo_storage p) = [demo_node 1, demo_node 2]" for k p
    by (auto simp: demo_storage_def demo_gossip_def replica_nodes_def rr_get_nodes_def py_sorted_desc_def
        rr_score_def py_take_def)
  then show ?thesis
    using demo_cluster_ok(1,2) by (auto simp: agreed_def demo_cluster_def split: if_splits)
qed

text \<open>Node 1 sets a key, node 2, an asyncio one, reads and deletes it, node 1 reads it again.\<close>

definition demo_requests :: "request list" where
  "demo_requests =
    [\<lparr>rq_env = demo_env Up, rq_node = demo_node 1, rq_async = None, rq_ts = 5, rq_call = CSet ''k'' (PInt 7) None\<rparr>,
     \<lparr>rq_env = demo_env Up, rq_node = demo_node 2, rq_async = Some [1, 0], rq_ts = 6, rq_call = CGet ''k''\<rparr>,
     \<lparr>rq_env = demo_env Up, rq_node = demo_node 2, rq_async = Some [0, 1], rq_ts = 7, rq_call = CDelete ''k''\<rparr>,
     \<lparr>rq_env = demo_env Up, rq_node = demo_node 1, rq_async = None, rq_ts = 8, rq_call = CGet ''k''\<rparr>]"

lemma cluster_is_one_store_witness:
  "fst (run_requests (\<lambda>s. []) demo_requests demo_cluster) = [ABool True, AVal (PInt 7), ABool True, AVal PNone]"
proof -
  have empty: "\<forall>a s. demo_cluster a = Some s \<longrightarrow> sn_store s = lww_init"
    by (simp add: demo_cluster_def demo_storage_def)
  have requests: "\<forall>r \<in> set demo_requests. request_ok (\<lambda>k. [demo_node 1, demo_node 2]) demo_cluster r"
    by (auto simp: demo_requests_def request_ok_def healthy_def demo_env_def demo_cluster_def schedule_def)
  from cluster_is_one_store [OF demo_agreed empty requests]
  show ?thesis
    by (simp add: demo_requests_def demo_env_def ls_set_def ls_get_def ls_delete_def ls_init_def expiry_None Let_def)
qed

end
