(* ===== verification/Async_Stack.thy ===== *)
theory Async_Stack
  imports Stack Async_Pool Cluster_Store
begin

text \<open>
  The asyncio node over the asyncio pool: \<open>gather\<close>ed requests, streams with a read buffer, and asyncio
  servers at their other ends. It refines the cluster model as the blocking stack of \<open>Stack\<close> does.
\<close>

section \<open>Gathered calls through two pools\<close>

lemma gather_run_agree:
  assumes "list_all2 (\<lambda>f g. \<forall>v w. R v w \<longrightarrow> agree R (f v) (g w)) fs gs"
  shows "set is \<subseteq> {0..<length fs} \<Longrightarrow> R v w \<Longrightarrow> agree R (gather_run is fs rs v) (gather_run is gs rs w)"
proof (induction "is" arbitrary: rs v w)
  case (Cons i "is")
  have "agree R ((fs ! i) v) ((gs ! i) w)" using assms Cons.prems by (auto dest: list_all2_nthD)
  then show ?case using Cons by (auto simp: agree_def case_prod_beta)
qed (simp add: agree_def)

lemma gather_agree:
  assumes "list_all2 (\<lambda>f g. \<forall>v w. R v w \<longrightarrow> agree R (f v) (g w)) fs gs" and "schedule (length fs) sched" and "R v w"
  shows "agree R (gather sched fs v) (gather sched gs w)"
  using gather_run_agree [OF assms(1), of sched v w] assms(2,3) list_all2_lengthD [OF assms(1)]
  by (simp add: gather_def schedule_def)

lemma guard_agree: "agree R (h key v) (h' key w) \<Longrightarrow> agree R (async_guard key h v) (async_guard key h' w)"
  by (auto simp: async_guard_def agree_def case_prod_beta split: sum.split)

context pool_simulation
begin

lemma async_node_get_agrees:
  assumes "same_node R sv sw" and "M (get_request key)" and "schedule (length (replica_nodes sha key (fst sw))) sched"
  shows "agree (same_node R) (async_node_get P sha (async_lww_read_resolve sched) now key sv)
    (async_node_get Q sha (async_lww_read_resolve sched) now key sw)"
proof -
  have s: "fst sv = fst sw" using assms(1) by (simp add: same_node_def)
  show ?thesis
  proof (cases "replica_nodes sha key (fst sw) = []")
    case True
    then show ?thesis using assms(1) s
      by (auto simp: async_node_get_def agree_def same_node_def split: prod.splits)
  next
    case False
    have "\<forall>v w. same_node R v w \<longrightarrow> agree (same_node R) (async_guard key (handle_get_versioned P now h) v)
        (async_guard key (handle_get_versioned Q now h) w)" for h
      using get_versioned_agrees [OF _ assms(2)] by (blast intro: guard_agree)
    then have "list_all2 (\<lambda>f g. \<forall>v w. same_node R v w \<longrightarrow> agree (same_node R) (f v) (g w))
        (map (async_guard key) (map (handle_get_versioned P now) hs)) (map (async_guard key) (map (handle_get_versioned Q now) hs))" for hs
      by (simp add: list_all2_conv_all_nth)
    from gather_agree [OF this _ assms(1), of "make_handles (fst sw) (replica_nodes sha key (fst sw))" sched]
    show ?thesis using False s assms(3)
      by (simp add: async_node_get_def async_lww_read_resolve_def async_handle_get_versioned_def async_make_handles_def
          make_handles_length agree_def case_prod_beta Let_def)
  qed
qed

lemma async_node_set_agrees:
  assumes "same_node R sv sw" and "M (set_request key v ttl ts)"
    and "schedule (length (replica_nodes sha key (fst sw))) sched"
  shows "agree (same_node R) (async_node_set P sha sched now wall ts key v ttl sv)
    (async_node_set Q sha sched now wall ts key v ttl sw)"
proof -
  have s: "fst sv = fst sw" using assms(1) by (simp add: same_node_def)
  show ?thesis
  proof (cases "replica_nodes sha key (fst sw) = []")
    case True
    then show ?thesis using assms(1) s by (simp add: async_node_set_def agree_def same_node_def)
  next
    case False
    have "list_all2 (\<lambda>f g. \<forall>v w. same_node R v w \<longrightarrow> agree (same_node R) (f v) (g w))
        (map (\<lambda>h. handle_set P now wall h key v ttl ts) hs) (map (\<lambda>h. handle_set Q now wall h key v ttl ts) hs)" for hs
      using set_agrees [OF _ assms(2)] by (simp add: list_all2_conv_all_nth)
    from gather_agree [OF this _ assms(1), of "make_handles (fst sw) (replica_nodes sha key (fst sw))" sched]
    show ?thesis using False s assms(3)
      by (simp add: async_node_set_def async_handle_set_def async_make_handles_def make_handles_length agree_def
          case_prod_beta Let_def)
  qed
qed

lemma async_node_delete_agrees:
  assumes "same_node R sv sw" and "M (delete_request key ts)"
    and "schedule (length (replica_nodes sha key (fst sw))) sched"
  shows "agree (same_node R) (async_node_delete P sha sched wall ts key sv) (async_node_delete Q sha sched wall ts key sw)"
proof -
  have s: "fst sv = fst sw" using assms(1) by (simp add: same_node_def)
  show ?thesis
  proof (cases "replica_nodes sha key (fst sw) = []")
    case True
    then show ?thesis using assms(1) s by (simp add: async_node_delete_def agree_def same_node_def)
  next
    case False
    have "list_all2 (\<lambda>f g. \<forall>v w. same_node R v w \<longrightarrow> agree (same_node R) (f v) (g w))
        (map (\<lambda>h. handle_delete P wall h key ts) hs) (map (\<lambda>h. handle_delete Q wall h key ts) hs)" for hs
      using delete_agrees [OF _ assms(2)] by (simp add: list_all2_conv_all_nth)
    from gather_agree [OF this _ assms(1), of "make_handles (fst sw) (replica_nodes sha key (fst sw))" sched]
    show ?thesis using False s assms(3)
      by (simp add: async_node_delete_def async_handle_delete_def async_make_handles_def make_handles_length agree_def
          case_prod_beta Let_def)
  qed
qed

end

context peer_pool
begin

lemma async_write_refines:
  assumes "ok w" and "wire_ok dumps loads (set_request key v ttl ts)"
    and "wire_ok dumps loads (message OK (PDict [(''key'', PStr key)]))"
    and "schedule (length (replica_nodes sha key s)) sched"
    and "async_node_set P sha sched now wall ts key v ttl (s, w) = (r, s', w')"
  shows "async_node_set (cluster_pool E a) sha sched now wall ts key v ttl (s, nodes w) = (r, s', nodes w')
    \<and> ok w' \<and> (nodes w a = None \<longrightarrow> nodes w' a = None)"
proof -
  let ?M = "\<lambda>m. m = set_request key v ttl ts" and ?I = "\<lambda>W::cluster. nodes w a = None \<longrightarrow> W a = None"
  have "serving E dumps loads ?M ?I" by (rule serving_set [OF assms(2,3)]) auto
  then have "same_node (stack_rel E dumps loads ok nodes ?M ?I) (s, w) (s, nodes w)"
    using assms(1) by (simp add: same_node_def stack_rel_def)
  from pool_simulation.async_node_set_agrees [OF simulates this refl, of sha sched now wall] assms(4) show ?thesis
    unfolding assms(5)
    by (cases "async_node_set (cluster_pool E a) sha sched now wall ts key v ttl (s, nodes w)")
      (auto simp: agree_pair stack_rel_def)
qed

lemma async_read_refines:
  assumes "ok w" and "wire_ok dumps loads (get_request key)" and "replies_ok E dumps loads key (nodes w)"
    and "schedule (length (replica_nodes sha key s)) sched"
    and "async_node_get P sha (async_lww_read_resolve sched) now key (s, w) = (x, s', w')"
  shows "async_node_get (cluster_pool E a) sha (async_lww_read_resolve sched) now key (s, nodes w) = (x, s', nodes w')
    \<and> ok w' \<and> replies_ok E dumps loads key (nodes w')"
proof -
  let ?M = "\<lambda>m. m = get_request key"
  have "same_node (stack_rel E dumps loads ok nodes ?M (replies_ok E dumps loads key)) (s, w) (s, nodes w)"
    using assms(1,3) serving_get [OF assms(2)] by (simp add: same_node_def stack_rel_def)
  from pool_simulation.async_node_get_agrees [OF simulates this refl, of sha sched now] assms(4) show ?thesis
    unfolding assms(5)
    by (cases "async_node_get (cluster_pool E a) sha (async_lww_read_resolve sched) now key (s, nodes w)")
      (auto simp: agree_pair stack_rel_def)
qed

lemma async_delete_refines:
  assumes "ok w" and "wire_ok dumps loads (delete_request key ts)"
    and "wire_ok dumps loads (message OK (PDict [(''key'', PStr key)]))"
    and "wire_ok dumps loads (message NOT_FOUND (PDict [(''key'', PStr key)]))"
    and "schedule (length (replica_nodes sha key s)) sched"
    and "async_node_delete P sha sched wall ts key (s, w) = (r, s', w')"
  shows "async_node_delete (cluster_pool E a) sha sched wall ts key (s, nodes w) = (r, s', nodes w') \<and> ok w'"
proof -
  let ?M = "\<lambda>m. m = delete_request key ts" and ?I = "\<lambda>W::cluster. True"
  have "same_node (stack_rel E dumps loads ok nodes ?M ?I) (s, w) (s, nodes w)"
    using assms(1) serving_delete [OF assms(2-4)] by (simp add: same_node_def stack_rel_def)
  from pool_simulation.async_node_delete_agrees [OF simulates this refl, of sha sched wall] assms(5) show ?thesis
    unfolding assms(6)
    by (cases "async_node_delete (cluster_pool E a) sha sched wall ts key (s, nodes w)")
      (auto simp: agree_pair stack_rel_def)
qed

lemma async_read_your_writes:
  assumes "ok w" and "nodes w a = None"
    and "node_ok ((nodes w)(a \<mapsto> s)) a s" and "n0 \<in> set (replica_nodes sha key s)"
    and "n0 = a \<or> nodes w n0 \<noteq> None \<and> e_link E a n0 = Up"
    and "\<forall>n s1 t. ((nodes w)(a \<mapsto> s)) n = Some s1 \<longrightarrow> lww_stamp (sn_store s1) key = Some t \<longrightarrow> t < ts" and "0 \<le> ts"
    and "\<forall>m \<in> {set_request key v None ts, message OK (PDict [(''key'', PStr key)]), get_request key,
          get_reply key (Some (v, ts, False))}. wire_ok dumps loads m"
    and "replies_ok E dumps loads key (nodes w)"
    and "schedule (length (replica_nodes sha key s)) sched" and "schedule (length (replica_nodes sha key s)) sched'"
    and "async_node_set P sha sched (e_now E a) (e_wall E a) ts key v None (s, w) = (r, s1, w1)"
    and "async_node_get P sha (async_lww_read_resolve sched') (e_now E a) key (s1, w1) = (x, s2, w2)"
  shows "x = v"
proof -
  have set: "async_node_set (cluster_pool E a) sha sched (e_now E a) (e_wall E a) ts key v None (s, nodes w) = (r, s1, nodes w1)"
    and ok1: "ok w1" and a1: "nodes w1 a = None"
    using async_write_refines [OF assms(1) _ _ assms(10,12)] assms(2,8) by auto
  have ne: "replica_nodes sha key s \<noteq> []" using assms(4) by auto
  have "cluster_async_set E sha sched a ts key v None ((nodes w)(a \<mapsto> s)) = (Some r, (nodes w1)(a \<mapsto> s1))"
    using beside_cluster [of "nodes w" a "async_node_set (cluster_pool E a) sha sched (e_now E a) (e_wall E a) ts key v None",
        OF assms(2) set] by (simp add: cluster_async_set_def)
  then have wrote: "(nodes w1)(a \<mapsto> s1) = snd (cluster_set E sha a ts key v None ((nodes w)(a \<mapsto> s)))"
    using cluster_async_set_eq [OF assms(3) ne assms(10)] cluster_set_eq [OF assms(3) ne] by simp
  from written_replies [OF assms(2,3) ne assms(6) _ assms(9) wrote a1] assms(8)
  have replies: "replies_ok E dumps loads key (nodes w1)" by blast
  have "replica_nodes sha key s1 = replica_nodes sha key s"
  proof -
    have "Some s1 = upd_stores E a (set_effect E key v None ts) (set (replica_nodes sha key s)) ((nodes w)(a \<mapsto> s)) a"
      using arg_cong [OF wrote, of "\<lambda>W. W a"] cluster_set_eq [OF assms(3) ne] by simp
    then show ?thesis by (auto simp: upd_stores_def replica_nodes_def split: if_splits)
  qed
  then have "schedule (length (replica_nodes sha key s1)) sched'" using assms(11) by simp
  from async_read_refines [OF ok1 _ replies this assms(13)] assms(8)
  have "async_node_get (cluster_pool E a) sha (async_lww_read_resolve sched') (e_now E a) key (s1, nodes w1) = (x, s2, nodes w2)"
    by blast
  from beside_cluster [of "nodes w1" a "async_node_get (cluster_pool E a) sha (async_lww_read_resolve sched') (e_now E a) key", OF a1 this]
  have "fst (cluster_async_get E sha sched' a key ((nodes w1)(a \<mapsto> s1))) = Some x"
    by (simp add: cluster_async_get_def)
  moreover have "fst (cluster_async_get E sha sched' a key ((nodes w1)(a \<mapsto> s1))) = Some v"
    using read_after_write [OF assms(3,3,4,4) _ _ _ assms(6,7) wrote assms(11), of E] assms(5) by auto
  ultimately show "x = v" by simp
qed

end

section \<open>Streams that end at asyncio servers\<close>

text \<open>As \<open>wi_sendall\<close>, with the asyncio version of the server's loop.\<close>

definition awi_sendall :: "env \<Rightarrow> (Message \<Rightarrow> byte list) \<Rightarrow> (byte list \<Rightarrow> Message res) \<Rightarrow> nat \<Rightarrow> byte list \<Rightarrow> wires
    \<Rightarrow> unit res \<times> wires" where
  "awi_sendall E dumps loads s bs n =
     (let b = wi_peer n s
      in case wi_nodes n b of
           Some sn \<Rightarrow>
             if s \<in> set (wi_open n)
             then (case async_handle_client idle_pool (\<lambda>i. (e_now E b, e_wall E b)) dumps loads (\<lambda>i. True) 1
                     (([], [Data bs]), sn, ()) of
                     (out, running, _, sn', _) \<Rightarrow>
                       (Inr (), n\<lparr>wi_in := (wi_in n)(s := wi_in n s @ map Data out),
                                  wi_open := (if running then wi_open n else removeAll s (wi_open n)),
                                  wi_nodes := (wi_nodes n)(b \<mapsto> sn')\<rparr>))
             else (Inl OSError, n)
         | None \<Rightarrow> (Inl OSError, n))"

text \<open>Beside the wires, the bytes each stream reader has buffered.\<close>

type_synonym streams = "wires \<times> (nat \<Rightarrow> byte list)"

definition peer_streams :: "env \<Rightarrow> NodeInfo \<Rightarrow> (Message \<Rightarrow> byte list) \<Rightarrow> (byte list \<Rightarrow> Message res)
    \<Rightarrow> (streams, byte list \<times> rx list) net_ops" where
  "peer_streams E a dumps loads =
     \<lparr>n_connect = (\<lambda>h pt v. case wi_connect E a h pt (fst v) of
          (Inl e, n) \<Rightarrow> (Inl e, n, snd v) | (Inr s, n) \<Rightarrow> (Inr s, n, (snd v)(s := []))),
      n_sendall = (\<lambda>s bs v. case awi_sendall E dumps loads s bs (fst v) of (r, n) \<Rightarrow> (r, n, snd v)),
      n_incoming = (\<lambda>s v. (snd v s, wi_in (fst v) s)),
      n_advance = (\<lambda>s st v. ((fst v)\<lparr>wi_in := (wi_in (fst v))(s := snd st)\<rparr>, (snd v)(s := fst st))),
      n_close = (\<lambda>s v. (Inr (), (fst v)\<lparr>wi_open := removeAll s (wi_open (fst v))\<rparr>, snd v)),
      n_closing = (\<lambda>s v. s \<notin> set (wi_open (fst v))),
      n_made = (\<lambda>v. {..wi_made (fst v)}),
      n_open = (\<lambda>v. set (wi_open (fst v)) \<inter> {..wi_made (fst v)})\<rparr>"

lemma peer_streams_sel [simp]:
  "n_sendall (peer_streams E a dumps loads) s bs (n, f) = (case awi_sendall E dumps loads s bs n of (r, n) \<Rightarrow> (r, n, f))"
  "n_incoming (peer_streams E a dumps loads) s (n, f) = (f s, wi_in n s)"
  "n_advance (peer_streams E a dumps loads) s st (n, f) = (n\<lparr>wi_in := (wi_in n)(s := snd st)\<rparr>, f(s := fst st))"
  "n_close (peer_streams E a dumps loads) s (n, f) = (Inr (), n\<lparr>wi_open := removeAll s (wi_open n)\<rparr>, f)"
  "n_closing (peer_streams E a dumps loads) s (n, f) \<longleftrightarrow> s \<notin> set (wi_open n)"
  by (simp_all add: peer_streams_def)

lemma peer_streams_connect [simp]:
  "n_connect (peer_streams E a dumps loads) h pt (n, \<lambda>s. []) = (case wi_connect E a h pt n of (r, n1) \<Rightarrow> (r, n1, \<lambda>s. []))"
  by (auto simp: peer_streams_def split: prod.split sum.split)

lemma peer_streams_laws: "net_laws (peer_streams E a dumps loads)"
proof -
  have "wi_made n1 = wi_made n" "set (wi_open n1) \<subseteq> set (wi_open n)"
    if "awi_sendall E dumps loads s bs n = (r, n1)" for s bs n r n1
    using that by (auto simp: awi_sendall_def Let_def split: option.splits prod.splits if_splits)
  then show ?thesis
    by (auto simp: net_laws_def peer_streams_def wi_connect_def Let_def split: if_splits prod.splits sum.splits) blast+
qed

lemma recv_one_async:
  assumes "send_message dumps m = Inr bs"
  shows "recv_message_async loads ([], [Data bs]) = (loads (dumps m), [], [])"
proof -
  have bs: "length (dumps m) < 2 ^ 32" "bs = be_bytes HEADER_SIZE (length (dumps m)) @ dumps m"
    using assms by (auto simp: send_message_Inr)
  have len: "from_bytes_big (be_bytes HEADER_SIZE (length (dumps m))) = length (dumps m)"
    using bs(1) by (intro from_be_bytes) (simp add: HEADER_SIZE_def)
  have "be_bytes 4 (length (dumps m)) \<noteq> []" by (metis length_be_bytes list.size(3) zero_neq_numeral)
  then show ?thesis
    using bs(2) len by (simp add: recv_message_async_def recv_message_with_def HEADER_SIZE_def)
qed

text \<open>
  On live connections the asyncio pool does what the blocking one does with the same queues.
\<close>

definition sync_of :: "AsyncPool \<Rightarrow> SyncPool" where
  "sync_of p = \<lparr>sp_max = ap_max p, sp_queues = ap_queues p\<rparr>"

lemma sync_of_simps [simp]:
  "sp_max (sync_of p) = ap_max p" "sp_queues (sync_of p) = ap_queues p"
  "sp_queue a (sync_of p) = sync_of (ap_queue a p)" "sp_put a q (sync_of p) = sync_of (ap_put a q p)"
  by (auto simp: sync_of_def sp_queue_def ap_queue_def sp_put_def ap_put_def split: option.split)

lemma send_async: "send_message_async = send_message"
  by (simp add: fun_eq_iff send_message_def send_message_async_def)

lemma no_bytes [simp]: "(\<lambda>s. [])(s := []) = (\<lambda>s. [])"
  by auto

lemma attempt_alike:
  assumes "serving E dumps loads M I" and "I (wi_nodes n)" and "M m" and "live_to E a n s b"
  shows "\<exists>resp p' n'. sp_attempt (server_net E a dumps loads) dumps loads d s m (sync_of p, n) = (Inr resp, sync_of p', n')
    \<and> ap_attempt (peer_streams E a dumps loads) dumps loads d s m (p, n, \<lambda>s. []) = (Inr resp, p', n', \<lambda>s. [])"
proof -
  obtain bs resp sn sn' out where e: "wi_nodes n b = Some sn"
    "node_handle idle_pool (e_now E b, e_wall E b) m (sn, ()) = (Inr resp, sn', ())"
    "send_message dumps m = Inr bs"
    "wi_sendall E dumps loads s bs n =
      (Inr (), n\<lparr>wi_in := (wi_in n)(s := [Data out]), wi_nodes := (wi_nodes n)(b \<mapsto> sn')\<rparr>)"
    "recv_message loads [Data out] = (Inr resp, [])" "send_message dumps resp = Inr out" "wire_ok dumps loads resp"
    using send_live [OF assms] by metis
  have m: "wire_ok dumps loads m" using assms(1,3) by (simp add: serving_def)
  have get: "recv_message_async loads ([], [Data bs]) = (Inr m, [], [])" "recv_message_async loads ([], [Data out]) = (Inr resp, [], [])"
    using recv_one_async [OF e(3)] recv_one_async [OF e(6)] m e(7) by (simp_all add: wire_ok_def)
  have "async_handle_client idle_pool (\<lambda>i. (e_now E b, e_wall E b)) dumps loads (\<lambda>i. True) 1 (([], [Data bs]), sn, ())
      = ([out], True, ([], []), sn', ())"
    using get(1) e(2,6) by (simp add: async_handle_client_def)
  then have send: "awi_sendall E dumps loads s bs n =
      (Inr (), n\<lparr>wi_in := (wi_in n)(s := [Data out]), wi_nodes := (wi_nodes n)(b \<mapsto> sn')\<rparr>)"
    using assms(4) e(1) by (simp add: awi_sendall_def live_to_def)
  have same: "(wi_in n)(s := []) = wi_in n" "s \<in> set (wi_open n)" using assms(4) by (auto simp: live_to_def)
  then show ?thesis
    using e(3-5) send get(2)
    by (cases "lifo_put (ap_max p) s (q_of (ap_queues p) d)") (simp_all add: sp_attempt_def ap_attempt_def send_async)
qed

lemma first_alike:
  assumes "serving E dumps loads M I" and "I (wi_nodes n)" and "M m" and "live_to E a n s b"
  shows "\<exists>r p' n'. sp_first (server_net E a dumps loads) dumps loads h pt m reused s (sync_of p, n) = (r, sync_of p', n')
    \<and> ap_first (peer_streams E a dumps loads) dumps loads h pt m reused s (p, n, \<lambda>s. []) = (r, p', n', \<lambda>s. [])"
proof -
  obtain resp p' n' where
    "sp_attempt (server_net E a dumps loads) dumps loads (peer_address h pt) s m (sync_of p, n) = (Inr resp, sync_of p', n')"
    "ap_attempt (peer_streams E a dumps loads) dumps loads (peer_address h pt) s m (p, n, \<lambda>s. []) = (Inr resp, p', n', \<lambda>s. [])"
    using attempt_alike [OF assms] by blast
  then show ?thesis by (simp add: sp_first_def ap_first_def)
qed

lemma wi_connect_live:
  assumes "wi_connect E a h pt n = (Inr s, n1)" and "\<forall>b. e_link E a b \<noteq> ReplyLost"
  shows "live_to E a n1 s \<lparr>host = h, port = pt\<rparr> \<and> wi_nodes n1 = wi_nodes n"
proof -
  have "e_link E a \<lparr>host = h, port = pt\<rparr> = Up" if "e_link E a \<lparr>host = h, port = pt\<rparr> \<noteq> Unreachable"
    using that assms(2) by (cases "e_link E a \<lparr>host = h, port = pt\<rparr>") auto
  then show ?thesis using assms(1) by (auto simp: wi_connect_def live_to_def Let_def split: if_splits)
qed

lemma execute_alike:
  assumes "serving E dumps loads M I" and "I (wi_nodes n)" and "M m" and "stack_ok E a dumps loads mx (sync_of p, n)"
  shows "\<exists>r p' n'. sp_execute (server_net E a dumps loads) dumps loads h pt m (sync_of p, n) = (r, sync_of p', n')
    \<and> ap_execute (peer_streams E a dumps loads) dumps loads h pt m (p, n, \<lambda>s. []) = (r, p', n', \<lambda>s. [])"
proof -
  let ?a = "peer_address h pt" and ?b = "\<lparr>host = h, port = pt\<rparr>"
  have addr: "?a = node_address ?b" by (simp add: peer_address_def node_address_def)
  have live: "idle_live E a (q_of (ap_queues p)) n" and links: "\<forall>b. e_link E a b \<noteq> ReplyLost"
    using assms(4) by (auto simp: stack_ok_def sp_idle_def [abs_def])
  show ?thesis
  proof (cases "q_of (ap_queues p) ?a")
    case Nil
    then have "map_of (ap_queues (ap_queue ?a p)) ?a = Some []"
      by (auto simp: ap_queue_def q_of_def dict_simps split: option.splits)
    then have put: "ap_put ?a [] (ap_queue ?a p) = ap_queue ?a p" by (simp add: ap_put_def update_triv)
    obtain x n1 where x: "wi_connect E a h pt n = (x, n1)" by fastforce
    show ?thesis
    proof (cases x)
      case (Inl e)
      then show ?thesis using Nil put x by (auto simp: sp_execute_def ap_execute_def lifo_get_def Let_def)
    next
      case (Inr s)
      have s: "live_to E a n1 s ?b" "wi_nodes n1 = wi_nodes n" using wi_connect_live x Inr links by blast+
      have "I (wi_nodes n1)" using assms(2) s(2) by simp
      from first_alike [OF assms(1) this assms(3) s(1), of h pt False "ap_queue ?a p"] show ?thesis
        using Nil put x Inr by (auto simp: sp_execute_def ap_execute_def lifo_get_def Let_def)
    qed
  next
    case (Cons s q)
    have s: "live_to E a n s ?b" using live Cons unfolding idle_live_def addr by simp
    then have "s \<in> set (wi_open n)" by (simp add: live_to_def)
    with first_alike [OF assms(1-3) s, of h pt True "ap_put ?a q (ap_queue ?a p)"] show ?thesis
      using Cons by (auto simp: sp_execute_def ap_execute_def lifo_get_def Let_def)
  qed
qed

section \<open>The asyncio pool\<close>

definition async_ok :: "env \<Rightarrow> NodeInfo \<Rightarrow> (Message \<Rightarrow> byte list) \<Rightarrow> (byte list \<Rightarrow> Message res) \<Rightarrow> int \<Rightarrow> AsyncPool \<times> streams \<Rightarrow> bool" where
  "async_ok E a dumps loads mx w \<longleftrightarrow> stack_ok E a dumps loads mx (sync_of (fst w), fst (snd w)) \<and> snd (snd w) = (\<lambda>s. [])"

abbreviation stream_pool :: "env \<Rightarrow> NodeInfo \<Rightarrow> (Message \<Rightarrow> byte list) \<Rightarrow> (byte list \<Rightarrow> Message res) \<Rightarrow> (AsyncPool \<times> streams) pool_ops" where
  "stream_pool E a dumps loads \<equiv> async_pool_ops (peer_streams E a dumps loads) dumps loads"

interpretation astack: peer_pool E a dumps loads "stream_pool E a dumps loads" "async_ok E a dumps loads mx"
    "\<lambda>w. wi_nodes (fst (snd w))"
  for E a dumps loads mx
proof
  fix M I w m h pt r w'
  assume s: "serving E dumps loads M I" "I (wi_nodes (fst (snd w)))" "M m" "async_ok E a dumps loads mx w"
    and run: "p_exec (stream_pool E a dumps loads) h pt m w = (r, w')"
  obtain p n where w: "w = (p, n, \<lambda>s. [])" and ok: "stack_ok E a dumps loads mx (sync_of p, n)"
    using s(4) by (cases w) (auto simp: async_ok_def)
  have I: "I (wi_nodes n)" using s(2) w by simp
  obtain x p' n' where both: "sp_execute (server_net E a dumps loads) dumps loads h pt m (sync_of p, n) = (x, sync_of p', n')"
    "ap_execute (peer_streams E a dumps loads) dumps loads h pt m (p, n, \<lambda>s. []) = (x, p', n', \<lambda>s. [])"
    using execute_alike [OF s(1) I s(3) ok] by blast
  from execute_live [OF s(1) I s(3) ok both(1)] both(2) run
  show "cluster_exec E a h pt m (wi_nodes (fst (snd w))) = (r, wi_nodes (fst (snd w'))) \<and> I (wi_nodes (fst (snd w')))
      \<and> async_ok E a dumps loads mx w'"
    by (auto simp: async_pool_ops_def async_ok_def w)
qed

text \<open>A write and a delete of an asyncio node over streams do what they do in the cluster model.\<close>

theorem async_stack_refines:
  assumes "async_ok E a dumps loads mx w" and "schedule (length (replica_nodes sha key s)) sched"
  shows "wire_ok dumps loads (set_request key v ttl ts) \<Longrightarrow> wire_ok dumps loads (message OK (PDict [(''key'', PStr key)])) \<Longrightarrow>
      async_node_set (stream_pool E a dumps loads) sha sched now wall ts key v ttl (s, w) = (r, s', w') \<Longrightarrow>
      async_node_set (cluster_pool E a) sha sched now wall ts key v ttl (s, wi_nodes (fst (snd w))) = (r, s', wi_nodes (fst (snd w')))
      \<and> async_ok E a dumps loads mx w'"
    and "wire_ok dumps loads (delete_request key ts) \<Longrightarrow> wire_ok dumps loads (message OK (PDict [(''key'', PStr key)])) \<Longrightarrow>
      wire_ok dumps loads (message NOT_FOUND (PDict [(''key'', PStr key)])) \<Longrightarrow>
      async_node_delete (stream_pool E a dumps loads) sha sched wall ts key (s, w) = (r, s', w') \<Longrightarrow>
      async_node_delete (cluster_pool E a) sha sched wall ts key (s, wi_nodes (fst (snd w))) = (r, s', wi_nodes (fst (snd w')))
      \<and> async_ok E a dumps loads mx w'"
  using astack.async_write_refines [OF assms(1) _ _ assms(2)] astack.async_delete_refines [OF assms(1) _ _ _ assms(2)] by blast+

text \<open>C5.
  An asyncio node that sets a key and reads it back, both times with gathered calls that complete in any
  order, through the asyncio pool, its stream readers and the asyncio servers of the peers, gets the value
  it wrote, when it is itself a replica or one replica runs and can be reached, and the timestamp is newer
  than what the replicas hold. Hypotheses: the pooled connections are live and the codec carries the
  messages of the two calls.
\<close>

theorem async_stack_read_your_writes:
  assumes "async_ok E a dumps loads mx w" and "wi_nodes (fst (snd w)) a = None"
    and "node_ok ((wi_nodes (fst (snd w)))(a \<mapsto> s)) a s" and "n0 \<in> set (replica_nodes sha key s)"
    and "n0 = a \<or> wi_nodes (fst (snd w)) n0 \<noteq> None \<and> e_link E a n0 = Up"
    and "\<forall>n s1 t. ((wi_nodes (fst (snd w)))(a \<mapsto> s)) n = Some s1 \<longrightarrow> lww_stamp (sn_store s1) key = Some t \<longrightarrow> t < ts" and "0 \<le> ts"
    and "\<forall>m \<in> {set_request key v None ts, message OK (PDict [(''key'', PStr key)]), get_request key,
          get_reply key (Some (v, ts, False))}. wire_ok dumps loads m"
    and "replies_ok E dumps loads key (wi_nodes (fst (snd w)))"
    and "schedule (length (replica_nodes sha key s)) sched" and "schedule (length (replica_nodes sha key s)) sched'"
    and "async_node_set (stream_pool E a dumps loads) sha sched (e_now E a) (e_wall E a) ts key v None (s, w) = (r, s1, w1)"
    and "async_node_get (stream_pool E a dumps loads) sha (async_lww_read_resolve sched') (e_now E a) key (s1, w1) = (x, s2, w2)"
  shows "x = v"
  using assms by (rule astack.async_read_your_writes)

section \<open>Witness\<close>

lemma demo_async_ok: "async_ok (demo_env Up) (demo_node 1) dumps loads 2 (ap_init 2, demo_wires, \<lambda>s. [])"
  using demo_stack_ok [of dumps loads] by (simp add: async_ok_def demo_stack_def sync_of_def ap_init_def sp_init_def)

lemma async_stack_read_your_writes_witness:
  "\<exists>r s1 w1 s2 w2. async_node_set (stream_pool (demo_env Up) (demo_node 1) (list_dumps demo_messages) (list_loads demo_messages))
      (\<lambda>s. []) [1, 0] 0 0 5 ''k'' (PInt 7) None (demo_storage 1, ap_init 2, demo_wires, \<lambda>s. []) = (r, s1, w1)
    \<and> async_node_get (stream_pool (demo_env Up) (demo_node 1) (list_dumps demo_messages) (list_loads demo_messages))
      (\<lambda>s. []) (async_lww_read_resolve [0, 1]) 0 ''k'' (s1, w1) = (PInt 7, s2, w2)"
proof -
  let ?P = "stream_pool (demo_env Up) (demo_node 1) (list_dumps demo_messages) (list_loads demo_messages)"
  let ?w = "(ap_init 2, demo_wires, \<lambda>s. []) :: AsyncPool \<times> streams"
  have wires: "fst (snd ?w) = demo_wires" by simp
  obtain r s1 w1 x s2 w2 where run:
    "async_node_set ?P (\<lambda>s. []) [1, 0] (e_now (demo_env Up) (demo_node 1)) (e_wall (demo_env Up) (demo_node 1)) 5 ''k'' (PInt 7) None
      (demo_storage 1, ?w) = (r, s1, w1)"
    "async_node_get ?P (\<lambda>s. []) (async_lww_read_resolve [0, 1]) (e_now (demo_env Up) (demo_node 1)) ''k'' (s1, w1) = (x, s2, w2)"
    by (metis prod.exhaust)
  have sched: "schedule (length (replica_nodes (\<lambda>s. []) ''k'' (demo_storage 1))) [1, 0]"
    "schedule (length (replica_nodes (\<lambda>s. []) ''k'' (demo_storage 1))) [0, 1]"
    by (auto simp: demo_cluster_ok(3) schedule_def)
  from async_stack_read_your_writes [OF demo_async_ok, unfolded wires, OF demo_wires_ok(1-3) disjI1 [OF refl] demo_wires_ok(4) _
      demo_wires_ok(5,6) sched run]
  have x: "x = PInt 7" by simp
  have clocks: "e_now (demo_env Up) (demo_node 1) = 0" "e_wall (demo_env Up) (demo_node 1) = 0" by (simp_all add: demo_env_def)
  show ?thesis using run unfolding clocks x by blast
qed

end
