(* ===== verification/Quickstart.thy ===== *)
theory Quickstart
  imports Cluster_Store Cluster_Gossip
begin

text \<open>
  \<open>examples/quickstart.py\<close>: three asyncio nodes in one process, and what the program prints. The nodes are
  made with the default ring, which is one object for all of them. The gossip tasks run beside the program; the
  purge tasks sleep as long as it runs.
\<close>

section \<open>The nodes\<close>

definition quick_addrs :: "string list" where
  "quick_addrs = [''127.0.0.1:7001'', ''127.0.0.1:7002'', ''127.0.0.1:7003'']"

text \<open>\<open>addr.split(":")[1]\<close>.\<close>

definition second_field :: "string \<Rightarrow> string" where
  "second_field addr = takeWhile (\<lambda>c. c \<noteq> CHR '':'') (tl (dropWhile (\<lambda>c. c \<noteq> CHR '':'') addr))"

definition quick_node :: "string \<Rightarrow> RendezvousRing \<Rightarrow> string \<Rightarrow> StorageNode res" where
  "quick_node local_host ring addr =
     res_bind (static_init (filter (\<lambda>a. a \<noteq> addr) quick_addrs)) (\<lambda>disc.
       res_bind (py_int (second_field addr)) (\<lambda>p. Inr (async_node_init local_host disc None p ring 2)))"

text \<open>The nodes that exist see every change of the ring at once.\<close>

definition share_ring :: "RendezvousRing \<Rightarrow> cluster \<Rightarrow> cluster" where
  "share_ring ring W = (\<lambda>n. map_option (\<lambda>s. s\<lparr>sn_gossip := (sn_gossip s)\<lparr>g_ring := ring\<rparr>\<rparr>) (W n))"

text \<open>
  What happens while the coroutines wait: node \<open>a\<close> sends an announcement or has a gossip exchange, with the
  pieces of \<open>async_node_start\<close>. Whoever changes the ring changes it for all: an announcement is entered by the node that
  gets it, an exchange by the node that began it.
\<close>

fun changed_by :: "NodeInfo list \<Rightarrow> NodeInfo \<times> start_event \<Rightarrow> NodeInfo" where
  "changed_by targets (a, Announce i) = targets ! i"
| "changed_by targets (a, ev) = a"

definition quick_event :: "env \<Rightarrow> NodeInfo list \<Rightarrow> NodeInfo \<times> start_event \<Rightarrow> cluster \<Rightarrow> cluster" where
  "quick_event E targets x W =
     (let W1 = snd (at_node (fst x) (\<lambda>sw. ((), start_event_step (cluster_pool E (fst x)) targets (snd x) sw)) W)
      in case W1 (changed_by targets x) of None \<Rightarrow> W1 | Some s \<Rightarrow> share_ring (sn_ring s) W1)"

text \<open>
  \<open>for node in nodes: await node.start()\<close>. Each start finds its clocks and links and the events until it
  returns: its own announcements and the exchanges of the gossip tasks, its own and those of the nodes started before
  it. The ring is passed from node to node.
\<close>

fun quick_start :: "resolver \<Rightarrow> string \<Rightarrow> (env \<times> (NodeInfo \<times> start_event) list) list \<Rightarrow> string list
    \<Rightarrow> RendezvousRing \<times> cluster \<Rightarrow> (RendezvousRing \<times> cluster) res" where
  "quick_start R local_host es [] rw = Inr rw"
| "quick_start R local_host [] (addr # addrs) rw = Inr rw"
| "quick_start R local_host ((E, events) # es) (addr # addrs) (ring, W) =
     res_bind (quick_node local_host ring addr) (\<lambda>s.
       case async_node_open R (Inr ()) s of
         (Inl e, _) \<Rightarrow> Inl e
       | (Inr _, s1) \<Rightarrow>
          (let W1 = fold (quick_event E (announce_targets s1)) events (share_ring (sn_ring s1) (W(sn_info s1 \<mapsto> s1)));
               ring1 = (case W1 (sn_info s1) of None \<Rightarrow> ring | Some s2 \<Rightarrow> sn_ring s2)
           in quick_start R local_host es addrs (ring1, W1)))"

section \<open>The calls\<close>

definition quick_data :: pyval where
  "quick_data = PDict [(''user'', PStr ''alice''), (''scores'', PList [PInt 10, PInt 20, PInt 30])]"

definition quick_calls :: "(nat \<times> store_call) list" where
  "quick_calls =
    [(0, CSet ''greeting'' (PStr ''hello world'') None), (0, CGet ''greeting''),
     (0, CSet ''counter'' (PInt 42) (Some 10)), (0, CGet ''counter''),
     (0, CSet ''data'' quick_data None), (0, CGet ''data''), (1, CGet ''data''), (2, CGet ''data''),
     (0, CDelete ''greeting''), (0, CGet ''greeting'')]"

text \<open>
  Each call finds its own clocks and links, completion order and \<open>time_ns\<close>; before it the gossip tasks may have had
  exchanges.
\<close>

type_synonym turn = "env \<times> (NodeInfo \<times> start_event) list \<times> nat list \<times> int"

definition quick_requests :: "string \<Rightarrow> turn list \<Rightarrow> ((NodeInfo \<times> start_event) list \<times> request) list" where
  "quick_requests local_host ctx =
     map2 (\<lambda>(E, events, sched, ts) (i, c). (events, \<lparr>rq_env = E, rq_node = \<lparr>host = local_host, port = 7001 + int i\<rparr>,
       rq_async = Some sched, rq_ts = ts, rq_call = c\<rparr>)) ctx quick_calls"

fun quick_run :: "(string \<Rightarrow> byte list) \<Rightarrow> ((NodeInfo \<times> start_event) list \<times> request) list \<Rightarrow> cluster
    \<Rightarrow> store_answer list \<times> cluster" where
  "quick_run sha [] W = ([], W)"
| "quick_run sha ((events, r) # rs) W =
     (case cluster_call sha r (fold (quick_event (rq_env r) []) events W) of
        (x, W1) \<Rightarrow> (case quick_run sha rs W1 of (xs, W2) \<Rightarrow> (x # xs, W2)))"

fun printed :: "store_answer list \<Rightarrow> pyval list" where
  "printed [] = []"
| "printed (AVal v # xs) = v # printed xs"
| "printed (x # xs) = printed xs"

text \<open>\<open>print(primary)\<close>, then the calls; \<open>now\<close> is the clock of the primary when its keys are counted.\<close>

definition primary_line :: "rat \<Rightarrow> StorageNode option \<Rightarrow> pyval list" where
  "primary_line now s = (case s of None \<Rightarrow> [] | Some s \<Rightarrow> [PStr (async_node_repr now s)])"

definition quickstart :: "(string \<Rightarrow> byte list) \<Rightarrow> resolver \<Rightarrow> string \<Rightarrow> (env \<times> (NodeInfo \<times> start_event) list) list \<Rightarrow> rat
    \<Rightarrow> turn list \<Rightarrow> pyval list res" where
  "quickstart sha R local_host starts now ctx =
     res_bind (quick_start R local_host starts quick_addrs (rr_init, \<lambda>n. None)) (\<lambda>(ring, W).
       Inr (primary_line now (W \<lparr>host = local_host, port = 7001\<rparr>)
         @ printed (fst (quick_run sha (quick_requests local_host ctx) W))))"

section \<open>The nodes the addresses give\<close>

definition quick_info :: "nat \<Rightarrow> NodeInfo" where
  "quick_info i = \<lparr>host = ''127.0.0.1'', port = 7001 + int i\<rparr>"

lemma quick_info_eq [simp]: "quick_info i = quick_info j \<longleftrightarrow> i = j"
  by (simp add: quick_info_def)

lemma quick_infos:
  "\<lparr>host = ''127.0.0.1'', port = 7001\<rparr> = quick_info 0" "\<lparr>host = ''127.0.0.1'', port = 7002\<rparr> = quick_info 1"
  "\<lparr>host = ''127.0.0.1'', port = 7003\<rparr> = quick_info 2"
  by (simp_all add: quick_info_def)

lemma quick_addresses:
  "node_address (quick_info 0) = ''127.0.0.1:7001''" "node_address (quick_info 1) = ''127.0.0.1:7002''"
  "node_address (quick_info 2) = ''127.0.0.1:7003''"
  by (simp_all add: node_address_def quick_info_def py_str_int_def nat_str.simps digit_char_def char_of_def bit_Suc_0_iff)

lemma second_field_address: "second_field (node_address (quick_info i)) = py_str_int (7001 + int i)"
proof -
  have "second_field (''127.0.0.1:'' @ ys) = takeWhile (\<lambda>c. c \<noteq> CHR '':'') ys" for ys by (simp add: second_field_def)
  moreover have "c \<in> set (py_str_int (7001 + int i)) \<Longrightarrow> c \<noteq> CHR '':''" for c using py_str_int_no_colon by metis
  ultimately show ?thesis by (simp add: node_address_def quick_info_def takeWhile_eq_all_conv)
qed

lemma quick_node_address:
  assumes "filter (\<lambda>a. a \<noteq> node_address (quick_info i)) quick_addrs = [node_address (quick_info j), node_address (quick_info k)]"
  shows "quick_node h ring (node_address (quick_info i)) =
    Inr (async_node_init h (StaticDiscovery [quick_info j, quick_info k]) None (7001 + int i) ring 2)"
  by (simp add: quick_node_def assms static_init_def node_from_address_address second_field_address py_int_str)

definition quick_made :: "RendezvousRing \<Rightarrow> nat \<Rightarrow> nat \<Rightarrow> nat \<Rightarrow> StorageNode" where
  "quick_made ring i j k = \<lparr>sn_gossip = \<lparr>g_info = quick_info i, g_ring = ring, g_disc = StaticDiscovery [quick_info j, quick_info k]\<rparr>,
     sn_store = lww_init, sn_replication = 2\<rparr>"

lemma quick_made_node:
  "quick_node ''127.0.0.1'' ring ''127.0.0.1:7001'' = Inr (quick_made ring 0 1 2)"
  "quick_node ''127.0.0.1'' ring ''127.0.0.1:7002'' = Inr (quick_made ring 1 0 2)"
  "quick_node ''127.0.0.1'' ring ''127.0.0.1:7003'' = Inr (quick_made ring 2 0 1)"
proof -
  have made: "async_node_init ''127.0.0.1'' (StaticDiscovery [quick_info j, quick_info k]) None (7001 + int i) ring 2 =
      quick_made ring i j k" for i j k
    by (simp add: async_node_init_def node_init_def quick_made_def quick_info_def)
  have
    "filter (\<lambda>a. a \<noteq> node_address (quick_info 0)) quick_addrs = [node_address (quick_info 1), node_address (quick_info 2)]"
    "filter (\<lambda>a. a \<noteq> node_address (quick_info 1)) quick_addrs = [node_address (quick_info 0), node_address (quick_info 2)]"
    "filter (\<lambda>a. a \<noteq> node_address (quick_info 2)) quick_addrs = [node_address (quick_info 0), node_address (quick_info 1)]"
    unfolding quick_addresses by (simp_all add: quick_addrs_def)
  from this [THEN quick_node_address, of "''127.0.0.1''" ring, unfolded made] show
    "quick_node ''127.0.0.1'' ring ''127.0.0.1:7001'' = Inr (quick_made ring 0 1 2)"
    "quick_node ''127.0.0.1'' ring ''127.0.0.1:7002'' = Inr (quick_made ring 1 0 2)"
    "quick_node ''127.0.0.1'' ring ''127.0.0.1:7003'' = Inr (quick_made ring 2 0 1)"
    unfolding quick_addresses .
qed

section \<open>The shared ring\<close>

abbreviation quick_all :: "NodeInfo set" where
  "quick_all \<equiv> {quick_info 0, quick_info 1, quick_info 2}"

text \<open>The nodes that run have the one ring, and it has them.\<close>

definition quick_up :: "RendezvousRing \<Rightarrow> cluster \<Rightarrow> bool" where
  "quick_up ring W \<longleftrightarrow> rr_wf ring \<and> set (rr_nodes ring) \<subseteq> quick_all \<and> dom W \<subseteq> set (rr_nodes ring)
     \<and> (\<forall>n s. W n = Some s \<longrightarrow> sn_info s = n \<and> sn_ring s = ring \<and> (\<exists>ps. g_disc (sn_gossip s) = StaticDiscovery ps)
          \<and> sn_replication s = 2)"

definition fresh_stores :: "cluster \<Rightarrow> bool" where
  "fresh_stores W \<longleftrightarrow> (\<forall>n s. W n = Some s \<longrightarrow> sn_store s = lww_init)"

lemma quick_upD:
  assumes "quick_up ring W" and "W n = Some s"
  shows "sn_info s = n" "sn_ring s = ring" "\<exists>ps. g_disc (sn_gossip s) = StaticDiscovery ps" "sn_replication s = 2"
    "n \<in> set (rr_nodes ring)"
  using assms unfolding quick_up_def by blast+

lemma share_ring_simps [simp]:
  "share_ring r (share_ring r' W) = share_ring r W" "dom (share_ring r W) = dom W"
  "(share_ring r W n = None) = (W n = None)" "fresh_stores W \<Longrightarrow> fresh_stores (share_ring r W)"
  by (auto simp: share_ring_def fun_eq_iff option.map_comp comp_def fresh_stores_def dom_def)

lemma share_same:
  assumes "quick_up ring W"
  shows "share_ring ring W = W"
proof
  fix n
  show "share_ring ring W n = W n" using quick_upD [OF assms, of n] by (cases "W n") (auto simp: share_ring_def)
qed

lemma quick_up_share:
  assumes "quick_up ring W" and "rr_wf ring'" and "set (rr_nodes ring') \<subseteq> quick_all" and "dom W \<subseteq> set (rr_nodes ring')"
  shows "quick_up ring' (share_ring ring' W)"
  using assms unfolding quick_up_def by (auto simp: share_ring_def)

text \<open>An exchange with a node that runs teaches nothing; one with a node that does not takes it out of the ring.\<close>

lemma merge_known:
  "set ns \<subseteq> known \<Longrightarrow> merge_peers known (map node_to_dict ns) g = (Inr (), g)"
  by (induction ns) (auto simp: node_from_dict_to_dict)

lemma exchange_known:
  assumes "answers E a W b" and "view W b \<subseteq> members g"
  shows "gossip_with (cluster_pool E a) b (g, W) = (g, W)"
proof -
  obtain ns where "cluster_exec E a (host b) (port b) (peer_list_request (g_info g)) W =
      (Inr (Some (message PEER_LIST (PDict [(''peers'', PList (map node_to_dict ns))]))), W)" "set ns \<subseteq> members g"
    using peer_list_answer [OF assms(1), of "g_info g"] assms(2) by blast
  then show ?thesis
    by (simp add: gossip_with_def cluster_pool_def merge_reply_def merge_known members_def)
qed

lemma exchange_dead:
  assumes "W b = None" and "g_disc g = StaticDiscovery ps"
  shows "gossip_with (cluster_pool E a) b (g, W) = (g\<lparr>g_ring := rr_remove b (g_ring g)\<rparr>, W)"
  using assms by (simp add: gossip_with_def cluster_pool_def cluster_exec_def evict_def gossip_remove_def)

text \<open>Which events: announcements, and exchanges with somebody else.\<close>

fun quick_event_ok :: "NodeInfo \<times> start_event \<Rightarrow> bool" where
  "quick_event_ok (a, Announce i) = True"
| "quick_event_ok (a, Exchange n) = (n \<noteq> a)"
| "quick_event_ok (a, ev) = False"

lemma quick_event_share:
  assumes "quick_up ring W" and "healthy E" and "quick_event_ok x"
  shows "\<exists>ring'. quick_event E targets x W = share_ring ring' W \<and> quick_up ring' (share_ring ring' W)
    \<and> (ring' = ring \<or> (\<exists>n. W n = None \<and> ring' = rr_remove n ring))"
proof -
  have same: ?thesis if "quick_event E targets x W = W"
    using that assms(1) share_same [OF assms(1)] by (intro exI [of _ ring]) simp
  have shared: "(case W n of None \<Rightarrow> W | Some s \<Rightarrow> share_ring (sn_ring s) W) = W" for n
    using share_same [OF assms(1)] quick_upD(2) [OF assms(1), of n] by (cases "W n") auto
  obtain a ev where x: "x = (a, ev)" by fastforce
  show ?thesis
  proof (cases "W a")
    case None
    then show ?thesis using shared by (intro same) (simp add: quick_event_def x at_node_def Let_def)
  next
    case (Some s)
    note s = quick_upD [OF assms(1) Some]
    let ?W = "W(a := None)"
    have again: "W(a \<mapsto> s) = W" using Some by auto
    show ?thesis
    proof (cases ev)
      case (Announce i)
      have "map_option (joined a) (?W (targets ! i)) = ?W (targets ! i)"
      proof (cases "?W (targets ! i)")
        case (Some s')
        then have "a \<in> members (sn_gossip s')"
          using s(5) quick_upD(2) [OF assms(1), of "targets ! i" s'] by (auto simp: members_def split: if_splits)
        then show ?thesis using Some by (simp add: joined_def)
      qed simp
      then have "?W(targets ! i := map_option (joined a) (?W (targets ! i))) = ?W" by (simp only: fun_upd_triv)
      then have "start_event_step (cluster_pool E a) targets ev (s, ?W) = (s, ?W)"
        using assms(2) s(1) by (simp add: Announce cluster_pool_def cluster_exec_join healthy_def)
      then show ?thesis using Some shared by (intro same) (simp add: quick_event_def x at_node_def again)
    next
      case (Exchange n)
      have n: "n \<noteq> a" using assms(3) by (simp add: x Exchange)
      show ?thesis
      proof (cases "W n")
        case (Some sn)
        have "answers E a ?W n" "view ?W n \<subseteq> members (sn_gossip s)"
          using Some n s(2) assms(2) quick_upD [OF assms(1) Some]
          by (auto simp: answers_def healthy_def view_def members_def)
        then have "start_event_step (cluster_pool E a) targets ev (s, ?W) = (s, ?W)"
          using exchange_known by (simp add: Exchange async_gossip_with_def)
        then show ?thesis using \<open>W a = Some s\<close> shared
          by (intro same) (simp add: quick_event_def x at_node_def again)
      next
        case None
        let ?r = "rr_remove n ring" and ?s = "s\<lparr>sn_gossip := (sn_gossip s)\<lparr>g_ring := rr_remove n ring\<rparr>\<rparr>"
        obtain ps where "g_disc (sn_gossip s) = StaticDiscovery ps" using s(3) by blast
        then have "start_event_step (cluster_pool E a) targets ev (s, ?W) = (?s, ?W)"
          using exchange_dead [of ?W n "sn_gossip s" ps E a] None n s(2) by (simp add: Exchange async_gossip_with_def)
        then have "quick_event E targets x W = share_ring ?r (W(a \<mapsto> ?s))"
          using Some by (simp add: quick_event_def x Exchange at_node_def)
        also have "\<dots> = share_ring ?r W" using Some by (auto simp: share_ring_def fun_eq_iff)
        finally have eq: "quick_event E targets x W = share_ring ?r W" .
        have wf: "rr_wf ?r" "set (rr_nodes ?r) = set (rr_nodes ring) - {n}"
          using assms(1) rr.invar_remove rr.members_remove by (auto simp: quick_up_def)
        have "quick_up ?r (share_ring ?r W)"
          using assms(1) wf None by (intro quick_up_share [OF assms(1)]) (auto simp: quick_up_def)
        with eq None show ?thesis by blast
      qed
    qed (use assms(3) in \<open>simp_all add: x\<close>)
  qed
qed

lemma quick_events_share:
  assumes "quick_up ring W" and "healthy E" and "\<forall>x \<in> set events. quick_event_ok x"
  shows "\<exists>ring'. fold (quick_event E targets) events W = share_ring ring' W \<and> quick_up ring' (share_ring ring' W)"
  using assms(1,3)
proof (induction events arbitrary: ring W)
  case Nil
  then show ?case using share_same by (intro exI [of _ ring]) simp
next
  case (Cons x events)
  obtain r where r: "quick_event E targets x W = share_ring r W" "quick_up r (share_ring r W)"
    using quick_event_share [OF Cons.prems(1) assms(2), of x targets] Cons.prems(2) by auto
  from Cons.IH [OF r(2)] Cons.prems(2) r(1) show ?case by auto
qed

text \<open>When all three run, nothing changes any more.\<close>

lemma quick_event_all:
  assumes "quick_up ring W" and "dom W = quick_all" and "healthy E" and "quick_event_ok x"
  shows "quick_event E targets x W = W"
proof -
  obtain r where r: "quick_event E targets x W = share_ring r W" "r = ring \<or> (\<exists>n. W n = None \<and> r = rr_remove n ring)"
    using quick_event_share [OF assms(1,3,4), of targets] by blast
  have "rr_remove n ring = ring" if "W n = None" for n
  proof -
    have "n \<notin> quick_all" using assms(2) that by (metis domIff)
    then have "n \<notin> set (rr_nodes ring)" using assms(1) unfolding quick_up_def by blast
    then show ?thesis by (simp add: rr_remove_def)
  qed
  then show ?thesis using r share_same [OF assms(1)] by auto
qed

lemma quick_events_all:
  assumes "quick_up ring W" and "dom W = quick_all" and "healthy E" and "\<forall>x \<in> set events. quick_event_ok x"
  shows "fold (quick_event E targets) events W = W"
  using assms(4) by (induction events) (simp_all add: quick_event_all [OF assms(1-3)])

section \<open>The start\<close>

text \<open>Whatever the ring was, the bootstrap and \<open>ring.add\<close> of a node put all three nodes into it.\<close>

lemma quick_opens:
  assumes "rr_wf ring" and "set (rr_nodes ring) \<subseteq> quick_all" and ijk: "(i, j, k) \<in> {(0, 1, 2), (1, 0, 2), (2, 0, 1)}"
  shows "\<exists>ring'. async_node_open R (Inr ()) (quick_made ring i j k) = (Inr (), quick_made ring' i j k)
    \<and> rr_wf ring' \<and> set (rr_nodes ring') = quick_all"
proof -
  let ?r = "fold rr_add [quick_info j, quick_info k] ring"
  have wf: "rr_wf ?r" "set (rr_nodes ?r) = {quick_info j, quick_info k} \<union> set (rr_nodes ring)"
    using rr.fold_add [OF assms(1), of "[quick_info j, quick_info k]"] by simp_all
  then have "rr_wf (rr_add (quick_info i) ?r)" "set (rr_nodes (rr_add (quick_info i) ?r)) = quick_all"
    using rr.invar_add rr.members_add [OF wf(1)] assms(2) ijk by auto
  moreover have "async_node_open R (Inr ()) (quick_made ring i j k) = (Inr (), quick_made (rr_add (quick_info i) ?r) i j k)"
    by (simp add: async_node_open_def async_node_bootstrap_def node_bootstrap_def node_join_ring_def quick_made_def)
  ultimately show ?thesis by blast
qed

lemma quick_start_step:
  assumes node: "quick_node h ring addr = Inr (quick_made ring i j k)"
    and "quick_up ring W" and "fresh_stores W" and ijk: "(i, j, k) \<in> {(0, 1, 2), (1, 0, 2), (2, 0, 1)}"
    and "healthy E" and "\<forall>x \<in> set events. quick_event_ok x"
  shows "\<exists>ring1 W1. quick_start R h ((E, events) # es) (addr # addrs) (ring, W) = quick_start R h es addrs (ring1, W1)
    \<and> quick_up ring1 W1 \<and> fresh_stores W1 \<and> dom W1 = insert (quick_info i) (dom W)"
proof -
  obtain r where r: "async_node_open R (Inr ()) (quick_made ring i j k) = (Inr (), quick_made r i j k)"
    "rr_wf r" "set (rr_nodes r) = quick_all"
    using quick_opens [OF _ _ ijk] assms(2) unfolding quick_up_def by blast
  let ?s = "quick_made r i j k" and ?W = "share_ring r (W(quick_info i \<mapsto> quick_made r i j k))"
  have s: "sn_info ?s = quick_info i" "sn_ring ?s = r" by (simp_all add: quick_made_def)
  have dom: "dom W \<subseteq> quick_all" using assms(2) unfolding quick_up_def by blast
  have "dom ?W \<subseteq> quick_all" using dom ijk by auto
  then have up: "quick_up r ?W"
    using assms(2) r(2,3) by (auto simp: quick_up_def share_ring_def quick_made_def)
  have "fresh_stores (W(quick_info i \<mapsto> quick_made r i j k))"
    using assms(3) by (auto simp: fresh_stores_def quick_made_def)
  then have fresh: "fresh_stores (share_ring ring1 ?W)" for ring1 by simp
  obtain ring1 where e: "fold (quick_event E (announce_targets ?s)) events ?W = share_ring ring1 ?W"
    "quick_up ring1 (share_ring ring1 ?W)" using quick_events_share [OF up assms(5,6)] by blast
  obtain s2 where s2: "share_ring ring1 ?W (quick_info i) = Some s2" by (simp add: share_ring_def)
  have "sn_ring s2 = ring1" using quick_upD(2) [OF e(2) s2] .
  then have "quick_start R h ((E, events) # es) (addr # addrs) (ring, W) =
      quick_start R h es addrs (ring1, share_ring ring1 ?W)"
    using node r(1) e(1) s s2 by (simp add: Let_def)
  moreover have "dom (share_ring ring1 ?W) = insert (quick_info i) (dom W)" by simp
  ultimately show ?thesis using e(2) fresh by blast
qed

lemma quick_start_all:
  assumes "\<forall>(E, events) \<in> set es. healthy E \<and> (\<forall>x \<in> set events. quick_event_ok x)" and "length es = 3"
  shows "\<exists>ring W. quick_start R ''127.0.0.1'' es quick_addrs (rr_init, \<lambda>n. None) = Inr (ring, W)
    \<and> quick_up ring W \<and> fresh_stores W \<and> dom W = quick_all"
proof -
  obtain E1 s1 E2 s2 E3 s3 where es: "es = [(E1, s1), (E2, s2), (E3, s3)]"
    using assms(2) by (auto simp: length_Suc_conv numeral_3_eq_3)
  have ok: "healthy E1" "\<forall>x \<in> set s1. quick_event_ok x" "healthy E2" "\<forall>x \<in> set s2. quick_event_ok x"
    "healthy E3" "\<forall>x \<in> set s3. quick_event_ok x" using assms(1) es by auto
  have start: "quick_up rr_init (\<lambda>n. None)" "fresh_stores (\<lambda>n. None)"
    by (auto simp: quick_up_def fresh_stores_def rr_init_def rr_wf_def)
  obtain r1 W1 where 1: "quick_start R ''127.0.0.1'' es quick_addrs (rr_init, \<lambda>n. None) =
      quick_start R ''127.0.0.1'' [(E2, s2), (E3, s3)] [''127.0.0.1:7002'', ''127.0.0.1:7003''] (r1, W1)"
    "quick_up r1 W1" "fresh_stores W1" "dom W1 = {quick_info 0}"
    using quick_start_step [OF quick_made_node(1) start _ ok(1,2), of R "[(E2, s2), (E3, s3)]" "[''127.0.0.1:7002'', ''127.0.0.1:7003'']"]
    by (auto simp: es quick_addrs_def simp del: quick_start.simps)
  obtain r2 W2 where 2: "quick_start R ''127.0.0.1'' [(E2, s2), (E3, s3)] [''127.0.0.1:7002'', ''127.0.0.1:7003''] (r1, W1) =
      quick_start R ''127.0.0.1'' [(E3, s3)] [''127.0.0.1:7003''] (r2, W2)"
    "quick_up r2 W2" "fresh_stores W2" "dom W2 = {quick_info 0, quick_info 1}"
    using quick_start_step [OF quick_made_node(2) 1(2,3) _ ok(3,4), of R "[(E3, s3)]" "[''127.0.0.1:7003'']"] 1(4)
    by (auto simp: insert_commute simp del: quick_start.simps)
  obtain r3 W3 where 3: "quick_start R ''127.0.0.1'' [(E3, s3)] [''127.0.0.1:7003''] (r2, W2) = Inr (r3, W3)"
    "quick_up r3 W3" "fresh_stores W3" "dom W3 = quick_all"
    using quick_start_step [OF quick_made_node(3) 2(2,3) _ ok(5,6), of R "[]" "[]"] 2(4)
    by (auto simp: insert_commute)
  from 1(1) 2(1) 3 show ?thesis by auto
qed

section \<open>What it prints\<close>

definition quick_reps :: "(string \<Rightarrow> byte list) \<Rightarrow> RendezvousRing \<Rightarrow> string \<Rightarrow> NodeInfo list" where
  "quick_reps sha ring key = rr_get_nodes sha key 2 ring"

lemma quick_ring_length:
  assumes "quick_up ring W" and "dom W = quick_all"
  shows "length (rr_nodes ring) = 3"
proof -
  have "distinct (rr_nodes ring)" "set (rr_nodes ring) = quick_all"
    using assms by (auto simp: quick_up_def rr_wf_def)
  then show ?thesis using distinct_card [of "rr_nodes ring"] by simp
qed

lemma quick_reps_length:
  assumes "quick_up ring W" and "dom W = quick_all"
  shows "length (quick_reps sha ring key) = 2"
  using rr.get_nodes_length [of 2 sha key ring] quick_ring_length [OF assms] by (simp add: quick_reps_def)

lemma quick_agreed:
  assumes "quick_up ring W" and "dom W = quick_all"
  shows "agreed sha (quick_reps sha ring) W"
proof -
  have "quick_reps sha ring key \<noteq> []" for key using quick_reps_length [OF assms, of sha key] by auto
  moreover have "W n \<noteq> None" if "n \<in> set (quick_reps sha ring key)" for n key
  proof -
    have "n \<in> quick_all"
      using that rr.get_nodes_members [of sha key 2 ring] assms(1) by (auto simp: quick_reps_def quick_up_def)
    then show ?thesis using assms(2) by blast
  qed
  moreover have "node_ok W a s \<and> (\<forall>key. replica_nodes sha key s = quick_reps sha ring key)" if "W a = Some s" for a s
    using quick_upD [OF assms(1) that] that assms(1)
    by (simp add: node_ok_def quick_up_def replica_nodes_def quick_reps_def)
  ultimately show ?thesis unfolding agreed_def by blast
qed

text \<open>A call changes the stores only.\<close>

lemma quick_up_upd: "quick_up ring W \<Longrightarrow> quick_up ring (upd_stores E a F N W)"
  unfolding quick_up_def by (auto simp: upd_stores_def dom_def split: if_splits)

lemma quick_run_requests:
  assumes "one_store sha (quick_reps sha ring) latest W l" and "quick_up ring W" and "dom W = quick_all"
    and "\<forall>(events, r) \<in> set rs. request_ok (quick_reps sha ring) W r \<and> (\<forall>x \<in> set events. quick_event_ok x)"
    and "sorted (map rq_ts (map snd rs))" and "\<forall>(events, r) \<in> set rs. latest \<le> rq_ts r \<and> 0 \<le> rq_ts r"
  shows "quick_run sha rs W = run_requests sha (map snd rs) W"
  using assms
proof (induction rs arbitrary: latest W l)
  case (Cons x rs)
  obtain events r where x: "x = (events, r)" by fastforce
  have r: "request_ok (quick_reps sha ring) W r" "latest \<le> rq_ts r" "0 \<le> rq_ts r" "\<forall>x \<in> set events. quick_event_ok x"
    using Cons.prems(4,6) by (auto simp: x)
  have "healthy (rq_env r)" using r(1) by (simp add: request_ok_def)
  note none = quick_events_all [OF Cons.prems(2,3) this r(4)]
  let ?W = "snd (cluster_call sha r W)"
  obtain F N where step: "one_store sha (quick_reps sha ring) (rq_ts r) ?W (snd (plain_call r l))" "dom ?W = dom W"
    "?W = upd_stores (rq_env r) (rq_node r) F N W"
    using request_step [OF Cons.prems(1) r(1-3)] by blast
  have up: "quick_up ring ?W" using quick_up_upd [OF Cons.prems(2)] step(3) by simp
  have "\<forall>(events, r) \<in> set rs. request_ok (quick_reps sha ring) ?W r \<and> (\<forall>x \<in> set events. quick_event_ok x)"
    using Cons.prems(4) step(2) by (auto simp: request_ok_def dom_def)
  from Cons.IH [OF step(1) up _ this] Cons.prems(3,5,6) step(2) none
  show ?case by (auto simp: x case_prod_beta)
qed simp

text \<open>The context of a call: the clocks and links, the exchanges before it, the order in which its requests complete, \<open>time_ns\<close>.\<close>

definition quick_ctx_ok :: "turn \<Rightarrow> bool" where
  "quick_ctx_ok c = (case c of (E, events, sched, ts) \<Rightarrow>
     healthy E \<and> (\<forall>x \<in> set events. quick_event_ok x) \<and> schedule 2 sched \<and> 0 \<le> ts)"

lemma quick_requests_ok:
  assumes "\<forall>c \<in> set ctx. quick_ctx_ok c" and "quick_up ring W" and "dom W = quick_all"
  shows "\<forall>(events, r) \<in> set (quick_requests ''127.0.0.1'' ctx).
    (request_ok (quick_reps sha ring) W r \<and> 0 \<le> rq_ts r) \<and> (\<forall>x \<in> set events. quick_event_ok x)"
proof safe
  fix events r
  assume "(events, r) \<in> set (quick_requests ''127.0.0.1'' ctx)"
  then obtain E sched ts i c where r: "((E, events, sched, ts), (i, c)) \<in> set (zip ctx quick_calls)"
    "r = \<lparr>rq_env = E, rq_node = \<lparr>host = ''127.0.0.1'', port = 7001 + int i\<rparr>, rq_async = Some sched, rq_ts = ts, rq_call = c\<rparr>"
    by (auto simp: quick_requests_def)
  have ok: "quick_ctx_ok (E, events, sched, ts)" using assms(1) r(1) by (blast dest: set_zip_leftD)
  have "(i, c) \<in> set quick_calls" using r(1) by (rule set_zip_rightD)
  then have ic: "i \<in> {0, 1, 2}" "\<exists>k. call_key c = Some k" by (auto simp: quick_calls_def)
  have "quick_info i \<in> quick_all" using ic(1) by auto
  then have "W (rq_node r) \<noteq> None" using assms(3) r(2) by (auto simp: quick_info_def)
  then show "request_ok (quick_reps sha ring) W r"
    using ok r(2) ic(2) quick_reps_length [OF assms(2,3)] by (simp add: request_ok_def quick_ctx_ok_def)
  show "0 \<le> rq_ts r" "\<And>a b. (a, b) \<in> set events \<Longrightarrow> quick_event_ok (a, b)"
    using ok r(2) by (auto simp: quick_ctx_ok_def)
qed

text \<open>The same calls of one plain store.\<close>

lemma quick_plain:
  assumes "n3 \<le> n2 + 10"
  shows "fst (run_calls basic_call
     [(n0, t0, CSet ''greeting'' (PStr ''hello world'') None), (n1, t1, CGet ''greeting''),
      (n2, t2, CSet ''counter'' (PInt 42) (Some 10)), (n3, t3, CGet ''counter''),
      (n4, t4, CSet ''data'' quick_data None), (n5, t5, CGet ''data''), (n6, t6, CGet ''data''), (n7, t7, CGet ''data''),
      (n8, t8, CDelete ''greeting''), (n9, t9, CGet ''greeting'')] ls_init)
   = [ABool True, AVal (PStr ''hello world''), ABool True, AVal (PInt 42), ABool True, AVal quick_data, AVal quick_data,
      AVal quick_data, ABool True, AVal PNone]"
  using assms by (simp add: ls_set_def ls_get_def ls_delete_def ls_init_def expiry_def Let_def overdue_def)

lemma quick_primary:
  assumes "quick_up ring W" and "dom W = quick_all" and "fresh_stores W"
  shows "primary_line now (W \<lparr>host = ''127.0.0.1'', port = 7001\<rparr>) = [PStr ''StorageNode(127.0.0.1:7001, peers=2, keys=0)'']"
proof -
  obtain s where s: "W (quick_info 0) = Some s" using assms(2) by blast
  have "sn_store s = lww_init" using assms(3) s by (auto simp: fresh_stores_def)
  moreover have "lww_len now lww_init = 0" by (simp add: lww_len_def lww_keys_def lww_init_def)
  moreover have "py_str_int 2 = ''2''" "py_str_int 0 = ''0''"
    by (simp_all add: py_str_int_def nat_str.simps digit_char_def char_of_def bit_Suc_0_iff)
  moreover have "int (rr_len ring) - 1 = 2" using quick_ring_length [OF assms(1,2)] by (simp add: rr_len_def)
  ultimately show ?thesis
    using s quick_upD(1,2) [OF assms(1) s]
    unfolding quick_infos by (simp add: primary_line_def async_node_repr_def repr_tail_def quick_addresses)
qed

text \<open>C32.
  The quick start prints what its comments say, and no call fails: the primary with its two peers, the greeting, the
  counter, the data from each of the three nodes, and \<open>None\<close> after the delete. It does so although the first gossip
  round of a node takes the nodes that are not up yet out of the ring they share: the start of the last node puts them back.
  It holds whichever nodes the hash gives the keys, whatever announcements and exchanges happen during the starts and
  between the calls, in whichever order the calls to the replicas complete. Hypotheses: the links
  are up, the nodes share the clock of the machine, it does not go back, the host name resolves to
  127.0.0.1, the counter is read within its ten seconds; an exchange or a call is one step, so a connection refused before
  the last node listens has ended before that node starts, and the purge tasks still sleep their first ten seconds.
\<close>

theorem quickstart_prints:
  assumes "length starts = 3" and "\<forall>(E, events) \<in> set starts. healthy E \<and> (\<forall>x \<in> set events. quick_event_ok x)"
    and "length ctx = 10" and "\<forall>c \<in> set ctx. quick_ctx_ok c" and "sorted (map (\<lambda>(E, events, sched, ts). ts) ctx)"
    and "e_now (fst (ctx ! 3)) (quick_info 0) \<le> e_now (fst (ctx ! 2)) (quick_info 0) + 10"
  shows "quickstart sha R ''127.0.0.1'' starts now ctx =
    Inr [PStr ''StorageNode(127.0.0.1:7001, peers=2, keys=0)'', PStr ''hello world'', PInt 42,
      quick_data, quick_data, quick_data, PNone]"
proof -
  obtain ring W where W: "quick_start R ''127.0.0.1'' starts quick_addrs (rr_init, \<lambda>n. None) = Inr (ring, W)"
    "quick_up ring W" "fresh_stores W" "dom W = quick_all" using quick_start_all [OF assms(2,1)] by blast
  obtain c0 c1 c2 c3 c4 c5 c6 c7 c8 c9 where ctx: "ctx = [c0, c1, c2, c3, c4, c5, c6, c7, c8, c9]"
    using assms(3) by (auto simp: length_Suc_conv eval_nat_numeral)
  let ?qs = "quick_requests ''127.0.0.1'' ctx" and ?now = "\<lambda>r. e_now (rq_env r) (rq_node r)"
  have ts: "sorted (map rq_ts (map snd ?qs))"
    using assms(5) by (simp add: ctx quick_requests_def quick_calls_def case_prod_beta)
  note ok = quick_requests_ok [OF assms(4) W(2,4), of sha]
  note ag = quick_agreed [OF W(2,4), of sha] and fresh = W(3) [unfolded fresh_stores_def]
  have "quick_run sha ?qs W = run_requests sha (map snd ?qs) W"
    using ok by (intro quick_run_requests [OF one_store_init [OF ag fresh] W(2,4) _ ts]) auto
  moreover have "fst (run_requests sha (map snd ?qs) W) =
      fst (run_calls basic_call (map (\<lambda>r. (?now r, rq_ts r, rq_call r)) (map snd ?qs)) ls_init)"
    using ok by (intro requests_run_init [OF ag fresh _ ts]) auto
  moreover have "map (\<lambda>r. (?now r, rq_ts r, rq_call r)) (map snd ?qs) =
      map2 (\<lambda>(E, events, sched, ts) (i, c). (e_now E (quick_info i), ts, c)) ctx quick_calls"
    by (simp add: quick_requests_def quick_info_def comp_def case_prod_beta)
  ultimately have "fst (quick_run sha ?qs W) =
     [ABool True, AVal (PStr ''hello world''), ABool True, AVal (PInt 42), ABool True, AVal quick_data, AVal quick_data,
      AVal quick_data, ABool True, AVal PNone]"
    using quick_plain assms(6) by (simp add: ctx quick_calls_def case_prod_beta)
  then show ?thesis
    using quick_primary [OF W(2,4,3), of now] by (simp add: quickstart_def W(1))
qed

section \<open>Witness\<close>

text \<open>The first two nodes evict those that are not up yet.\<close>

definition quick_events :: "(NodeInfo \<times> start_event) list list" where
  "quick_events =
    [[(quick_info 0, Exchange (quick_info 1)), (quick_info 0, Exchange (quick_info 2)), (quick_info 0, Announce 0), (quick_info 0, Announce 1)],
     [(quick_info 1, Exchange (quick_info 2)), (quick_info 1, Announce 1), (quick_info 1, Exchange (quick_info 0)), (quick_info 1, Announce 0)],
     [(quick_info 2, Exchange (quick_info 0)), (quick_info 2, Announce 0), (quick_info 2, Announce 1)]]"

lemma quickstart_prints_witness:
  "quickstart (\<lambda>s. [1]) \<lparr>getaddrinfo = \<lambda>h p. Inr [], srv = \<lambda>d. Inr []\<rparr> ''127.0.0.1'' (map (Pair (demo_env Up)) quick_events)
     0 (map (\<lambda>i. (demo_env Up, [(quick_info 1, Exchange (quick_info 0))], [0, 1], i)) [0..9])
   = Inr [PStr ''StorageNode(127.0.0.1:7001, peers=2, keys=0)'', PStr ''hello world'', PInt 42,
       quick_data, quick_data, quick_data, PNone]"
proof -
  have "quick_ctx_ok (demo_env Up, [(quick_info 1, Exchange (quick_info 0))], [0, 1], i)" if "0 \<le> i" for i
    using that by (auto simp: quick_ctx_ok_def healthy_def demo_env_def schedule_def)
  then show ?thesis
    by (intro quickstart_prints) (auto simp: quick_events_def healthy_def demo_env_def comp_def)
qed

end
