(* ===== verification/Load.thy ===== *)
theory Load
  imports Cluster_Store
begin

text \<open>
  The load generators of \<open>profilers/\<close> and \<open>benchmarks/\<close>: worker coroutines that share a counter, worker
  threads that take every n-th index, the slices of the processes, and the figures they report. Floats of
  the figures are rationals.
\<close>

section \<open>Worker coroutines\<close>

text \<open>
  \<open>worker\<close> of \<open>_bench_coro\<close> (\<open>profilers/async.py\<close>) and of \<open>async_run_phase\<close>
  (\<open>benchmarks/framework.py\<close>): a coroutine that runs, suspended at an await of index \<open>i\<close> with the calls
  of \<open>i\<close> that are left, or one that has returned. The log holds the calls in the order they are made.
\<close>

datatype 'c worker = Working nat "'c list" | Finished

record 'c load =
  ld_counter :: nat
  ld_workers :: "'c worker list"
  ld_log :: "(nat \<times> 'c) list"

definition load_start :: "nat \<Rightarrow> 'c load" where
  "load_start concurrency = \<lparr>ld_counter = 0, ld_workers = replicate concurrency (Working 0 []), ld_log = []\<rparr>"

text \<open>\<open>i = counter[0]; if i >= ops: return; counter[0] += 1\<close>, then the first call.\<close>

definition load_claim :: "int \<Rightarrow> (nat \<Rightarrow> 'c list) \<Rightarrow> nat \<Rightarrow> 'c load \<Rightarrow> 'c load" where
  "load_claim ops calls w L =
     (let i = ld_counter L
      in if int i \<ge> ops then L\<lparr>ld_workers := (ld_workers L)[w := Finished]\<rparr>
         else L\<lparr>ld_counter := i + 1, ld_workers := (ld_workers L)[w := Working i (tl (calls i))],
                ld_log := ld_log L @ [(i, hd (calls i))]\<rparr>)"

text \<open>The event loop resumes worker \<open>w\<close>, which runs to its next await.\<close>

definition load_resume :: "int \<Rightarrow> (nat \<Rightarrow> 'c list) \<Rightarrow> nat \<Rightarrow> 'c load \<Rightarrow> 'c load" where
  "load_resume ops calls w L =
     (case ld_workers L ! w of
        Working i (c # cs) \<Rightarrow> L\<lparr>ld_workers := (ld_workers L)[w := Working i cs], ld_log := ld_log L @ [(i, c)]\<rparr>
      | Working i [] \<Rightarrow> load_claim ops calls w L
      | Finished \<Rightarrow> L)"

fun load_run :: "int \<Rightarrow> (nat \<Rightarrow> 'c list) \<Rightarrow> nat list \<Rightarrow> 'c load \<Rightarrow> 'c load" where
  "load_run ops calls [] L = L"
| "load_run ops calls (w # ws) L = load_run ops calls ws (load_resume ops calls w L)"

text \<open>A schedule of the event loop: it resumes workers that have not returned.\<close>

fun load_sched :: "int \<Rightarrow> (nat \<Rightarrow> 'c list) \<Rightarrow> nat list \<Rightarrow> 'c load \<Rightarrow> bool" where
  "load_sched ops calls [] L \<longleftrightarrow> True"
| "load_sched ops calls (w # ws) L \<longleftrightarrow>
     w < length (ld_workers L) \<and> ld_workers L ! w \<noteq> Finished \<and> load_sched ops calls ws (load_resume ops calls w L)"

definition load_done :: "'c load \<Rightarrow> bool" where
  "load_done L \<longleftrightarrow> (\<forall>x \<in> set (ld_workers L). x = Finished)"

text \<open>The calls of one index, in order.\<close>

definition calls_of :: "nat \<Rightarrow> (nat \<times> 'c) list \<Rightarrow> 'c list" where
  "calls_of i xs = map snd (filter (\<lambda>x. fst x = i) xs)"

lemma calls_of_simps [simp]: "calls_of i [] = []" "calls_of i (xs @ ys) = calls_of i xs @ calls_of i ys"
  "calls_of i ((j, c) # xs) = (if j = i then c # calls_of i xs else calls_of i xs)"
  by (simp_all add: calls_of_def)

subsection \<open>No index is lost or taken twice\<close>

text \<open>
  What is left of an index at each worker: at most one worker has something, and together with what the
  log has of the index it is the whole of it, once the index is taken.
\<close>

fun left_at :: "nat \<Rightarrow> 'c worker \<Rightarrow> 'c list" where
  "left_at i (Working j cs) = (if j = i then cs else [])"
| "left_at i Finished = []"

definition lone :: "'a list list \<Rightarrow> bool" where
  "lone xs \<longleftrightarrow> (\<exists>u. \<forall>v < length xs. v \<noteq> u \<longrightarrow> xs ! v = [])"

lemma concat_lone: "w < length xs \<Longrightarrow> \<forall>v < length xs. v \<noteq> w \<longrightarrow> xs ! v = [] \<Longrightarrow> concat xs = xs ! w"
proof (induction xs arbitrary: w)
  case (Cons x xs)
  show ?case
  proof (cases w)
    case 0
    then have "xs ! v = []" if "v < length xs" for v using Cons.prems(2) [rule_format, of "Suc v"] that by simp
    then have "\<forall>y \<in> set xs. y = []" by (auto simp: in_set_conv_nth)
    then show ?thesis using 0 by simp
  next
    case (Suc v)
    have "x = []" using Cons.prems(2) Suc by fastforce
    moreover have "concat xs = xs ! v" by (rule Cons.IH) (use Cons.prems Suc in auto)
    ultimately show ?thesis using Suc by simp
  qed
qed simp

lemma lone_update:
  assumes "lone xs" and "w < length xs" and "xs ! w \<noteq> [] \<or> concat xs = []"
  shows "lone (xs[w := y]) \<and> concat (xs[w := y]) = y \<and> concat xs = xs ! w"
proof -
  have others: "\<forall>v < length xs. v \<noteq> w \<longrightarrow> xs ! v = []" using assms unfolding lone_def by (metis concat_eq_Nil_conv nth_mem)
  then have "concat (xs[w := y]) = y" using concat_lone [of w "xs[w := y]"] assms(2) by simp
  moreover have "lone (xs[w := y])" using others unfolding lone_def by (intro exI [of _ w]) simp
  ultimately show ?thesis using concat_lone [OF assms(2) others] by blast
qed

definition lefts :: "nat \<Rightarrow> 'c load \<Rightarrow> 'c list list" where
  "lefts i L = map (left_at i) (ld_workers L)"

definition load_inv :: "int \<Rightarrow> (nat \<Rightarrow> 'c list) \<Rightarrow> 'c load \<Rightarrow> bool" where
  "load_inv ops calls L \<longleftrightarrow>
     (\<forall>i. lone (lefts i L) \<and> calls_of i (ld_log L) @ concat (lefts i L) = (if i < ld_counter L then calls i else []))
     \<and> (Finished \<in> set (ld_workers L) \<longrightarrow> ops \<le> int (ld_counter L)) \<and> ld_counter L \<le> nat ops"

lemma load_inv_start: "load_inv ops calls (load_start c)"
  by (auto simp: load_inv_def load_start_def lefts_def lone_def)

text \<open>How many times the event loop still has to resume a worker.\<close>

fun left_of :: "'c worker \<Rightarrow> nat" where
  "left_of (Working i cs) = Suc (length cs)"
| "left_of Finished = 0"

definition load_rank :: "int \<Rightarrow> (nat \<Rightarrow> 'c list) \<Rightarrow> 'c load \<Rightarrow> nat" where
  "load_rank ops calls L = (\<Sum>i = ld_counter L..<nat ops. length (calls i)) + sum_list (map left_of (ld_workers L))"

lemma sum_list_update_nat: "w < length xs \<Longrightarrow> sum_list (map f (xs[w := x])) + f (xs ! w) = sum_list (map f xs) + (f x :: nat)"
  by (induction xs arbitrary: w) (auto split: nat.split)

lemma load_rank_claim:
  assumes "\<not> ops \<le> int n" and "calls n \<noteq> []"
  shows "(\<Sum>i = n..<nat ops. length (calls i)) = Suc (length (tl (calls n))) + (\<Sum>i = Suc n..<nat ops. length (calls i))"
proof -
  have "n < nat ops" using assms(1) by linarith
  then have "(\<Sum>i = n..<nat ops. length (calls i)) = length (calls n) + (\<Sum>i = Suc n..<nat ops. length (calls i))"
    by (rule sum.atLeast_Suc_lessThan)
  then show ?thesis using assms(2) by (cases "calls n") simp_all
qed

lemma load_rank_step:
  assumes "w < length (ld_workers L)" and "ld_workers L ! w \<noteq> Finished" and "\<forall>i. calls i \<noteq> []"
  shows "Suc (load_rank ops calls (load_resume ops calls w L)) = load_rank ops calls L"
proof (cases "ld_workers L ! w")
  case (Working i cs)
  note upd = sum_list_update_nat [OF assms(1), of left_of, unfolded Working]
  show ?thesis
  proof (cases cs)
    case (Cons c cs')
    then show ?thesis using Working upd [of "Working i cs'"] by (simp add: load_resume_def load_rank_def)
  next
    case Nil
    let ?n = "ld_counter L"
    show ?thesis
    proof (cases "ops \<le> int ?n")
      case True
      then show ?thesis using Working Nil upd [of Finished] by (simp add: load_resume_def load_claim_def load_rank_def)
    next
      case False
      then have L: "load_resume ops calls w L = L\<lparr>ld_counter := Suc ?n,
          ld_workers := (ld_workers L)[w := Working ?n (tl (calls ?n))], ld_log := ld_log L @ [(?n, hd (calls ?n))]\<rparr>"
        using Working Nil by (simp add: load_resume_def load_claim_def Let_def)
      have "calls ?n \<noteq> []" using assms(3) by blast
      from load_rank_claim [of ops "ld_counter L" calls, OF False this] show ?thesis
        unfolding L load_rank_def using Nil upd [of "Working ?n (tl (calls ?n))"] by simp
    qed
  qed
qed (use assms in simp)

lemma lefts_update:
  "lefts k (L\<lparr>ld_workers := (ld_workers L)[w := x], ld_log := l\<rparr>) = (lefts k L)[w := left_at k x]"
  by (simp add: lefts_def map_update)

lemma lefts_same: "w < length (ld_workers L) \<Longrightarrow> left_at k x = left_at k (ld_workers L ! w) \<Longrightarrow> (lefts k L)[w := left_at k x] = lefts k L"
  by (simp add: lefts_def list_update_same_conv)

lemma load_inv_resume:
  assumes "load_inv ops calls L" and "w < length (ld_workers L)" and "\<forall>i. calls i \<noteq> []"
  shows "load_inv ops calls (load_resume ops calls w L)"
proof (cases "ld_workers L ! w")
  case (Working i cs)
  let ?n = "ld_counter L"
  have own: "lone (lefts k L)" "calls_of k (ld_log L) @ concat (lefts k L) = (if k < ?n then calls k else [])"
    and rest: "Finished \<in> set (ld_workers L) \<longrightarrow> ops \<le> int ?n" "?n \<le> nat ops" for k
    using assms(1) by (simp_all add: load_inv_def)
  have w: "w < length (lefts k L)" "lefts k L ! w = left_at k (ld_workers L ! w)" for k
    using assms(2) by (simp_all add: lefts_def)
  note upd = lone_update [OF own(1) w(1)]
  show ?thesis
  proof (cases cs)
    case (Cons c cs')
    let ?L = "L\<lparr>ld_workers := (ld_workers L)[w := Working i cs'], ld_log := ld_log L @ [(i, c)]\<rparr>"
    have L: "load_resume ops calls w L = ?L" using Working Cons by (simp add: load_resume_def)
    have "lone (lefts k ?L) \<and> calls_of k (ld_log ?L) @ concat (lefts k ?L) = (if k < ?n then calls k else [])" for k
    proof (cases "k = i")
      case True
      then show ?thesis using upd [of i cs'] own(2) [of i] w(2) [of i] Working Cons by (simp add: lefts_update)
    next
      case False
      then show ?thesis using own [of k] lefts_same [OF assms(2), of k "Working i cs'"] Working by (simp add: lefts_update)
    qed
    then show ?thesis using rest by (auto simp: L load_inv_def dest: set_update_subset_insert [THEN subsetD])
  next
    case Nil
    show ?thesis
    proof (cases "ops \<le> int ?n")
      case True
      then have L: "load_resume ops calls w L = L\<lparr>ld_workers := (ld_workers L)[w := Finished], ld_log := ld_log L\<rparr>"
        using Working Nil by (simp add: load_resume_def load_claim_def)
      then show ?thesis using True own rest lefts_same [OF assms(2), of _ Finished] Working Nil
        unfolding L load_inv_def lefts_update by simp
    next
      case False
      let ?x = "Working ?n (tl (calls ?n))"
      let ?L = "L\<lparr>ld_workers := (ld_workers L)[w := ?x], ld_log := ld_log L @ [(?n, hd (calls ?n))]\<rparr>"
      have L: "load_resume ops calls w L = ?L\<lparr>ld_counter := ?n + 1\<rparr>"
        using Working Nil False by (simp add: load_resume_def load_claim_def Let_def)
      have counter: "lefts k (K\<lparr>ld_counter := m\<rparr>) = lefts k K" for k m and K :: "'a load" by (simp add: lefts_def)
      have "lone (lefts k ?L) \<and> calls_of k (ld_log ?L) @ concat (lefts k ?L) = (if k < ?n + 1 then calls k else [])" for k
      proof (cases "k = ?n")
        case True
        then show ?thesis using upd [of ?n "tl (calls ?n)"] own(2) [of ?n] assms(3) by (simp add: lefts_update)
      next
        case other: False
        then show ?thesis using own [of k] lefts_same [OF assms(2), of k ?x] Working Nil by (auto simp: lefts_update)
      qed
      then show ?thesis using rest False
        by (auto simp: L counter load_inv_def dest: set_update_subset_insert [THEN subsetD])
    qed
  qed
qed (use assms in \<open>simp add: load_resume_def\<close>)

lemma load_resume_workers: "length (ld_workers (load_resume ops calls w L)) = length (ld_workers L)"
  by (auto simp: load_resume_def load_claim_def Let_def split: worker.split list.split)

lemma load_inv_run:
  "load_inv ops calls L \<Longrightarrow> load_sched ops calls ws L \<Longrightarrow> \<forall>i. calls i \<noteq> [] \<Longrightarrow> load_inv ops calls (load_run ops calls ws L)"
  by (induction ws arbitrary: L) (auto intro: load_inv_resume)

lemma load_rank_run:
  "load_sched ops calls ws L \<Longrightarrow> \<forall>i. calls i \<noteq> [] \<Longrightarrow>
    load_rank ops calls (load_run ops calls ws L) + length ws = load_rank ops calls L"
  by (induction ws arbitrary: L) (auto dest: load_rank_step)

lemma load_done_rank:
  assumes "load_inv ops calls L" and "ld_workers L \<noteq> []"
  shows "load_done L \<longleftrightarrow> load_rank ops calls L = 0"
proof -
  have zero: "left_of x = 0 \<longleftrightarrow> x = Finished" for x :: "'a worker" by (cases x) auto
  have "ops \<le> int (ld_counter L)" if "load_done L"
    using assms that by (cases "ld_workers L") (auto simp: load_inv_def load_done_def)
  then show ?thesis by (auto simp: load_done_def load_rank_def zero)
qed

lemma load_run_workers: "length (ld_workers (load_run ops calls ws L)) = length (ld_workers L)"
  by (induction ws arbitrary: L) (simp_all add: load_resume_workers)

lemma load_prefix:
  assumes "load_sched ops calls ws (load_start c)" and "\<forall>i. calls i \<noteq> []"
  shows "\<forall>i. prefix (calls_of i (ld_log (load_run ops calls ws (load_start c)))) (calls i)"
  using load_inv_run [OF load_inv_start assms] unfolding load_inv_def
  by (metis Nil_prefix append_is_Nil_conv prefixI)

text \<open>C34.
  However the event loop orders the workers, the load generator makes exactly the calls of the indices
  below \<open>ops\<close>, those of one index once each and in their order; there are always as many resumptions
  as calls and workers together, so that it ends, and before that some worker can be resumed.
\<close>

theorem load_each_once:
  assumes "load_sched ops calls ws (load_start c)" and "\<forall>i. calls i \<noteq> []" and "0 < c"
  defines "L \<equiv> load_run ops calls ws (load_start c)" and "steps_needed \<equiv> (\<Sum>i < nat ops. length (calls i)) + c"
  shows "(load_done L \<longleftrightarrow> length ws = steps_needed) \<and> length ws \<le> steps_needed
    \<and> (load_done L \<longrightarrow> (\<forall>i. calls_of i (ld_log L) = (if int i < ops then calls i else [])))
    \<and> (\<not> load_done L \<longrightarrow> (\<exists>w. load_sched ops calls [w] L))
    \<and> (\<forall>i. prefix (calls_of i (ld_log L)) (calls i))"
proof -
  have inv: "load_inv ops calls L" unfolding L_def by (rule load_inv_run [OF load_inv_start assms(1,2)])
  have len: "length (ld_workers L) = c" by (simp add: L_def load_run_workers) (simp add: load_start_def)
  have "load_rank ops calls (load_start c) = steps_needed"
    by (simp add: load_rank_def load_start_def steps_needed_def sum_list_replicate lessThan_atLeast0)
  then have rank: "load_rank ops calls L + length ws = steps_needed" using load_rank_run [OF assms(1,2)] by (simp add: L_def)
  have done0: "load_done L \<longleftrightarrow> load_rank ops calls L = 0" using load_done_rank [OF inv] len assms(3) by auto
  have all: "calls_of i (ld_log L) = (if int i < ops then calls i else [])" if fin: "load_done L" for i
  proof -
    have "left_at i x = []" if "x \<in> set (ld_workers L)" for x using fin that by (auto simp: load_done_def)
    then have "concat (lefts i L) = []" by (auto simp: lefts_def)
    moreover have "ld_counter L = nat ops"
    proof -
      have "Finished \<in> set (ld_workers L)" using fin len assms(3) by (cases "ld_workers L") (auto simp: load_done_def)
      then show ?thesis using inv by (auto simp: load_inv_def)
    qed
    ultimately show ?thesis using inv unfolding load_inv_def by (metis append_Nil2 zless_nat_eq_int_zless)
  qed
  have more: "\<exists>w. load_sched ops calls [w] L" if "\<not> load_done L"
    using that by (auto simp: load_done_def in_set_conv_nth)
  have pre: "\<forall>i. prefix (calls_of i (ld_log L)) (calls i)" unfolding L_def by (rule load_prefix [OF assms(1,2)])
  show ?thesis using rank done0 all more pre by auto
qed

text \<open>\<open>async_run_phase\<close>: \<open>op_fn(offset + i)\<close>.\<close>

definition phase_calls :: "int \<Rightarrow> nat \<Rightarrow> int list" where
  "phase_calls offset i = [offset + int i]"

section \<open>The profiled benchmark\<close>

text \<open>\<open>_bench_coro\<close>: \<open>n.set(f"k{i}", VALUE)\<close> and \<open>n.get(f"k{i}")\<close> on the node of the index.\<close>

definition bench_key :: "nat \<Rightarrow> string" where
  "bench_key i = ''k'' @ py_str_int (int i)"

definition bench_calls :: "NodeInfo list \<Rightarrow> pyval \<Rightarrow> nat \<Rightarrow> (NodeInfo \<times> store_call) list" where
  "bench_calls nodes v i =
     (let n = nodes ! (i mod length nodes) in [(n, CSet (bench_key i) v None), (n, CGet (bench_key i))])"

text \<open>\<open>_bench_loop\<close> of the blocking profiler.\<close>

definition bench_loop :: "NodeInfo \<Rightarrow> int \<Rightarrow> pyval \<Rightarrow> (NodeInfo \<times> store_call) list" where
  "bench_loop node ops v =
     concat (map (\<lambda>i. [(node, CSet (bench_key i) v None), (node, CGet (bench_key i))]) [0..<nat ops])"

text \<open>\<open>full_set\<close> and \<open>full_get\<close> under \<open>_timeit\<close>: the keys that were set are read in a circle.\<close>

definition timed_calls :: "NodeInfo \<Rightarrow> int \<Rightarrow> pyval \<Rightarrow> (NodeInfo \<times> store_call) list" where
  "timed_calls node ops v =
     (let reps = nat (min (min ops 5000) 500)
      in map (\<lambda>j. (node, CSet (bench_key j) v None)) [0..<reps]
         @ map (\<lambda>j. (node, CGet (bench_key (j mod reps)))) [0..<reps])"

lemma bench_key_inj [simp]: "bench_key i = bench_key j \<longleftrightarrow> i = j"
  by (simp add: bench_key_def)

subsection \<open>What it reads\<close>

text \<open>Calls that set keys to one value for good and read keys set before.\<close>

fun reads_written :: "pyval \<Rightarrow> string set \<Rightarrow> store_call list \<Rightarrow> bool" where
  "reads_written v S [] \<longleftrightarrow> True"
| "reads_written v S (CSet k v' ttl # cs) \<longleftrightarrow> v' = v \<and> ttl = None \<and> reads_written v (insert k S) cs"
| "reads_written v S (CGet k # cs) \<longleftrightarrow> k \<in> S \<and> reads_written v S cs"
| "reads_written v S (c # cs) \<longleftrightarrow> False"

fun expected :: "pyval \<Rightarrow> store_call \<Rightarrow> store_answer" where
  "expected v (CGet k) = AVal v"
| "expected v c = ABool True"

lemma reads_written_sets:
  "reads_written v S (map (\<lambda>j. CSet (f j) v None) js @ cs) \<longleftrightarrow> reads_written v (f ` set js \<union> S) cs"
  by (induction js arbitrary: S) (simp_all add: insert_commute Un_assoc)

lemma reads_written_gets: "reads_written v S (map (\<lambda>j. CGet (f j)) js) \<longleftrightarrow> f ` set js \<subseteq> S"
  by (induction js) auto

lemma reads_written_mono: "reads_written v S cs \<Longrightarrow> S \<subseteq> T \<Longrightarrow> reads_written v T cs"
proof (induction v S cs arbitrary: T rule: reads_written.induct)
  case (2 v S k v' ttl cs)
  then show ?case using "2.IH" [of "insert k T"] by auto
qed auto

lemma reads_written_snoc:
  "reads_written v S xs \<Longrightarrow> reads_written v (S \<union> {k. CSet k v None \<in> set xs}) [c] \<Longrightarrow> reads_written v S (xs @ [c])"
proof (induction v S xs rule: reads_written.induct)
  case (2 v S k v' ttl cs)
  have "S \<union> {k'. CSet k' v None \<in> set (CSet k v' ttl # cs)} \<subseteq> insert k S \<union> {k'. CSet k' v None \<in> set cs}" by auto
  then show ?case using 2 reads_written_mono [OF "2.prems"(2)] by simp
qed auto

lemma reads_written_answers:
  "reads_written v S (map (\<lambda>x. snd (snd x)) cs) \<Longrightarrow> \<forall>k \<in> S. map_of (ls_data l) k = Some (v, None) \<Longrightarrow>
    fst (run_calls basic_call cs l) = map (\<lambda>(now, wall, c). expected v c) cs"
proof (induction cs arbitrary: S l)
  case (Cons x cs)
  obtain now wall c where x: "x = (now, wall, c)" by (cases x)
  show ?case
  proof (cases c)
    case (CSet k v' ttl)
    then show ?thesis
      using Cons.prems x Cons.IH [of "insert k S" "snd (ls_set now k v None l)"]
      by (auto simp: ls_set_def Let_def case_prod_beta dict_simps)
  next
    case (CGet k)
    then have "ls_get now k l = (v, l)" using Cons.prems x by (simp add: ls_get_def)
    then show ?thesis using CGet Cons.prems x Cons.IH [of S l] by (simp add: case_prod_beta)
  qed (use Cons.prems x in simp_all)
qed simp

lemma bench_reads_written:
  assumes "\<forall>i. prefix (calls_of i xs) (bench_calls nodes v i)"
  shows "reads_written v {} (map (\<lambda>(i, n, c). c) xs)"
  using assms
proof (induction xs rule: rev_induct)
  case (snoc x xs)
  obtain i n c where x: "x = (i, n, c)" by (cases x)
  have "prefix (calls_of j xs) (bench_calls nodes v j)" for j
    using snoc.prems [rule_format, of j] by (auto dest: append_prefixD)
  then have IH: "reads_written v {} (map (\<lambda>(i, n, c). c) xs)" by (intro snoc.IH) simp
  have "prefix (calls_of i xs @ [(n, c)]) (bench_calls nodes v i)" using snoc.prems [rule_format, of i] x by simp
  then have "calls_of i xs = [] \<and> c = CSet (bench_key i) v None
      \<or> (\<exists>m. calls_of i xs = [(m, CSet (bench_key i) v None)]) \<and> c = CGet (bench_key i)"
    by (auto simp: bench_calls_def Let_def prefix_Cons append_eq_Cons_conv)
  moreover have "CSet (bench_key i) v None \<in> set (map (\<lambda>(i, n, c). c) xs)"
    if "calls_of i xs = [(m, CSet (bench_key i) v None)]" for m
  proof -
    have "(m, CSet (bench_key i) v None) \<in> set (calls_of i xs)" using that by simp
    then show ?thesis by (force simp: calls_of_def)
  qed
  ultimately show ?case using reads_written_snoc [OF IH, of c] x by auto
qed simp

text \<open>
  The requests that calls make of the cluster: each finds clocks and links, the kind of the node and \<open>time_ns\<close>.
\<close>

definition call_requests :: "(env \<times> nat list option \<times> int) list \<Rightarrow> (NodeInfo \<times> store_call) list \<Rightarrow> request list" where
  "call_requests ctx calls =
     map2 (\<lambda>(E, kind, ts) (n, c). \<lparr>rq_env = E, rq_node = n, rq_async = kind, rq_ts = ts, rq_call = c\<rparr>) ctx calls"

definition ctx_ok :: "nat \<Rightarrow> env \<times> nat list option \<times> int \<Rightarrow> bool" where
  "ctx_ok r c \<longleftrightarrow> (case c of (E, kind, ts) \<Rightarrow> healthy E \<and> 0 \<le> ts \<and> (\<forall>sched. kind = Some sched \<longrightarrow> schedule r sched))"

lemma cluster_reads_back:
  assumes "agreed sha reps W" and "\<forall>a s. W a = Some s \<longrightarrow> sn_store s = lww_init" and "\<forall>k. length (reps k) = r"
    and "reads_written v {} (map snd calls)" and "\<forall>x \<in> set calls. W (fst x) \<noteq> None"
    and "length ctx = length calls" and "\<forall>c \<in> set ctx. ctx_ok r c" and "sorted (map (\<lambda>(E, kind, ts). ts) ctx)"
  shows "fst (run_requests sha (call_requests ctx calls) W) = map (\<lambda>x. expected v (snd x)) calls"
proof -
  let ?rs = "call_requests ctx calls"
  have keyed: "reads_written v S cs \<Longrightarrow> c \<in> set cs \<Longrightarrow> \<exists>k. call_key c = Some k" for S cs c
    by (induction v S cs rule: reads_written.induct) auto
  have ok: "request_ok reps W q \<and> 0 \<le> rq_ts q" if q: "q \<in> set ?rs" for q
  proof -
    obtain E kind ts n c where z: "((E, kind, ts), (n, c)) \<in> set (zip ctx calls)"
      "q = \<lparr>rq_env = E, rq_node = n, rq_async = kind, rq_ts = ts, rq_call = c\<rparr>"
      using q by (auto simp: call_requests_def)
    have "ctx_ok r (E, kind, ts)" using assms(7) z(1) by (blast dest: set_zip_leftD)
    moreover have "W n \<noteq> None" "\<exists>k. call_key c = Some k"
      using assms(5) keyed [OF assms(4), of c] set_zip_rightD [OF z(1)] by force+
    ultimately show ?thesis using z(2) assms(3) by (auto simp: ctx_ok_def request_ok_def)
  qed
  have ts: "map rq_ts ?rs = map (\<lambda>(E, kind, ts). ts) ctx"
    using assms(6) by (simp add: call_requests_def list_eq_iff_nth_eq case_prod_beta)
  have calls: "map rq_call ?rs = map snd calls"
    using assms(6) by (simp add: call_requests_def list_eq_iff_nth_eq case_prod_beta)
  have "fst (run_requests sha ?rs W) =
      fst (run_calls basic_call (map (\<lambda>r. (e_now (rq_env r) (rq_node r), rq_ts r, rq_call r)) ?rs) ls_init)"
    using ok assms(8) by (intro requests_run_init [OF assms(1,2)]) (auto simp: ts)
  also have "\<dots> = map (expected v) (map snd calls)"
    using reads_written_answers [of v "{}" "map (\<lambda>r. (e_now (rq_env r) (rq_node r), rq_ts r, rq_call r)) ?rs" ls_init]
      assms(4) unfolding calls [symmetric] by (simp add: comp_def)
  finally show ?thesis by (simp add: comp_def)
qed

lemma bench_loop_reads: "reads_written v {} (map snd (bench_loop node ops v))"
proof -
  have "reads_written v S (map snd (concat (map (\<lambda>i. [(node, CSet (bench_key i) v None), (node, CGet (bench_key i))]) is)))" for S "is"
    by (induction "is" arbitrary: S) auto
  then show ?thesis by (simp add: bench_loop_def)
qed

lemma timed_calls_reads: "reads_written v {} (map snd (timed_calls node ops v))"
proof -
  let ?n = "nat (min (min ops 5000) 500)"
  have "map snd (timed_calls node ops v) =
      map (\<lambda>j. CSet (bench_key j) v None) [0..<?n] @ map (\<lambda>j. CGet (bench_key (j mod ?n))) [0..<?n]"
    by (simp add: timed_calls_def Let_def comp_def)
  then show ?thesis by (simp add: reads_written_sets reads_written_gets)
qed

text \<open>C33.
  The profiled load on a healthy cluster reads back what it writes: whichever way the event loop
  interleaves the workers and however far it gets, every \<open>set\<close> is acknowledged and every \<open>get\<close> returns
  the value, although the workers share the nodes. The calls are served in the order in which they are made.
\<close>

theorem bench_reads_back:
  assumes "agreed sha reps W" and "\<forall>a s. W a = Some s \<longrightarrow> sn_store s = lww_init" and "\<forall>k. length (reps k) = r"
    and "nodes \<noteq> []" and "\<forall>n \<in> set nodes. W n \<noteq> None"
    and "load_sched ops (bench_calls nodes v) ws (load_start c)"
    and "calls = map snd (ld_log (load_run ops (bench_calls nodes v) ws (load_start c)))"
    and "length ctx = length calls" and "\<forall>c \<in> set ctx. ctx_ok r c" and "sorted (map (\<lambda>(E, kind, ts). ts) ctx)"
  shows "fst (run_requests sha (call_requests ctx calls) W) = map (\<lambda>x. expected v (snd x)) calls"
proof (rule cluster_reads_back [OF assms(1-3) _ _ assms(8-10)])
  let ?xs = "ld_log (load_run ops (bench_calls nodes v) ws (load_start c))"
  have pre: "\<forall>i. prefix (calls_of i ?xs) (bench_calls nodes v i)"
    using load_prefix [OF assms(6)] by (simp add: bench_calls_def Let_def)
  show "reads_written v {} (map snd calls)"
    using bench_reads_written [OF pre] assms(7) by (simp add: case_prod_beta' comp_def)
  show "\<forall>x \<in> set calls. W (fst x) \<noteq> None"
  proof
    fix x
    assume "x \<in> set calls"
    then obtain i where "(i, x) \<in> set ?xs" using assms(7) by auto
    then have "x \<in> set (calls_of i ?xs)" by (force simp: calls_of_def)
    then have "x \<in> set (bench_calls nodes v i)" using pre set_mono_prefix by blast
    then have "fst x = nodes ! (i mod length nodes)" by (auto simp: bench_calls_def Let_def)
    then show "W (fst x) \<noteq> None" using assms(4,5) by simp
  qed
qed

text \<open>So do the blocking loop and the timed calls of one node.\<close>

theorem loops_read_back:
  assumes "agreed sha reps W" and "\<forall>a s. W a = Some s \<longrightarrow> sn_store s = lww_init" and "\<forall>k. length (reps k) = r"
    and "W node \<noteq> None" and "calls = bench_loop node ops v \<or> calls = timed_calls node ops v"
    and "length ctx = length calls" and "\<forall>c \<in> set ctx. ctx_ok r c" and "sorted (map (\<lambda>(E, kind, ts). ts) ctx)"
  shows "fst (run_requests sha (call_requests ctx calls) W) = map (\<lambda>x. expected v (snd x)) calls"
proof (rule cluster_reads_back [OF assms(1-3) _ _ assms(6-8)])
  show "reads_written v {} (map snd calls)" using assms(5) bench_loop_reads timed_calls_reads by blast
  show "\<forall>x \<in> set calls. W (fst x) \<noteq> None" using assms(4,5) by (auto simp: bench_loop_def timed_calls_def Let_def)
qed

section \<open>Threads and processes\<close>

text \<open>Python's \<open>range\<close> with a positive step.\<close>

definition py_range :: "int \<Rightarrow> int \<Rightarrow> int \<Rightarrow> int list" where
  "py_range start stop step = map (\<lambda>j. start + int j * step) [0..<nat ((stop - start + step - 1) div step)]"

text \<open>\<open>worker_fn\<close> of \<open>benchmarks/nodes/sync_bench.py\<close>: the outcome of an operation is whether it worked, and its time.\<close>

fun thread_loop :: "(int \<Rightarrow> bool \<times> rat) \<Rightarrow> int list \<Rightarrow> rat list \<times> int \<Rightarrow> rat list \<times> int" where
  "thread_loop op [] r = r"
| "thread_loop op (i # is) (latencies, errors) =
     (case op i of (ok, dt) \<Rightarrow>
        thread_loop op is (if ok then (latencies @ [dt], errors) else (latencies, errors + 1)))"

definition thread_worker :: "(int \<Rightarrow> bool \<times> rat) \<Rightarrow> int \<Rightarrow> int \<Rightarrow> int \<Rightarrow> int \<Rightarrow> (rat list \<times> int) res" where
  "thread_worker op start_i ops concurrency thread_id =
     Inr (thread_loop (\<lambda>i. op (start_i + i)) (py_range thread_id ops concurrency) ([], 0))"

text \<open>\<open>sync_run_phase\<close>: the futures in the order in which they complete.\<close>

fun phase_collect :: "(rat list \<times> int) res list \<Rightarrow> rat list \<times> int \<Rightarrow> (rat list \<times> int) res" where
  "phase_collect [] (lats, errs) = Inr (lats, errs)"
| "phase_collect (Inl e # fs) r = Inl e"
| "phase_collect (Inr (l, e) # fs) (lats, errs) = phase_collect fs (lats @ l, errs + e)"

definition sync_run_phase :: "int \<Rightarrow> (int \<Rightarrow> (rat list \<times> int) res) \<Rightarrow> int list \<Rightarrow> (rat list \<times> int) res" where
  "sync_run_phase concurrency worker_fn completed =
     (if concurrency \<le> 0 then Inl ValueError else phase_collect (map worker_fn completed) ([], 0))"

text \<open>\<open>main\<close>: the share of process \<open>i\<close> of \<open>n\<close>.\<close>

definition bench_slice :: "int \<Rightarrow> int \<Rightarrow> int \<Rightarrow> int \<times> int" where
  "bench_slice n ops i = (let ops_per_node = ops div n in (i * ops_per_node, (i + 1) * ops_per_node))"

lemma int_le_div_iff:
  assumes "0 < (c::int)"
  shows "m \<le> n div c \<longleftrightarrow> m * c \<le> n"
proof
  assume "m \<le> n div c"
  then have "m * c \<le> (n div c) * c" using assms by (intro mult_right_mono) auto
  also have "\<dots> \<le> n" using pos_mod_sign [OF assms, of n] by (simp add: minus_mod_eq_div_mult [symmetric])
  finally show "m * c \<le> n" .
next
  assume "m * c \<le> n"
  from zdiv_mono1 [OF this assms] show "m \<le> n div c" using assms by simp
qed

lemma py_range_set:
  assumes "0 < c"
  shows "x \<in> set (py_range t ops c) \<longleftrightarrow> t \<le> x \<and> x < ops \<and> c dvd (x - t)"
proof
  assume "x \<in> set (py_range t ops c)"
  then have "x \<in> (\<lambda>j. t + int j * c) ` {0..<nat ((ops - t + c - 1) div c)}" by (simp only: py_range_def set_map set_upt)
  then obtain j where j: "x = t + int j * c" "j \<in> {0..<nat ((ops - t + c - 1) div c)}" by (rule imageE)
  then have "int j + 1 \<le> (ops - t + c - 1) div c" by (simp only: atLeastLessThan_iff) linarith
  then have "(int j + 1) * c \<le> ops - t + c - 1" using int_le_div_iff [OF assms] by blast
  then show "t \<le> x \<and> x < ops \<and> c dvd (x - t)" using j(1) assms by (simp add: algebra_simps)
next
  assume x: "t \<le> x \<and> x < ops \<and> c dvd (x - t)"
  then obtain k where k: "x - t = c * k" by blast
  then have "0 \<le> k" using x assms by (metis diff_ge_0_iff_ge zero_le_mult_iff not_less)
  have "(k + 1) * c \<le> ops - t + c - 1" using x k by (simp add: algebra_simps)
  then have "k + 1 \<le> (ops - t + c - 1) div c" using int_le_div_iff [OF assms] by blast
  then have "k < (ops - t + c - 1) div c" by simp
  then show "x \<in> set (py_range t ops c)"
    using k \<open>0 \<le> k\<close> unfolding py_range_def by (auto intro!: image_eqI [of _ _ "nat k"] simp: algebra_simps)
qed

lemma py_range_distinct: "0 < c \<Longrightarrow> distinct (py_range t ops c)"
  by (auto simp: py_range_def distinct_map inj_on_def)

text \<open>Every index belongs to one thread.\<close>

lemma py_range_thread: "0 \<le> t \<Longrightarrow> t < c \<Longrightarrow> x \<in> set (py_range t ops c) \<longleftrightarrow> 0 \<le> x \<and> x < ops \<and> x mod c = t"
proof -
  assume t: "0 \<le> t" "t < c"
  have "c dvd (x - t) \<longleftrightarrow> x mod c = t" using t by (simp add: mod_eq_dvd_iff [symmetric])
  moreover have "t \<le> x" if "0 \<le> x" "x mod c = t" using that zmod_le_nonneg_dividend [of x c] by simp
  ultimately show ?thesis using t by (auto simp: py_range_set)
qed

lemma threads_mset:
  assumes "k \<le> c"
  shows "mset (concat (map (\<lambda>t. py_range (int t) ops (int c)) [0..<k])) = mset_set {x. 0 \<le> x \<and> x < ops \<and> x mod int c < int k}"
  using assms
proof (induction k)
  case 0
  have "\<not> x mod int c < int 0" if "0 \<le> x" for x using that by (cases "c = 0") (auto simp: not_less)
  then have "{x. 0 \<le> x \<and> x < ops \<and> x mod int c < int 0} = {}" by blast
  then show ?case by (simp only: upt_0 list.map concat.simps mset.simps mset_set.empty)
next
  case (Suc k)
  let ?A = "\<lambda>k. {x. 0 \<le> x \<and> x < ops \<and> x mod int c < int k}" and ?B = "set (py_range (int k) ops (int c))"
  have fin: "finite (?A k)" by (rule finite_subset [of _ "{0..<ops}"]) auto
  have B: "?B = {x. 0 \<le> x \<and> x < ops \<and> x mod int c = int k}" using Suc.prems by (auto simp: py_range_thread)
  have "?A (Suc k) = ?A k \<union> ?B" unfolding B by auto
  moreover have "?A k \<inter> ?B = {}" unfolding B by auto
  ultimately show ?case
    using Suc fin by (simp add: mset_set_Union mset_set_set py_range_distinct)
qed

lemma thread_loop_counts:
  "int (length (fst (thread_loop op is (l, e)))) + snd (thread_loop op is (l, e)) = int (length l) + e + int (length is)"
  by (induction "is" arbitrary: l e) (auto split: prod.split)

lemma phase_collect_counts:
  "\<exists>r. phase_collect (map (thread_worker op s ops c) ts) (l, e) = Inr r \<and>
    int (length (fst r)) + snd r = int (length l) + e + (\<Sum>t \<leftarrow> ts. int (length (py_range t ops c)))"
proof (induction ts arbitrary: l e)
  case (Cons t ts)
  obtain l' e' where one: "thread_loop (\<lambda>i. op (s + i)) (py_range t ops c) ([], 0) = (l', e')" by fastforce
  show ?case using Cons [of "l @ l'" "e + e'"] thread_loop_counts [of "\<lambda>i. op (s + i)" "py_range t ops c" "[]" 0] one
    by (auto simp: thread_worker_def)
qed simp

lemma threads_once:
  assumes "0 < c"
  shows "mset (concat (map (\<lambda>t. py_range (int t) ops (int c)) [0..<c])) = mset (map int [0..<nat ops])"
proof -
  have "{x. 0 \<le> x \<and> x < ops \<and> x mod int c < int c} = {0..<ops}" using assms by auto
  also have "\<dots> = set (map int [0..<nat ops])" by (auto simp: image_iff intro!: bexI [of _ "nat x" for x])
  finally show ?thesis using threads_mset [of c c ops]
    by (simp only: mset_set_set distinct_map distinct_upt inj_on_of_nat)
qed

text \<open>
  The threads of a phase handle every index once, and the phase reports one latency or one error for each,
  in whichever order the threads complete; without threads the executor cannot be made.
\<close>

theorem sync_phase_counts:
  assumes "0 < c" and "mset completed = mset (map int [0..<c])"
  shows "\<exists>lats errs. sync_run_phase (int c) (thread_worker op start_i ops (int c)) completed = Inr (lats, errs)
    \<and> int (length lats) + errs = max 0 ops
    \<and> mset (concat (map (\<lambda>t. py_range t ops (int c)) completed)) = mset (map int [0..<nat ops])"
proof -
  have all: "mset (concat (map (\<lambda>t. py_range t ops (int c)) completed)) = mset (map int [0..<nat ops])"
  proof -
    have "mset (concat (map (\<lambda>t. py_range t ops (int c)) completed)) = (\<Sum>t \<in># mset completed. mset (py_range t ops (int c)))"
      by (simp add: mset_concat comp_def flip: sum_mset_sum_list mset_map)
    also have "\<dots> = mset (concat (map (\<lambda>t. py_range (int t) ops (int c)) [0..<c]))"
      unfolding assms(2) by (simp add: mset_concat comp_def flip: sum_mset_sum_list mset_map)
    finally show ?thesis using threads_once [OF assms(1)] by simp
  qed
  have "(\<Sum>t \<leftarrow> completed. int (length (py_range t ops (int c)))) = int (length (concat (map (\<lambda>t. py_range t ops (int c)) completed)))"
    by (induction completed) simp_all
  also have "\<dots> = max 0 ops" using arg_cong [OF all, of size] by simp
  finally show ?thesis
    using phase_collect_counts [of op start_i ops "int c" completed "[]" 0] all assms(1) by (force simp: sync_run_phase_def)
qed

text \<open>The processes together take the keys below \<open>n * (ops div n)\<close>: up to \<open>n - 1\<close> operations are not run.\<close>

theorem slices_drop_remainder:
  assumes "0 < n" and "0 \<le> ops"
  shows "(\<Union>i \<in> {0..<n}. {fst (bench_slice n ops i)..<snd (bench_slice n ops i)}) = {0..<n * (ops div n)}
    \<and> n * (ops div n) = ops - ops mod n"
proof -
  let ?d = "ops div n"
  have A: "x \<in> (\<Union>i \<in> {0..<n}. {i * ?d..<(i + 1) * ?d})" if x: "0 \<le> x" "x < n * ?d" for x
  proof -
    have d: "0 < ?d" using x assms by (metis mult_pos_pos mult_zero_right not_less order_le_less pos_imp_zdiv_nonneg_iff order_trans)
    have "x div ?d < n" using x int_le_div_iff [OF d, of n x] by simp
    moreover have "0 \<le> x div ?d" using x d by (simp add: pos_imp_zdiv_nonneg_iff)
    moreover have "(x div ?d) * ?d \<le> x" "x < (x div ?d + 1) * ?d"
      using int_le_div_iff [OF d, of "x div ?d" x] int_le_div_iff [OF d, of "x div ?d + 1" x] by simp_all
    ultimately show ?thesis by (intro UN_I [of "x div ?d"]) auto
  qed
  have B: "0 \<le> x \<and> x < n * ?d" if "0 \<le> i" "i < n" "i * ?d \<le> x" "x < (i + 1) * ?d" for i x
  proof -
    have d: "0 \<le> ?d" using assms by (simp add: pos_imp_zdiv_nonneg_iff)
    have "(i + 1) * ?d \<le> n * ?d" using that(2) d by (intro mult_right_mono) auto
    moreover have "0 \<le> i * ?d" using that(1) d by simp
    ultimately show ?thesis using that by linarith
  qed
  have "(\<Union>i \<in> {0..<n}. {i * ?d..<(i + 1) * ?d}) = {0..<n * ?d}"
  proof (intro equalityI subsetI)
    fix x
    assume "x \<in> (\<Union>i \<in> {0..<n}. {i * ?d..<(i + 1) * ?d})"
    then obtain i where "i \<in> {0..<n}" "x \<in> {i * ?d..<(i + 1) * ?d}" by (rule UN_E)
    then have "0 \<le> i" "i < n" "i * ?d \<le> x" "x < (i + 1) * ?d" by (simp_all only: atLeastLessThan_iff)
    from B [OF this] show "x \<in> {0..<n * ?d}" by (simp only: atLeastLessThan_iff)
  next
    fix x
    assume "x \<in> {0..<n * ?d}"
    then have "0 \<le> x" "x < n * ?d" by (simp_all only: atLeastLessThan_iff)
    then show "x \<in> (\<Union>i \<in> {0..<n}. {i * ?d..<(i + 1) * ?d})" by (rule A)
  qed
  then show ?thesis by (simp add: bench_slice_def Let_def minus_mod_eq_mult_div)
qed

section \<open>Figures\<close>

text \<open>
  \<open>_timeit\<close>: the median of \<open>reps\<close> times, in both profilers; the clock is read before and after each call.
  Without a time the subscript raises \<open>IndexError\<close>, which is \<open>None\<close> here.
\<close>

definition timings :: "(nat \<Rightarrow> int) \<Rightarrow> int \<Rightarrow> int list" where
  "timings clock reps = map (\<lambda>j. clock (2 * j + 1) - clock (2 * j)) [0..<nat reps]"

definition timeit :: "(nat \<Rightarrow> int) \<Rightarrow> int \<Rightarrow> int option" where
  "timeit clock reps =
     (let samples = timings clock reps
      in if samples = [] then None else Some (sort samples ! (length samples div 2)))"

text \<open>\<open>percentile\<close> with a figure between the two neighbours; \<open>int(k)\<close> cuts towards zero.\<close>

definition percentile :: "rat list \<Rightarrow> rat \<Rightarrow> rat" where
  "percentile data p =
     (if data = [] then 0
      else let k = of_nat (length data - 1) * p / 100; lo = nat \<lfloor>k\<rfloor>; hi = min (lo + 1) (length data - 1)
           in data ! lo + (data ! hi - data ! lo) * (k - of_nat lo))"

text \<open>At most half of the measured times are below the median, and at most half above.\<close>

lemma sorted_below: "sorted xs \<Longrightarrow> i < length xs \<Longrightarrow> length (filter (\<lambda>x. x < xs ! i) xs) \<le> i"
proof (induction xs arbitrary: i)
  case (Cons x xs)
  show ?case
  proof (cases i)
    case 0
    then have "filter (\<lambda>y. y < x) (x # xs) = []" using Cons.prems(1) by (auto simp: filter_empty_conv)
    then show ?thesis using 0 by simp
  next
    case (Suc j)
    have "length (filter (\<lambda>y. y < xs ! j) xs) \<le> j" using Cons Suc by simp
    then show ?thesis using Suc by simp
  qed
qed simp

lemma sorted_above: "sorted xs \<Longrightarrow> i < length xs \<Longrightarrow> length (filter (\<lambda>x. xs ! i < x) xs) \<le> length xs - Suc i"
proof (induction xs arbitrary: i)
  case (Cons x xs)
  show ?case
  proof (cases i)
    case (Suc j)
    have "x \<le> xs ! j" "length (filter (\<lambda>y. xs ! j < y) xs) \<le> length xs - Suc j" using Cons Suc by simp_all
    then show ?thesis using Suc by simp
  qed (auto simp: le_SucI)
qed simp

theorem timeit_median:
  "timeit clock reps = None \<longleftrightarrow> reps \<le> 0"
  "timeit clock reps = Some m \<Longrightarrow> m \<in> set (timings clock reps)
    \<and> 2 * length (filter (\<lambda>t. t < m) (timings clock reps)) \<le> nat reps
    \<and> 2 * length (filter (\<lambda>t. m < t) (timings clock reps)) \<le> nat reps"
proof -
  let ?t = "timings clock reps"
  let ?s = "sort ?t" and ?i = "length ?t div 2"
  have n: "length ?t = nat reps" by (simp add: timings_def)
  show "timeit clock reps = None \<longleftrightarrow> reps \<le> 0" by (simp add: timeit_def timings_def Let_def)
  assume "timeit clock reps = Some m"
  then have "?t \<noteq> []" and m: "m = ?s ! ?i" by (auto simp: timeit_def Let_def split: if_splits)
  then have i: "?i < length ?s" by (cases ?t) auto
  have len: "length (filter P ?t) = length (filter P ?s)" for P
    by (metis mset_filter mset_sort size_mset)
  have "m \<in> set ?s" unfolding m by (rule nth_mem [OF i])
  moreover have "2 * length (filter (\<lambda>t. t < m) ?s) \<le> nat reps" using sorted_below [OF sorted_sort i] n unfolding m by linarith
  moreover have "2 * length (filter (\<lambda>t. m < t) ?s) \<le> nat reps" using sorted_above [OF sorted_sort i] n unfolding length_sort m by linarith
  ultimately show "m \<in> set ?t \<and> 2 * length (filter (\<lambda>t. t < m) ?t) \<le> nat reps \<and> 2 * length (filter (\<lambda>t. m < t) ?t) \<le> nat reps"
    unfolding len by simp
qed

lemma between: "(a::rat) \<le> b \<Longrightarrow> 0 \<le> t \<Longrightarrow> t \<le> 1 \<Longrightarrow> a \<le> a + (b - a) * t \<and> a + (b - a) * t \<le> b"
  using mult_left_le [of t "b - a"] mult_nonneg_nonneg [of "b - a" t] by auto

theorem percentile_bounds:
  assumes "sorted data" and "data \<noteq> []" and "0 \<le> p" and "p \<le> 100"
  shows "hd data \<le> percentile data p \<and> percentile data p \<le> last data
    \<and> percentile data 0 = hd data \<and> percentile data 100 = last data"
proof -
  let ?n = "length data - 1"
  define k where "k = of_nat ?n * p / 100"
  define lo where "lo = nat \<lfloor>k\<rfloor>"
  have n: "?n < length data" and ends: "hd data = data ! 0" "last data = data ! ?n"
    using assms(2) by (simp_all add: hd_conv_nth last_conv_nth)
  have k: "0 \<le> k" "k \<le> of_nat ?n" using assms(3,4) mult_left_mono [of p 100 "of_nat ?n"] by (simp_all add: k_def)
  have lo: "of_nat lo \<le> k" "k < of_nat lo + 1" using k(1) by (simp_all add: lo_def) linarith+
  have "of_nat lo \<le> (of_nat ?n :: rat)" using lo(1) k(2) by (rule order_trans)
  then have le: "lo \<le> ?n" by (simp only: of_nat_le_iff)
  let ?hi = "min (lo + 1) ?n"
  have val: "percentile data p = data ! lo + (data ! ?hi - data ! lo) * (k - of_nat lo)"
    using assms(2) by (simp add: percentile_def Let_def k_def lo_def)
  have "data ! lo \<le> data ! ?hi" using assms(1) le n by (intro sorted_nth_mono) auto
  then have "data ! lo \<le> percentile data p \<and> percentile data p \<le> data ! ?hi"
    unfolding val using lo by (intro between) auto
  moreover have "data ! 0 \<le> data ! lo" "data ! ?hi \<le> data ! ?n" using assms(1) le n by (intro sorted_nth_mono; simp)+
  ultimately show ?thesis using assms(2) by (auto simp: ends percentile_def Let_def)
qed

section \<open>Witnesses\<close>

text \<open>Two workers and two indices: six resumptions.\<close>

lemma load_each_once_witness:
  "load_done (load_run 2 (phase_calls 5) [0, 1, 1, 0] (load_start 2))
    \<and> calls_of 1 (ld_log (load_run 2 (phase_calls 5) [0, 1, 1, 0] (load_start 2))) = [6]"
proof -
  have sched: "load_sched 2 (phase_calls 5) [0, 1, 1, 0] (load_start 2)" by code_simp
  have "\<forall>i. phase_calls 5 i \<noteq> []" by (simp add: phase_calls_def)
  note once = load_each_once [OF sched this]
  have len: "(\<Sum>i < nat 2. length (phase_calls 5 i)) + 2 = length [0, 1, 1, 0 :: nat]" by (simp add: phase_calls_def)
  have fin: "load_done (load_run 2 (phase_calls 5) [0, 1, 1, 0] (load_start 2))" using once len by simp
  have "calls_of 1 (ld_log (load_run 2 (phase_calls 5) [0, 1, 1, 0] (load_start 2))) = phase_calls 5 1"
    using once fin by (simp del: load_run.simps)
  moreover have "phase_calls 5 1 = [6]" by (simp add: phase_calls_def)
  ultimately show ?thesis using fin by (simp only:)
qed

text \<open>Two workers on the two nodes, one of which has read its value back.\<close>

lemma bench_reads_back_witness:
  "fst (run_requests (\<lambda>s. []) (call_requests (replicate 3 (demo_env Up, Some [0, 1], 5))
      (map snd (ld_log (load_run 9 (bench_calls [demo_node 1, demo_node 2] (PObj 4)) [0, 1, 0] (load_start 2))))) demo_cluster)
   = [ABool True, ABool True, AVal (PObj 4)]"
proof -
  let ?calls = "map snd (ld_log (load_run 9 (bench_calls [demo_node 1, demo_node 2] (PObj 4)) [0, 1, 0] (load_start 2)))"
  have calls: "?calls = [(demo_node 1, CSet (bench_key 0) (PObj 4) None), (demo_node 2, CSet (bench_key 1) (PObj 4) None),
      (demo_node 1, CGet (bench_key 0))]"
    by (simp add: load_start_def load_resume_def load_claim_def bench_calls_def Let_def numeral_2_eq_2)
  have sched: "load_sched 9 (bench_calls [demo_node 1, demo_node 2] (PObj 4)) [0, 1, 0] (load_start 2)"
    by (simp add: load_start_def load_resume_def load_claim_def bench_calls_def Let_def numeral_2_eq_2)
  have up: "\<forall>c \<in> set (replicate 3 (demo_env Up, Some [0, 1], 5)). ctx_ok 2 c"
    by (auto simp: ctx_ok_def healthy_def demo_env_def schedule_def)
  have nodes: "\<forall>n \<in> set [demo_node 1, demo_node 2]. demo_cluster n \<noteq> None" by (simp add: demo_cluster_def)
  have empty: "\<forall>a s. demo_cluster a = Some s \<longrightarrow> sn_store s = lww_init" by (simp add: demo_cluster_def demo_storage_def)
  have two: "\<forall>k. length ((\<lambda>k. [demo_node 1, demo_node 2]) k) = 2" by simp
  have "fst (run_requests (\<lambda>s. []) (call_requests (replicate 3 (demo_env Up, Some [0, 1], 5)) ?calls) demo_cluster) =
      map (\<lambda>x. expected (PObj 4) (snd x)) ?calls"
    by (rule bench_reads_back [OF demo_agreed empty two _ nodes sched refl _ up]) (simp_all only: calls, simp_all)
  then show ?thesis unfolding calls by simp
qed

end
